(* ===== verification/Tgm_Prelude.thy ===== *)
theory Tgm_Prelude
  imports Main "HOL-Library.Sublist"
begin

text \<open>
  What every component shares: the outcomes a C function can have beyond returning, the
  convention for C strings and pointers into them, the character classes of \<open>ctype.h\<close>,
  and the lemma collections the component proofs use.

  A C string is the \<open>char list\<close> before its terminating NUL; a pointer into it is the
  suffix that starts there, and a \<open>char *\<close> that may be NULL is a \<open>string option\<close>.
\<close>

section \<open>Outcomes\<close>

text \<open>
  A call that does not return normally: \<open>Blocked\<close> waits for something the environment has
  not supplied, \<open>Undef\<close> is undefined behaviour of C (a NULL dereference, a write outside
  an array), \<open>Exited\<close> is a call of \<open>exit\<close>, \<open>Deep\<close> is the fuel of a bounded
  recursion running out.
\<close>

datatype stop = Blocked | Undef | Exited | Deep

type_synonym 'a outcome = "stop + 'a"

definition seqO :: "'a outcome \<Rightarrow> ('a \<Rightarrow> 'b outcome) \<Rightarrow> 'b outcome" where
  "seqO m f = (case m of Inl e \<Rightarrow> Inl e | Inr x \<Rightarrow> f x)"

named_theorems c_simps "unfoldings of small definitions of the model"
named_theorems keeps "frame facts: what an operation leaves unchanged"
named_theorems inv_intro "an operation preserves an invariant"

lemma seqO_Inr [simp]: "seqO (Inr x) f = f x"
  by (simp add: seqO_def)

lemma seqO_Inl [simp]: "seqO (Inl e) f = Inl e"
  by (simp add: seqO_def)

lemma seqO_eq_Inr: "seqO m f = Inr y \<longleftrightarrow> (\<exists>x. m = Inr x \<and> f x = Inr y)"
  by (cases m) auto

lemma seqO_eq_Inl: "seqO m f = Inl e \<longleftrightarrow> m = Inl e \<or> (\<exists>x. m = Inr x \<and> f x = Inl e)"
  by (cases m) auto

lemma seqO_assoc: "seqO (seqO m f) g = seqO m (\<lambda>x. seqO (f x) g)"
  by (cases m) auto

lemma seqO_cong [fundef_cong]:
  "m = n \<Longrightarrow> (\<And>x. n = Inr x \<Longrightarrow> f x = g x) \<Longrightarrow> seqO m f = seqO n g"
  by (cases n) auto

text \<open>
  An outcome is good when it blocks, exits or is a good value; \<open>okO\<close> also lets it be undefined
  behaviour, but not run out of fuel.
\<close>

definition goodO :: "('a \<Rightarrow> bool) \<Rightarrow> 'a outcome \<Rightarrow> bool" where
  "goodO P m = (case m of Inl e \<Rightarrow> e \<noteq> Undef \<and> e \<noteq> Deep | Inr x \<Rightarrow> P x)"

lemma goodO_Inr [simp]: "goodO P (Inr x) = P x"
  by (simp add: goodO_def)

lemma goodO_Inl [simp]: "goodO P (Inl e) = (e \<noteq> Undef \<and> e \<noteq> Deep)"
  by (simp add: goodO_def)

lemma goodO_seqO: "goodO P m \<Longrightarrow> (\<And>x. P x \<Longrightarrow> goodO Q (f x)) \<Longrightarrow> goodO Q (seqO m f)"
  by (cases m) auto

lemma goodO_mono: "goodO P m \<Longrightarrow> (\<And>x. P x \<Longrightarrow> Q x) \<Longrightarrow> goodO Q m"
  by (cases m) auto

lemma goodO_InrD: "goodO P m \<Longrightarrow> m = Inr x \<Longrightarrow> P x"
  by simp

definition okO :: "('a \<Rightarrow> bool) \<Rightarrow> 'a outcome \<Rightarrow> bool" where
  "okO P m = (case m of Inl e \<Rightarrow> e \<noteq> Deep | Inr x \<Rightarrow> P x)"

lemma okO_Inr [simp]: "okO P (Inr x) = P x"
  by (simp add: okO_def)

lemma okO_Inl [simp]: "okO P (Inl e) = (e \<noteq> Deep)"
  by (simp add: okO_def)

lemma okO_seqO: "okO P m \<Longrightarrow> (\<And>x. P x \<Longrightarrow> okO Q (f x)) \<Longrightarrow> okO Q (seqO m f)"
  by (cases m) auto

lemma okO_mono: "okO P m \<Longrightarrow> (\<And>x. P x \<Longrightarrow> Q x) \<Longrightarrow> okO Q m"
  by (cases m) auto

lemma goodO_okO: "goodO P m \<Longrightarrow> okO P m"
  by (cases m) auto

text \<open>Partial correctness: if the outcome is a value, it satisfies the predicate.\<close>

definition allO :: "('a \<Rightarrow> bool) \<Rightarrow> 'a outcome \<Rightarrow> bool" where
  "allO P m = (case m of Inl e \<Rightarrow> True | Inr x \<Rightarrow> P x)"

lemma allO_Inr [simp]: "allO P (Inr x) = P x"
  by (simp add: allO_def)

lemma allO_Inl [simp]: "allO P (Inl e)"
  by (simp add: allO_def)

lemma allO_seqO: "allO P m \<Longrightarrow> (\<And>x. P x \<Longrightarrow> allO Q (f x)) \<Longrightarrow> allO Q (seqO m f)"
  by (cases m) auto

lemma allO_any: "(\<And>x. allO Q (f x)) \<Longrightarrow> allO Q (seqO m f)"
  by (cases m) auto

lemma allO_I: "(\<And>x. m = Inr x \<Longrightarrow> P x) \<Longrightarrow> allO P m"
  by (cases m) auto

lemma allO_D: "allO P m \<Longrightarrow> m = Inr x \<Longrightarrow> P x"
  by simp

lemma allO_mono: "allO P m \<Longrightarrow> (\<And>x. P x \<Longrightarrow> Q x) \<Longrightarrow> allO Q m"
  by (cases m) auto

lemma goodO_conj: "goodO P m \<Longrightarrow> allO Q m \<Longrightarrow> goodO (\<lambda>x. P x \<and> Q x) m"
  by (cases m) auto

lemma okO_conj: "okO P m \<Longrightarrow> allO Q m \<Longrightarrow> okO (\<lambda>x. P x \<and> Q x) m"
  by (cases m) auto

text \<open>The general form: \<open>E\<close> are the ways the call may fail to return.\<close>

definition outO :: "stop set \<Rightarrow> ('a \<Rightarrow> bool) \<Rightarrow> 'a outcome \<Rightarrow> bool" where
  "outO E P m = (case m of Inl e \<Rightarrow> e \<in> E | Inr x \<Rightarrow> P x)"

lemma outO_Inr [simp]: "outO E P (Inr x) = P x"
  by (simp add: outO_def)

lemma outO_Inl [simp]: "outO E P (Inl e) = (e \<in> E)"
  by (simp add: outO_def)

lemma outO_seqO: "outO E P m \<Longrightarrow> (\<And>x. P x \<Longrightarrow> outO E Q (f x)) \<Longrightarrow> outO E Q (seqO m f)"
  by (cases m) auto

lemma outO_mono: "outO E P m \<Longrightarrow> (\<And>x. P x \<Longrightarrow> Q x) \<Longrightarrow> outO E Q m"
  by (cases m) auto

lemma outO_conj: "outO E P m \<Longrightarrow> allO Q m \<Longrightarrow> outO E (\<lambda>x. P x \<and> Q x) m"
  by (cases m) auto

lemma outO_none: "outO {} P m \<longleftrightarrow> (\<exists>x. m = Inr x \<and> P x)"
  by (cases m) auto

section \<open>Characters\<close>

abbreviation NUL :: char where "NUL \<equiv> CHR 0x00"
abbreviation CR :: char where "CR \<equiv> CHR 0x0D"
abbreviation LF :: char where "LF \<equiv> CHR 0x0A"
abbreviation DQUOTE :: char where "DQUOTE \<equiv> CHR 0x22"
abbreviation COMMA :: char where "COMMA \<equiv> CHR 0x2C"
abbreviation COLON :: char where "COLON \<equiv> CHR 0x3A"

definition isspace :: "char \<Rightarrow> bool" where
  "isspace c \<longleftrightarrow> c = CHR 0x20 \<or> c = CHR 0x09 \<or> c = CHR 0x0A \<or> c = CHR 0x0B \<or> c = CHR 0x0C \<or> c = CHR 0x0D"

definition isdigit :: "char \<Rightarrow> bool" where
  "isdigit c \<longleftrightarrow> 48 \<le> (of_char c :: nat) \<and> (of_char c :: nat) \<le> 57"

lemma isspace_not_special [simp]:
  "\<not> isspace DQUOTE" "\<not> isspace COMMA" "\<not> isspace COLON" "isspace CR" "isspace LF"
  by (simp_all add: isspace_def)

lemma isdigit_not_isspace: "isdigit c \<Longrightarrow> \<not> isspace c"
  by (auto simp: isdigit_def isspace_def)

section \<open>Lists\<close>

lemma dropWhile_id: "(\<And>x. x \<in> set xs \<Longrightarrow> \<not> P x) \<Longrightarrow> dropWhile P xs = xs"
  by (cases xs) auto

lemma takeWhile_id: "(\<And>x. x \<in> set xs \<Longrightarrow> P x) \<Longrightarrow> takeWhile P xs = xs"
  by (simp add: takeWhile_eq_all_conv)

lemma takeWhile_neq [simp]: "d \<notin> set t \<Longrightarrow> takeWhile (\<lambda>c. c \<noteq> d) (t @ d # r) = t"
  by (induction t) auto

lemma dropWhile_neq [simp]: "d \<notin> set t \<Longrightarrow> dropWhile (\<lambda>c. c \<noteq> d) (t @ d # r) = d # r"
  by (induction t) auto

lemma takeWhile_neq_all [simp]: "d \<notin> set t \<Longrightarrow> takeWhile (\<lambda>c. c \<noteq> d) t = t"
  by (induction t) auto

lemma dropWhile_neq_all [simp]: "d \<notin> set t \<Longrightarrow> dropWhile (\<lambda>c. c \<noteq> d) t = []"
  by (induction t) auto

lemma takeWhile_dropWhile_app [simp]: "takeWhile P xs @ dropWhile P xs @ ys = xs @ ys"
  by (simp flip: append_assoc)

end
