(* ===== verification/Misc.thy ===== *)
theory Misc
  imports Tgm_Prelude
begin

text \<open>
  \<open>huawei_tgm/misc.c\<close>: the prefix test every classification of a modem line uses.
  \<open>strStartsWith\<close> is the loop of the source, advancing both pointers together; it decides
  the prefix order of \<open>HOL-Library.Sublist\<close>.
\<close>

fun strStartsWith :: "string \<Rightarrow> string \<Rightarrow> bool" where
  "strStartsWith (l # line) (p # pre) = (if l \<noteq> p then False else strStartsWith line pre)"
| "strStartsWith line pre = (pre = [])"

lemma strStartsWith_iff: "strStartsWith line pre \<longleftrightarrow> prefix pre line"
  by (induction line pre rule: strStartsWith.induct) (auto simp: prefix_Cons)

lemma strStartsWith_Nil [simp]: "strStartsWith line []"
  by (simp add: strStartsWith_iff)

lemma strStartsWith_append [simp]: "strStartsWith (pre @ rest) pre"
  by (simp add: strStartsWith_iff)

lemma strStartsWith_two:
  "strStartsWith l p \<Longrightarrow> strStartsWith l q \<Longrightarrow> strStartsWith p q \<or> strStartsWith q p"
  unfolding strStartsWith_iff by (rule prefix_same_cases) 

end
