(* ===== verification/At_Tok.thy ===== *)
theory At_Tok
  imports Misc "HOL-Library.Word"
begin

text \<open>
  \<open>huawei_tgm/at_tok.c\<close>: the tokenizer of AT response lines. A cursor \<open>char **p_cur\<close> is
  a \<open>string option\<close> (\<open>None\<close> is the NULL that \<open>strsep\<close> stores after the last token); each
  function returns its result code, what it wrote through its output pointer
  (\<open>None\<close> when it wrote nothing) and the new cursor. \<open>strsep\<close>, \<open>strtol\<close> and \<open>strtoul\<close>
  are the functions of the C library, with the 32-bit \<open>long\<close> of the ARM targets of this
  stack: they saturate, and the result is cast to \<open>int\<close>.
\<close>

section \<open>The C library functions used\<close>

type_synonym cursor = "string option"

definition strsep :: "cursor \<Rightarrow> char \<Rightarrow> string option \<times> cursor" where
  "strsep cur d = (case cur of None \<Rightarrow> (None, None)
     | Some s \<Rightarrow> (Some (takeWhile (\<lambda>c. c \<noteq> d) s),
                  (case dropWhile (\<lambda>c. c \<noteq> d) s of [] \<Rightarrow> None | _ # r \<Rightarrow> Some r)))"

definition digit_val :: "char \<Rightarrow> int" where
  "digit_val c = (let n = of_char c :: int in
     if 48 \<le> n \<and> n \<le> 57 then n - 48
     else if 97 \<le> n \<and> n \<le> 122 then n - 87
     else if 65 \<le> n \<and> n \<le> 90 then n - 55
     else 99)"

definition is_digit_of :: "int \<Rightarrow> char \<Rightarrow> bool" where
  "is_digit_of base c \<longleftrightarrow> digit_val c < base"

fun digits_val :: "int \<Rightarrow> int \<Rightarrow> string \<Rightarrow> int" where
  "digits_val base acc [] = acc"
| "digits_val base acc (c # cs) = digits_val base (acc * base + digit_val c) cs"

fun split_sign :: "string \<Rightarrow> bool \<times> string" where
  "split_sign [] = (False, [])"
| "split_sign (c # cs) = (if c = CHR ''-'' then (True, cs) else if c = CHR ''+'' then (False, cs) else (False, c # cs))"

fun skip_0x :: "string \<Rightarrow> string" where
  "skip_0x (z # x # h # cs) =
     (if z = CHR ''0'' \<and> (x = CHR ''x'' \<or> x = CHR ''X'') \<and> is_digit_of 16 h then h # cs else z # x # h # cs)"
| "skip_0x cs = cs"

text \<open>The sign and magnitude read; \<open>None\<close> is the case \<open>end == ret\<close>, no conversion.\<close>

definition strto :: "int \<Rightarrow> string \<Rightarrow> (bool \<times> int) option" where
  "strto base s =
     (let (neg, s1) = split_sign (dropWhile isspace s);
          s2 = (if base = 16 then skip_0x s1 else s1);
          ds = takeWhile (is_digit_of base) s2
      in if ds = [] then None else Some (neg, digits_val base 0 ds))"

definition LONG_MAX :: int where "LONG_MAX = 2147483647"
definition LONG_MIN :: int where "LONG_MIN = - 2147483648"
definition ULONG_MAX :: int where "ULONG_MAX = 4294967295"

definition strtol :: "int \<Rightarrow> string \<Rightarrow> int option" where
  "strtol base s = (case strto base s of None \<Rightarrow> None
     | Some (neg, v) \<Rightarrow> Some (max LONG_MIN (min LONG_MAX (if neg then - v else v))))"

definition strtoul :: "int \<Rightarrow> string \<Rightarrow> int option" where
  "strtoul base s = (case strto base s of None \<Rightarrow> None
     | Some (neg, v) \<Rightarrow> Some (if ULONG_MAX < v then ULONG_MAX else (if neg then - v else v) mod (ULONG_MAX + 1)))"

text \<open>The conversions to \<open>long\<close> and then \<open>int\<close>, both 32 bits wide.\<close>

definition to_int :: "int \<Rightarrow> int" where
  "to_int x = sint (word_of_int x :: 32 word)"

section \<open>The tokenizer\<close>

definition at_tok_start :: "cursor \<Rightarrow> int \<times> cursor" where
  "at_tok_start p_cur = (case p_cur of None \<Rightarrow> (-1, None)
     | Some s \<Rightarrow> (case dropWhile (\<lambda>c. c \<noteq> COLON) s of [] \<Rightarrow> (-1, None) | _ # r \<Rightarrow> (0, Some r)))"

fun skipWhiteSpace :: "cursor \<Rightarrow> cursor" where
  "skipWhiteSpace None = None"
| "skipWhiteSpace (Some []) = Some []"
| "skipWhiteSpace (Some (c # s)) = (if isspace c then skipWhiteSpace (Some s) else Some (c # s))"

fun skipNextComma :: "cursor \<Rightarrow> cursor" where
  "skipNextComma None = None"
| "skipNextComma (Some []) = Some []"
| "skipNextComma (Some (c # s)) = (if c \<noteq> COMMA then skipNextComma (Some s) else Some s)"

definition nextTok :: "cursor \<Rightarrow> string option \<times> cursor" where
  "nextTok p_cur = (case skipWhiteSpace p_cur of
       None \<Rightarrow> (None, None)
     | Some (c # s) \<Rightarrow>
         if c = DQUOTE then (let (r, cur) = strsep (Some s) DQUOTE in (r, skipNextComma cur))
         else strsep (Some (c # s)) COMMA
     | Some [] \<Rightarrow> strsep (Some []) COMMA)"

definition at_tok_nextint_base :: "cursor \<Rightarrow> int \<Rightarrow> bool \<Rightarrow> int \<times> int option \<times> cursor" where
  "at_tok_nextint_base p_cur base uns =
     (if p_cur = None then (-1, None, None)
      else case nextTok p_cur of
          (None, cur) \<Rightarrow> (-1, None, cur)
        | (Some ret, cur) \<Rightarrow>
            (case (if uns then strtoul base ret else strtol base ret) of
               None \<Rightarrow> (-1, Some 0, cur)
             | Some l \<Rightarrow> (0, Some (to_int l), cur)))"

definition at_tok_nextint :: "cursor \<Rightarrow> int \<times> int option \<times> cursor" where
  "at_tok_nextint p_cur = at_tok_nextint_base p_cur 10 False"

definition at_tok_nexthexint :: "cursor \<Rightarrow> int \<times> int option \<times> cursor" where
  "at_tok_nexthexint p_cur = at_tok_nextint_base p_cur 16 True"

text \<open>\<open>p_out\<close> is never NULL in this code base; a NULL \<open>p_out\<close> only drops the value.\<close>

definition at_tok_nextbool :: "cursor \<Rightarrow> int \<times> int option \<times> cursor" where
  "at_tok_nextbool p_cur = (case at_tok_nextint p_cur of (ret, result, cur) \<Rightarrow>
     if ret < 0 then (-1, None, cur)
     else if \<not> (result = Some 0 \<or> result = Some 1) then (-1, None, cur)
     else (ret, result, cur))"

text \<open>The token written may itself be NULL, hence the nested option.\<close>

definition at_tok_nextstr :: "cursor \<Rightarrow> int \<times> string option option \<times> cursor" where
  "at_tok_nextstr p_cur = (if p_cur = None then (-1, None, None)
     else case nextTok p_cur of (r, cur) \<Rightarrow> (0, Some r, cur))"

definition at_tok_hasmore :: "cursor \<Rightarrow> bool" where
  "at_tok_hasmore p_cur \<longleftrightarrow> \<not> (p_cur = None \<or> p_cur = Some [])"

section \<open>Progress\<close>

text \<open>
  The contract of a token source, as the handlers that loop over tokens use it: every read of a
  source that is not used up yields a token and leaves less behind, and a source that is used
  up stays so.
\<close>

locale token_source =
  fixes tok :: "'c \<Rightarrow> 't option \<times> 'c" and left :: "'c \<Rightarrow> nat"
  assumes tok_end: "left c = 0 \<Longrightarrow> tok c = (None, c)"
    and tok_some: "left c \<noteq> 0 \<Longrightarrow> fst (tok c) \<noteq> None"
    and tok_less: "left c \<noteq> 0 \<Longrightarrow> left (snd (tok c)) < left c"
begin

lemma tok_bounded: "left (((snd \<circ> tok) ^^ n) c) \<le> left c - n"
proof (induction n)
  case (Suc n)
  define d where "d = ((snd \<circ> tok) ^^ n) c"
  have "left (snd (tok d)) \<le> left d - 1"
    using tok_less [of d] tok_end [of d] by (cases "left d = 0") auto
  moreover have "left d \<le> left c - n" using Suc.IH by (simp only: d_def)
  ultimately have "left (snd (tok d)) \<le> left c - Suc n" by linarith
  then show ?case by (simp add: d_def comp_def)
qed simp

lemma tok_exhausts: "left (((snd \<circ> tok) ^^ left c) c) = 0"
  using tok_bounded [of "left c" c] by simp

end

definition tok_left :: "cursor \<Rightarrow> nat" where
  "tok_left cur = (case cur of None \<Rightarrow> 0 | Some s \<Rightarrow> Suc (length s))"

lemma tok_left_simps [simp]:
  "tok_left None = 0" "tok_left (Some s) = Suc (length s)"
  by (simp_all add: tok_left_def)

lemma tok_left_0 [simp]: "tok_left c = 0 \<longleftrightarrow> c = None"
  by (cases c) auto

lemma skipWhiteSpace_Some: "skipWhiteSpace (Some s) = Some (dropWhile isspace s)"
  by (induction s) auto

lemma skipNextComma_left: "tok_left (skipNextComma c) \<le> tok_left c"
  by (induction c rule: skipNextComma.induct) auto

lemma strsep_left: "tok_left (snd (strsep (Some s) d)) < tok_left (Some s)"
  using length_dropWhile_le [of "\<lambda>c. c \<noteq> d" s]
  by (auto simp: strsep_def split: list.split)

lemma nextTok_unfold:
  "nextTok (Some s) = (case dropWhile isspace s of
       c # r \<Rightarrow> if c = DQUOTE then (let (t, cur) = strsep (Some r) DQUOTE in (t, skipNextComma cur))
                else strsep (Some (c # r)) COMMA
     | [] \<Rightarrow> (Some [], None))"
proof -
  define t where "t = dropWhile isspace s"
  show ?thesis
    by (cases t) (simp_all add: nextTok_def skipWhiteSpace_Some strsep_def flip: t_def)
qed

lemma nextTok_None [simp]: "nextTok None = (None, None)"
  by (simp add: nextTok_def)

lemma nextTok_some: "c \<noteq> None \<Longrightarrow> fst (nextTok c) \<noteq> None"
proof -
  assume "c \<noteq> None"
  then obtain s where c: "c = Some s" by auto
  define t where "t = dropWhile isspace s"
  show "fst (nextTok c) \<noteq> None"
    by (cases t) (simp_all add: c nextTok_unfold strsep_def flip: t_def)
qed

lemma nextTok_less:
  assumes "c \<noteq> None"
  shows "tok_left (snd (nextTok c)) < tok_left c"
proof -
  from assms obtain s where c: "c = Some s" by auto
  have len: "length (dropWhile isspace s) \<le> length s" by (rule length_dropWhile_le)
  show ?thesis
  proof (cases "dropWhile isspace s")
    case Nil
    then show ?thesis by (simp only: c nextTok_unfold list.case) simp
  next
    case (Cons d r)
    have "tok_left (skipNextComma (snd (strsep (Some r) DQUOTE))) < Suc (Suc (length r))"
      using skipNextComma_left [of "snd (strsep (Some r) DQUOTE)"] strsep_left [of r DQUOTE] by simp
    moreover have "tok_left (snd (strsep (Some (d # r)) COMMA)) < Suc (Suc (length r))"
      using strsep_left [of "d # r" COMMA] by simp
    ultimately show ?thesis
      using Cons len by (auto simp: c nextTok_unfold Let_def split: prod.split)
  qed
qed

interpretation at: token_source nextTok tok_left
  by unfold_locales (simp_all only: tok_left_0 nextTok_less nextTok_some nextTok_None not_False_eq_True)

text \<open>
  Tokenizing an AT line always ends: after as many calls of \<open>nextTok\<close> as the line has
  characters left (plus one for the terminator) the cursor is NULL, whatever the line.
\<close>

theorem at_tok_terminates:
  "((snd \<circ> nextTok) ^^ tok_left cur) cur = None"
  using at.tok_exhausts [of cur] by simp

section \<open>Reading back what was printed\<close>

text \<open>
  The syntax of a response line, as TS 27.007 prints it: a name, a colon, and fields separated
  by commas, each plain or in double quotes and possibly preceded by blanks.
\<close>

datatype at_field = Plain string | Quoted string

fun field_val :: "at_field \<Rightarrow> string" where
  "field_val (Plain s) = s"
| "field_val (Quoted s) = s"

fun field_text :: "at_field \<Rightarrow> string" where
  "field_text (Plain s) = s"
| "field_text (Quoted s) = DQUOTE # s @ [DQUOTE]"

fun field_ok :: "at_field \<Rightarrow> bool" where
  "field_ok (Plain s) \<longleftrightarrow> COMMA \<notin> set s \<and> (case s of [] \<Rightarrow> True | c # _ \<Rightarrow> c \<noteq> DQUOTE \<and> \<not> isspace c)"
| "field_ok (Quoted s) \<longleftrightarrow> DQUOTE \<notin> set s"

fun render :: "(string \<times> at_field) list \<Rightarrow> string" where
  "render [] = []"
| "render [(ws, f)] = ws @ field_text f"
| "render ((ws, f) # fs) = ws @ field_text f @ COMMA # render fs"

definition printable :: "(string \<times> at_field) list \<Rightarrow> bool" where
  "printable fs \<longleftrightarrow> list_all (\<lambda>(ws, f). list_all isspace ws \<and> field_ok f) fs"

fun read_toks :: "nat \<Rightarrow> cursor \<Rightarrow> string option list \<times> cursor" where
  "read_toks 0 cur = ([], cur)"
| "read_toks (Suc n) cur = (let (t, cur') = nextTok cur; (ts, cur'') = read_toks n cur' in (t # ts, cur''))"

lemma dropWhile_blank: "list_all isspace ws \<Longrightarrow> dropWhile isspace (ws @ s) = dropWhile isspace s"
  by (induction ws) auto

lemma dropWhile_all_blank: "list_all isspace ws \<Longrightarrow> dropWhile isspace ws = []"
  by (induction ws) auto

lemma strsep_hit: "d \<notin> set t \<Longrightarrow> strsep (Some (t @ d # r)) d = (Some t, Some r)"
  by (simp add: strsep_def)

lemma strsep_miss: "d \<notin> set t \<Longrightarrow> strsep (Some t) d = (Some t, None)"
  by (simp add: strsep_def)

lemma nextTok_field_comma:
  assumes "list_all isspace ws" and "field_ok f"
  shows "nextTok (Some (ws @ field_text f @ COMMA # r)) = (Some (field_val f), Some r)"
proof (cases f)
  case (Plain s)
  with assms(2) have s: "COMMA \<notin> set s" by simp
  have "dropWhile isspace (s @ COMMA # r) = s @ COMMA # r"
    using assms(2) Plain by (cases s) auto
  moreover have "s @ COMMA # r = c # t \<Longrightarrow> c \<noteq> DQUOTE" for c t
    using assms(2) Plain by (cases s) auto
  ultimately show ?thesis
    using assms(1) strsep_hit [OF s, of r]
    by (cases "s @ COMMA # r") (simp_all add: nextTok_unfold dropWhile_blank Plain)
next
  case (Quoted s)
  with assms(2) have "DQUOTE \<notin> set s" by simp
  then show ?thesis
    using assms(1) strsep_hit [of DQUOTE s "COMMA # r"] by (simp add: nextTok_unfold dropWhile_blank Quoted)
qed

lemma nextTok_field_end:
  assumes "list_all isspace ws" and "field_ok f"
  shows "fst (nextTok (Some (ws @ field_text f))) = Some (field_val f)
    \<and> \<not> at_tok_hasmore (snd (nextTok (Some (ws @ field_text f))))"
proof (cases f)
  case (Plain s)
  with assms(2) have s: "COMMA \<notin> set s" by simp
  have "dropWhile isspace s = s" using assms(2) Plain by (cases s) auto
  moreover have "s = c # t \<Longrightarrow> c \<noteq> DQUOTE" for c t
    using assms(2) Plain by (cases s) auto
  ultimately show ?thesis
    using assms(1) strsep_miss [OF s]
    by (cases s) (simp_all add: nextTok_unfold dropWhile_blank dropWhile_all_blank Plain at_tok_hasmore_def)
next
  case (Quoted s)
  with assms(2) have "DQUOTE \<notin> set s" by simp
  then show ?thesis
    using assms(1) strsep_hit [of DQUOTE s "[]"]
    by (simp add: nextTok_unfold dropWhile_blank Quoted at_tok_hasmore_def)
qed

lemma printable_Cons: "printable ((ws, f) # fs) \<longleftrightarrow> list_all isspace ws \<and> field_ok f \<and> printable fs"
  by (simp add: printable_def)

lemma read_toks_render:
  "fs \<noteq> [] \<Longrightarrow> printable fs \<Longrightarrow>
    fst (read_toks (length fs) (Some (render fs))) = map (\<lambda>(ws, f). Some (field_val f)) fs
    \<and> \<not> at_tok_hasmore (snd (read_toks (length fs) (Some (render fs))))"
proof (induction fs rule: render.induct)
  case (2 ws f)
  then show ?case
    using nextTok_field_end [of ws f] by (auto simp: printable_Cons split: prod.splits)
next
  case (3 ws f g fs)
  then have "nextTok (Some (render ((ws, f) # g # fs))) = (Some (field_val f), Some (render (g # fs)))"
    by (simp add: printable_Cons nextTok_field_comma)
  with 3 show ?case by (auto simp: printable_Cons split: prod.splits)
qed simp

text \<open>
  C16. Reading a response line gives back the fields it was printed from: after \<open>at_tok_start\<close>
  has skipped the name, one \<open>nextTok\<close> per field returns the fields in order, quotes and
  blanks removed and commas inside quotes kept, and then \<open>at_tok_hasmore\<close> is 0.
\<close>

theorem at_tok_roundtrip:
  assumes "COLON \<notin> set name" and "fs \<noteq> []" and "printable fs"
  shows "\<exists>cur cur'. at_tok_start (Some (name @ COLON # render fs)) = (0, cur)
    \<and> read_toks (length fs) cur = (map (\<lambda>(ws, f). Some (field_val f)) fs, cur')
    \<and> \<not> at_tok_hasmore cur'"
proof -
  have "dropWhile (\<lambda>c. c \<noteq> COLON) (name @ COLON # render fs) = COLON # render fs"
    using assms(1) by simp
  then have "at_tok_start (Some (name @ COLON # render fs)) = (0, Some (render fs))"
    by (simp add: at_tok_start_def)
  then show ?thesis
    using read_toks_render [OF assms(2,3)] by (metis prod.collapse)
qed

theorem at_tok_roundtrip_witness:
  "\<exists>cur cur'. at_tok_start (Some ''+COPS: 0,0,\"T, M\"'') = (0, cur)
    \<and> read_toks 3 cur = ([Some ''0'', Some ''0'', Some ''T, M''], cur') \<and> \<not> at_tok_hasmore cur'"
  using at_tok_roundtrip
    [of "''+COPS''" "[('' '', Plain ''0''), ([], Plain ''0''), ([], Quoted ''T, M'')]"]
  by (simp add: printable_def isspace_def numeral_3_eq_3)

section \<open>Integers\<close>

text \<open>Decimal notation, as the modem prints numbers.\<close>

definition dec_char :: "nat \<Rightarrow> char" where
  "dec_char k = ''0123456789'' ! k"

fun dec_nat :: "nat \<Rightarrow> string" where
  "dec_nat n = (if n < 10 then [dec_char n] else dec_nat (n div 10) @ [dec_char (n mod 10)])"

declare dec_nat.simps [simp del]

definition dec_int :: "int \<Rightarrow> string" where
  "dec_int x = (if x < 0 then CHR ''-'' # dec_nat (nat (- x)) else dec_nat (nat x))"

lemma digit_cases: "k < 10 \<Longrightarrow> k \<in> {0,1,2,3,4,5,6,7,8,9}" for k :: nat
  by auto

lemma dec_char_val: "k < 10 \<Longrightarrow> digit_val (dec_char k) = int k"
  by (drule digit_cases, elim insertE) (simp_all add: dec_char_def digit_val_def)

lemma dec_char_not:
  "k < 10 \<Longrightarrow> dec_char k \<noteq> COMMA \<and> dec_char k \<noteq> CHR ''-'' \<and> dec_char k \<noteq> CHR ''+''
    \<and> dec_char k \<noteq> DQUOTE \<and> \<not> isspace (dec_char k)"
  by (drule digit_cases, elim insertE) (simp_all add: dec_char_def isspace_def)

lemma digits_val_append: "digits_val b acc (xs @ ys) = digits_val b (digits_val b acc xs) ys"
  by (induction xs arbitrary: acc) auto

lemma dec_nat_chars: "\<forall>c \<in> set (dec_nat n). \<exists>k < 10. c = dec_char k"
proof (induction n rule: dec_nat.induct)
  case (1 n)
  then show ?case
    by (subst dec_nat.simps) (auto simp: dec_nat.simps [of n] intro!: exI [of _ "n mod 10"])
qed

lemma dec_nat_nonempty [simp]: "dec_nat n \<noteq> []"
  by (subst dec_nat.simps) simp

lemma dec_nat_val: "digits_val 10 0 (dec_nat n) = int n"
proof (induction n rule: dec_nat.induct)
  case (1 n)
  have "int (n div 10) * 10 + int (n mod 10) = int n" by presburger
  with 1 show ?case
    by (cases "n < 10") (simp_all add: dec_nat.simps [of n] dec_char_val digits_val_append)
qed

lemma dec_nat_digits: "c \<in> set (dec_nat n) \<Longrightarrow> is_digit_of 10 c \<and> c \<noteq> COMMA \<and> c \<noteq> DQUOTE
    \<and> c \<noteq> CHR ''-'' \<and> c \<noteq> CHR ''+'' \<and> \<not> isspace c"
proof -
  assume "c \<in> set (dec_nat n)"
  then obtain k where "k < 10" "c = dec_char k" using dec_nat_chars by blast
  then show ?thesis by (simp add: is_digit_of_def dec_char_val dec_char_not)
qed

lemma takeWhile_dec [simp]: "takeWhile (is_digit_of 10) (dec_nat n) = dec_nat n"
  by (rule takeWhile_id) (simp add: dec_nat_digits)

lemma dec_nat_hd:
  obtains c t where "dec_nat n = c # t" "\<not> isspace c" "c \<noteq> CHR ''-''" "c \<noteq> CHR ''+''" "c \<noteq> DQUOTE"
  by (metis dec_nat_digits dec_nat_nonempty list.exhaust list.set_intros(1))

lemma strto_dec_nat: "strto 10 (dec_nat n) = Some (False, int n)"
proof -
  obtain c t where d: "dec_nat n = c # t" "\<not> isspace c" "c \<noteq> CHR ''-''" "c \<noteq> CHR ''+''"
    by (rule dec_nat_hd)
  have "split_sign (dropWhile isspace (dec_nat n)) = (False, dec_nat n)" using d by simp
  then show ?thesis by (simp add: strto_def Let_def dec_nat_val)
qed

lemma strto_neg_dec_nat: "strto 10 (CHR ''-'' # dec_nat n) = Some (True, int n)"
  by (simp add: strto_def isspace_def dec_nat_val Let_def)

lemma strtol_dec_int: "strtol 10 (dec_int x) = Some (max LONG_MIN (min LONG_MAX x))"
  by (simp add: strtol_def dec_int_def strto_dec_nat strto_neg_dec_nat)

lemma to_int_id: "LONG_MIN \<le> x \<Longrightarrow> x \<le> LONG_MAX \<Longrightarrow> to_int x = x"
  by (simp add: to_int_def LONG_MIN_def LONG_MAX_def sint_sbintrunc' signed_take_bit_int_eq_self)

lemma dec_int_field: "field_ok (Plain (dec_int x))"
proof -
  have comma: "COMMA \<notin> set (dec_nat m)" for m
    using dec_nat_digits by blast
  obtain c t where d: "dec_nat (nat x) = c # t" "\<not> isspace c" "c \<noteq> DQUOTE"
    by (rule dec_nat_hd)
  show ?thesis
  proof (cases "x < 0")
    case True
    then show ?thesis by (simp add: dec_int_def comma isspace_def)
  next
    case False
    with comma [of "nat x"] show ?thesis by (simp add: dec_int_def d)
  qed
qed

lemma nextint_token:
  "nextTok (Some s) = (Some (dec_int x), cur) \<Longrightarrow>
    at_tok_nextint (Some s) = (0, Some (max LONG_MIN (min LONG_MAX x)), cur)"
  by (simp add: at_tok_nextint_def at_tok_nextint_base_def strtol_dec_int to_int_id LONG_MIN_def LONG_MAX_def)

lemma nextint_comma:
  assumes "list_all isspace ws"
  shows "at_tok_nextint (Some (ws @ dec_int x @ COMMA # r)) = (0, Some (max LONG_MIN (min LONG_MAX x)), Some r)"
  using nextint_token [of "ws @ dec_int x @ COMMA # r" x "Some r"]
    nextTok_field_comma [OF assms dec_int_field, of x r]
  by simp

text \<open>
  \<open>at_tok_nextint\<close> reads a printed number back: of a field that holds the decimal
  notation of \<open>x\<close> it returns 0 and stores \<open>x\<close>, saturated to the range of \<open>int\<close> and never
  wrapped, and leaves the cursor at the next field.
\<close>

theorem at_tok_nextint_reads:
  assumes "list_all isspace ws"
  shows "at_tok_nextint (Some (ws @ dec_int x @ COMMA # r))
    = (0, Some (max (- 2147483648) (min 2147483647 x)), Some r)"
  using nextint_comma [OF assms] by (simp add: LONG_MIN_def LONG_MAX_def)

theorem at_tok_nextint_reads_witness:
  "at_tok_nextint (Some ('' '' @ dec_int 99999999999 @ COMMA # ''1'')) = (0, Some 2147483647, Some ''1'')"
  using at_tok_nextint_reads [of "'' ''" 99999999999 "''1''"] by (simp add: isspace_def)

text \<open>
  \<open>at_tok_nextbool\<close> accepts exactly the integers 0 and 1: it succeeds if and only if
  \<open>at_tok_nextint\<close> reads one of them, and then stores that value and the same cursor; in every
  other case (no number, another number, no token) it reports -1 and stores nothing.
\<close>

theorem at_tok_nextbool_exact:
  "at_tok_nextbool cur = (case at_tok_nextint cur of (ret, v, cur') \<Rightarrow>
     if ret = 0 \<and> v \<in> {Some 0, Some 1} then (0, v, cur') else (-1, None, cur'))"
proof -
  have "fst (at_tok_nextint cur) \<in> {0, -1}"
    by (auto simp: at_tok_nextint_def at_tok_nextint_base_def split: option.split prod.split)
  then show ?thesis by (auto simp: at_tok_nextbool_def split: prod.split)
qed

end
