(* ===== verification/At_Response.thy ===== *)
theory At_Response
  imports At_Tok
begin

text \<open>
  The responses of \<open>huawei_tgm/atchannel.c\<close> and \<open>atchannel.h\<close>: the \<open>ATResponse\<close> a command
  collects, the classification of a line as final or unsolicited, the reversal of the
  intermediate lines, and the error code of a \<open>+CME ERROR\<close> answer. The singly linked list
  \<open>ATLine\<close> is the list of its lines, its head first; its blocks in
  memory are in \<open>At_Memory\<close>.
\<close>

section \<open>Data\<close>

datatype ATCommandType = NO_RESULT | NUMERIC | SINGLELINE | MULTILINE

record ATResponse =
  success :: int
  finalResponse :: "string option"
  p_intermediates :: "string list"

definition at_response_new :: ATResponse where
  "at_response_new = \<lparr>success = 0, finalResponse = None, p_intermediates = []\<rparr>"

definition AT_ERROR_GENERIC :: int where "AT_ERROR_GENERIC = -1"
definition AT_ERROR_COMMAND_PENDING :: int where "AT_ERROR_COMMAND_PENDING = -2"
definition AT_ERROR_CHANNEL_CLOSED :: int where "AT_ERROR_CHANNEL_CLOSED = -3"
definition AT_ERROR_TIMEOUT :: int where "AT_ERROR_TIMEOUT = -4"
definition AT_ERROR_INVALID_THREAD :: int where "AT_ERROR_INVALID_THREAD = -5"
definition AT_ERROR_INVALID_RESPONSE :: int where "AT_ERROR_INVALID_RESPONSE = -6"

lemmas at_errors =
  AT_ERROR_GENERIC_def AT_ERROR_COMMAND_PENDING_def AT_ERROR_CHANNEL_CLOSED_def
  AT_ERROR_TIMEOUT_def AT_ERROR_INVALID_THREAD_def AT_ERROR_INVALID_RESPONSE_def

definition CME_ERROR_NON_CME :: int where "CME_ERROR_NON_CME = -1"
definition CME_SUCCESS :: int where "CME_SUCCESS = 0"
definition CME_SIM_NOT_INSERTED :: int where "CME_SIM_NOT_INSERTED = 10"
definition CME_SIM_FAILURE :: int where "CME_SIM_FAILURE = 13"

lemmas cme_codes =
  CME_ERROR_NON_CME_def CME_SUCCESS_def CME_SIM_NOT_INSERTED_def CME_SIM_FAILURE_def

section \<open>Classifying a line\<close>

definition s_finalResponsesError :: "string list" where
  "s_finalResponsesError =
     [''ERROR'', ''+CMS ERROR:'', ''+CME ERROR:'', ''NO CARRIER'', ''NO ANSWER'', ''NO DIALTONE'',
      ''COMMAND NOT SUPPORT'']"

definition isFinalResponseError :: "string \<Rightarrow> bool" where
  "isFinalResponseError line = list_ex (strStartsWith line) s_finalResponsesError"

definition s_finalResponsesSuccess :: "string list" where
  "s_finalResponsesSuccess = [''OK'', ''CONNECT'']"

definition isFinalResponseSuccess :: "string \<Rightarrow> bool" where
  "isFinalResponseSuccess line = list_ex (strStartsWith line) s_finalResponsesSuccess"

definition isFinalResponse :: "string \<Rightarrow> bool" where
  "isFinalResponse line \<longleftrightarrow> isFinalResponseSuccess line \<or> isFinalResponseError line"

definition s_smsUnsoliciteds :: "string list" where
  "s_smsUnsoliciteds = [''+CMT:'', ''+CDS:'', ''+CBM:'']"

definition isSMSUnsolicited :: "string \<Rightarrow> bool" where
  "isSMSUnsolicited line = list_ex (strStartsWith line) s_smsUnsoliciteds"

lemmas line_class_defs =
  isFinalResponse_def isFinalResponseError_def isFinalResponseSuccess_def isSMSUnsolicited_def
  s_finalResponsesError_def s_finalResponsesSuccess_def s_smsUnsoliciteds_def

text \<open>
  Two prefix tables that have no pair of entries of which one begins the other classify no
  line twice.
\<close>

lemma list_ex_prefix_disjoint:
  assumes "list_ex (strStartsWith l) ps" and "list_ex (strStartsWith l) qs"
  shows "list_ex (\<lambda>p. list_ex (\<lambda>q. strStartsWith p q \<or> strStartsWith q p) qs) ps"
  using assms strStartsWith_two by (fastforce simp: list_ex_iff)

lemma success_not_error: "isFinalResponseSuccess l \<Longrightarrow> \<not> isFinalResponseError l"
proof
  assume "isFinalResponseSuccess l" "isFinalResponseError l"
  then have "list_ex (\<lambda>p. list_ex (\<lambda>q. strStartsWith p q \<or> strStartsWith q p) s_finalResponsesError)
      s_finalResponsesSuccess"
    unfolding isFinalResponseSuccess_def isFinalResponseError_def by (rule list_ex_prefix_disjoint)
  then show False by (simp add: s_finalResponsesError_def s_finalResponsesSuccess_def)
qed

lemma sms_not_final: "isSMSUnsolicited l \<Longrightarrow> \<not> isFinalResponse l"
proof
  assume "isSMSUnsolicited l" "isFinalResponse l"
  then have "list_ex (\<lambda>p. list_ex (\<lambda>q. strStartsWith p q \<or> strStartsWith q p)
      (s_finalResponsesSuccess @ s_finalResponsesError)) s_smsUnsoliciteds"
    by (intro list_ex_prefix_disjoint)
      (simp_all add: isSMSUnsolicited_def isFinalResponse_def isFinalResponseSuccess_def isFinalResponseError_def)
  then show False
    by (simp add: s_finalResponsesError_def s_finalResponsesSuccess_def s_smsUnsoliciteds_def)
qed

text \<open>
  The three classifications of a line exclude each other: no line is both a successful and
  a failing final response, and no line that announces an SMS is a final response, so the
  order in which the reader and \<open>processLine\<close> test them does not matter.
\<close>

theorem line_classes_disjoint:
  "\<not> (isFinalResponseSuccess l \<and> isFinalResponseError l)
    \<and> \<not> (isSMSUnsolicited l \<and> isFinalResponse l)"
  using success_not_error sms_not_final by blast

section \<open>Turning the intermediate lines round\<close>

fun reverse_loop :: "string list \<Rightarrow> string list \<Rightarrow> string list" where
  "reverse_loop [] acc = acc"
| "reverse_loop (pcur # pnext) acc = reverse_loop pnext (pcur # acc)"

definition reverseIntermediates :: "ATResponse \<Rightarrow> ATResponse" where
  "reverseIntermediates p_response =
     p_response\<lparr>p_intermediates := reverse_loop (p_intermediates p_response) []\<rparr>"

lemma reverse_loop_rev: "reverse_loop xs acc = rev xs @ acc"
  by (induction xs arbitrary: acc) auto

lemma reverseIntermediates_simps [simp]:
  "p_intermediates (reverseIntermediates r) = rev (p_intermediates r)"
  "success (reverseIntermediates r) = success r"
  "finalResponse (reverseIntermediates r) = finalResponse r"
  by (simp_all add: reverseIntermediates_def reverse_loop_rev)

section \<open>The error code of a response\<close>

definition at_get_cme_error :: "ATResponse \<Rightarrow> int" where
  "at_get_cme_error p_response =
     (if success p_response > 0 then CME_SUCCESS
      else case finalResponse p_response of
          None \<Rightarrow> CME_ERROR_NON_CME
        | Some f \<Rightarrow>
            if \<not> strStartsWith f ''+CME ERROR:'' then CME_ERROR_NON_CME
            else (case at_tok_start (Some f) of (err, p_cur) \<Rightarrow>
              if err < 0 then CME_ERROR_NON_CME
              else (case at_tok_nextint p_cur of (err, ret, _) \<Rightarrow>
                if err < 0 then CME_ERROR_NON_CME
                else (case ret of Some r \<Rightarrow> r | None \<Rightarrow> CME_ERROR_NON_CME))))"

lemma at_tok_nextint_end:
  assumes "list_all isspace ws"
  shows "\<exists>cur. at_tok_nextint (Some (ws @ dec_int x)) = (0, Some (max LONG_MIN (min LONG_MAX x)), cur)"
  using nextTok_field_end [OF assms dec_int_field, of x] nextint_token [of "ws @ dec_int x" x]
  by (cases "nextTok (Some (ws @ dec_int x))") auto

text \<open>
  \<open>at_get_cme_error\<close> returns the code a failing \<open>+CME ERROR: n\<close> answer carries, for every
  \<open>n\<close> that fits an \<open>int\<close>.
\<close>

theorem cme_error_code:
  assumes "success r \<le> 0" and "finalResponse r = Some (''+CME ERROR: '' @ dec_int n)"
    and "- 2147483648 \<le> n" and "n \<le> 2147483647"
  shows "at_get_cme_error r = n"
proof -
  obtain cur where "at_tok_nextint (Some ('' '' @ dec_int n)) = (0, Some n, cur)"
    using at_tok_nextint_end [of "'' ''" n] assms(3,4) by (auto simp: isspace_def LONG_MIN_def LONG_MAX_def)
  then show ?thesis using assms(1,2) by (simp add: at_get_cme_error_def at_tok_start_def)
qed

theorem cme_error_code_witness:
  "at_get_cme_error \<lparr>success = 0, finalResponse = Some (''+CME ERROR: '' @ dec_int 10), p_intermediates = []\<rparr>
    = CME_SIM_NOT_INSERTED"
  using cme_error_code
    [of "\<lparr>success = 0, finalResponse = Some (''+CME ERROR: '' @ dec_int 10), p_intermediates = []\<rparr>" 10]
  by (simp add: CME_SIM_NOT_INSERTED_def)

end
