(* ===== verification/At_Reader.thy ===== *)
theory At_Reader
  imports At_Response
begin

text \<open>
  The line reader of \<open>huawei_tgm/atchannel.c\<close>: \<open>findNextEOL\<close> and \<open>readline\<close> over the array
  \<open>s_ATBuffer\<close> and the index \<open>s_ATBufferCur\<close>. The array has \<open>cap + 1\<close> cells, where \<open>cap\<close>
  stands for \<open>MAX_AT_RESPONSE\<close>; every access outside it is \<open>Undef\<close>. What \<open>read\<close> returns is
  a script of events; a script that is used up is a \<open>read\<close> that blocks. The second part
  shows that the array code implements a function on the string of unread characters, and
  that this function does not depend on how \<open>read\<close> splits the stream.
\<close>

section \<open>The buffer\<close>

definition MAX_AT_RESPONSE :: nat where "MAX_AT_RESPONSE = 8 * 1024"

record reader =
  s_ATBuffer :: string
  s_ATBufferCur :: nat
  s_readCount :: int

definition is_nl :: "char \<Rightarrow> bool" where
  "is_nl c \<longleftrightarrow> c = CR \<or> c = LF"

definition buf_at :: "string \<Rightarrow> nat \<Rightarrow> char outcome" where
  "buf_at b i = (if i < length b then Inr (b ! i) else Inl Undef)"

definition cstr_at :: "string \<Rightarrow> nat \<Rightarrow> string" where
  "cstr_at b i = takeWhile (\<lambda>c. c \<noteq> NUL) (drop i b)"

fun write_at :: "string \<Rightarrow> nat \<Rightarrow> string \<Rightarrow> string" where
  "write_at b i [] = b"
| "write_at b i (c # cs) = write_at (b[i := c]) (Suc i) cs"

function skip_newlines :: "string \<Rightarrow> nat \<Rightarrow> nat outcome" where
  "skip_newlines b i =
     (if i < length b then (if is_nl (b ! i) then skip_newlines b (Suc i) else Inr i) else Inl Undef)"
  by pat_completeness auto
termination by (relation "measure (\<lambda>(b, i). length b - i)") auto

function scan_eol :: "string \<Rightarrow> nat \<Rightarrow> nat outcome" where
  "scan_eol b i =
     (if i < length b then (if b ! i \<noteq> NUL \<and> \<not> is_nl (b ! i) then scan_eol b (Suc i) else Inr i) else Inl Undef)"
  by pat_completeness auto
termination by (relation "measure (\<lambda>(b, i). length b - i)") auto

declare skip_newlines.simps [simp del] scan_eol.simps [simp del]

definition at_prompt :: "string \<Rightarrow> nat \<Rightarrow> bool outcome" where
  "at_prompt b cur =
     seqO (buf_at b cur) (\<lambda>c0. if c0 \<noteq> CHR ''>'' then Inr False
       else seqO (buf_at b (cur + 1)) (\<lambda>c1. if c1 \<noteq> CHR '' '' then Inr False
         else seqO (buf_at b (cur + 2)) (\<lambda>c2. Inr (c2 = NUL))))"

definition findNextEOL :: "string \<Rightarrow> nat \<Rightarrow> nat option outcome" where
  "findNextEOL b cur = seqO (at_prompt b cur) (\<lambda>prompt.
     if prompt then Inr (Some (cur + 2))
     else seqO (scan_eol b cur) (\<lambda>i. Inr (if b ! i = NUL then None else Some i)))"

section \<open>Reading\<close>

datatype read_ev = Bytes string | ReadEINTR | ReadError

text \<open>The \<open>do\<close> loop around \<open>read\<close>: at most \<open>n\<close> bytes, retried on EINTR; \<open>None\<close> is an error.\<close>

fun sys_read :: "nat \<Rightarrow> read_ev list \<Rightarrow> (string option \<times> read_ev list) outcome" where
  "sys_read n [] = Inl Blocked"
| "sys_read n (ReadEINTR # rs) = sys_read n rs"
| "sys_read n (ReadError # rs) = Inr (None, rs)"
| "sys_read n (Bytes bs # rs) =
     Inr (Some (take n bs), if length bs \<le> n then rs else Bytes (drop n bs) # rs)"

fun ev_size :: "read_ev \<Rightarrow> nat" where
  "ev_size (Bytes bs) = Suc (length bs)"
| "ev_size _ = 1"

definition script_size :: "read_ev list \<Rightarrow> nat" where
  "script_size rs = sum_list (map ev_size rs)"

lemma script_size_simps [simp]: "script_size [] = 0" "script_size (e # rs) = ev_size e + script_size rs"
  by (simp_all add: script_size_def)

lemma sys_read_size:
  "sys_read n rs = Inr (Some (b # bs), rs') \<Longrightarrow> script_size rs' < script_size rs"
proof (induction n rs rule: sys_read.induct)
  case (4 n bs' rs)
  then show ?case by (cases n; cases bs') (auto split: if_splits)
qed auto

lemma sys_read_size_le: "sys_read n rs = Inr (g, rs') \<Longrightarrow> script_size rs' \<le> script_size rs"
  by (induction n rs rule: sys_read.induct) (auto split: if_splits)

text \<open>A full line: a NUL over its end, the cursor behind it.\<close>

definition take_line :: "reader \<Rightarrow> nat \<Rightarrow> string option \<times> reader" where
  "take_line r p_eol =
     (let b = (s_ATBuffer r)[p_eol := NUL]
      in (Some (cstr_at b (s_ATBufferCur r)), r\<lparr>s_ATBuffer := b, s_ATBufferCur := p_eol + 1\<rparr>))"

text \<open>The \<open>while (p_eol == NULL)\<close> loop, entered with no line in the buffer.\<close>

function readline_loop :: "nat \<Rightarrow> reader \<Rightarrow> nat \<Rightarrow> read_ev list \<Rightarrow> (string option \<times> reader \<times> read_ev list) outcome" where
  "readline_loop cap r p_read reads =
     (let full = (p_read = cap);
          r0 = (if full then r\<lparr>s_ATBuffer := (s_ATBuffer r)[0 := NUL], s_ATBufferCur := 0\<rparr> else r);
          p0 = (if full then 0 else p_read)
      in seqO (sys_read (cap - p0) reads) (\<lambda>(got, rs).
        case got of
          None \<Rightarrow> Inr (None, r0, rs)
        | Some [] \<Rightarrow> Inr (None, r0, rs)
        | Some (c # cs) \<Rightarrow>
            let p1 = p0 + length (c # cs);
                b = (write_at (s_ATBuffer r0) p0 (c # cs))[p1 := NUL]
            in if p1 < length b then
                 seqO (skip_newlines b (s_ATBufferCur r0)) (\<lambda>cur.
                 seqO (findNextEOL b cur) (\<lambda>p_eol.
                   let r1 = r0\<lparr>s_ATBuffer := b, s_ATBufferCur := cur,
                               s_readCount := s_readCount r0 + int (length (c # cs))\<rparr>
                   in case p_eol of
                        None \<Rightarrow> readline_loop cap r1 p1 rs
                      | Some e \<Rightarrow> (case take_line r1 e of (l, r2) \<Rightarrow> Inr (l, r2, rs))))
               else Inl Undef))"
  by pat_completeness auto
termination
  by (relation "measure (\<lambda>(cap, r, p, rs). script_size rs)") (auto dest: sys_read_size)

declare readline_loop.simps [simp del]

definition readline :: "nat \<Rightarrow> reader \<Rightarrow> read_ev list \<Rightarrow> (string option \<times> reader \<times> read_ev list) outcome" where
  "readline cap r reads =
     seqO (buf_at (s_ATBuffer r) (s_ATBufferCur r)) (\<lambda>c.
       if c = NUL then
         readline_loop cap (r\<lparr>s_ATBuffer := (s_ATBuffer r)[0 := NUL], s_ATBufferCur := 0\<rparr>) 0 reads
       else seqO (skip_newlines (s_ATBuffer r) (s_ATBufferCur r)) (\<lambda>cur.
            seqO (findNextEOL (s_ATBuffer r) cur) (\<lambda>p_eol.
              case p_eol of
                Some e \<Rightarrow> (case take_line (r\<lparr>s_ATBufferCur := cur\<rparr>) e of (l, r') \<Rightarrow> Inr (l, r', reads))
              | None \<Rightarrow>
                  let len = length (cstr_at (s_ATBuffer r) cur);
                      b = write_at (s_ATBuffer r) 0 (take (len + 1) (drop cur (s_ATBuffer r)))
                  in readline_loop cap (r\<lparr>s_ATBuffer := b, s_ATBufferCur := 0\<rparr>) len reads)))"

definition reader_init :: "nat \<Rightarrow> reader" where
  "reader_init cap = \<lparr>s_ATBuffer = replicate (Suc cap) NUL, s_ATBufferCur = 0, s_readCount = 0\<rparr>"

section \<open>The reader on the unread characters\<close>

text \<open>
  The same reader over the string of unread characters, without array or indices: \<open>off\<close> is
  how many cells before the unread characters are already used up in this call. A line ends
  at CR, LF or NUL, and a NUL hides what follows it.
\<close>

definition is_stop :: "char \<Rightarrow> bool" where
  "is_stop c \<longleftrightarrow> c = NUL \<or> is_nl c"

definition cut_line :: "string \<Rightarrow> (string \<times> string) option" where
  "cut_line s = (case dropWhile (\<lambda>c. \<not> is_stop c) s of
       [] \<Rightarrow> None
     | c # r \<Rightarrow> if c = NUL then None else Some (takeWhile (\<lambda>c. \<not> is_stop c) s, r))"

function abs_loop :: "nat \<Rightarrow> nat \<Rightarrow> string \<Rightarrow> read_ev list \<Rightarrow> (string option \<times> string \<times> read_ev list) outcome" where
  "abs_loop cap off pend reads =
     (let full = (off + length pend = cap);
          off0 = (if full then 0 else off);
          pend0 = (if full then [] else pend)
      in seqO (sys_read (cap - (off0 + length pend0)) reads) (\<lambda>(got, rs).
        case got of
          None \<Rightarrow> Inr (None, pend0, rs)
        | Some [] \<Rightarrow> Inr (None, pend0, rs)
        | Some (c # cs) \<Rightarrow>
            let s = pend0 @ c # cs; s' = dropWhile is_nl s
            in case cut_line s' of
                 None \<Rightarrow> abs_loop cap (off0 + length (takeWhile is_nl s)) s' rs
               | Some (l, rest) \<Rightarrow> Inr (Some l, rest, rs)))"
  by pat_completeness auto
termination
  by (relation "measure (\<lambda>(cap, off, p, rs). script_size rs)") (auto dest: sys_read_size)

declare abs_loop.simps [simp del]

definition abs_readline :: "nat \<Rightarrow> string \<Rightarrow> read_ev list \<Rightarrow> (string option \<times> string \<times> read_ev list) outcome" where
  "abs_readline cap pend reads =
     (if pend = [] \<or> hd pend = NUL then abs_loop cap 0 [] reads
      else let s = dropWhile is_nl pend
           in case cut_line s of
                Some (l, rest) \<Rightarrow> Inr (Some l, rest, reads)
              | None \<Rightarrow> abs_loop cap 0 (takeWhile (\<lambda>c. c \<noteq> NUL) s) reads)"

text \<open>The unread characters of an array state: from the cursor up to the NUL that \<open>read\<close> left.\<close>

definition unread :: "nat \<Rightarrow> reader \<Rightarrow> string \<Rightarrow> bool" where
  "unread cap r pend \<longleftrightarrow> (\<exists>pre post. s_ATBuffer r = pre @ pend @ NUL # post
     \<and> length pre = s_ATBufferCur r \<and> length (s_ATBuffer r) = Suc cap)"

lemma unreadI:
  "s_ATBuffer r = pre @ pend @ NUL # post \<Longrightarrow> s_ATBufferCur r = length pre
    \<Longrightarrow> length (s_ATBuffer r) = Suc cap \<Longrightarrow> unread cap r pend"
  unfolding unread_def by (intro exI conjI) auto

definition no_prompt :: "read_ev list \<Rightarrow> bool" where
  "no_prompt rs \<longleftrightarrow> (\<forall>bs. Bytes bs \<in> set rs \<longrightarrow> CHR ''>'' \<notin> set bs)"

subsection \<open>The array operations on a split buffer\<close>

lemma is_nl_NUL [simp]: "\<not> is_nl NUL"
  by (simp add: is_nl_def)

lemma write_at_append:
  "length cs \<le> length ys \<Longrightarrow> write_at (xs @ ys) (length xs) cs = xs @ cs @ drop (length cs) ys"
proof (induction cs arbitrary: xs ys)
  case (Cons c cs)
  then obtain y ys' where ys: "ys = y # ys'" by (cases ys) auto
  have "write_at (xs @ ys) (length xs) (c # cs) = write_at ((xs @ [c]) @ ys') (length (xs @ [c])) cs"
    by (simp add: ys)
  also have "\<dots> = (xs @ [c]) @ cs @ drop (length cs) ys'"
    using Cons.prems ys by (intro Cons.IH) simp
  finally show ?case by (simp add: ys)
qed simp

lemma length_write_at [simp]: "length (write_at b i cs) = length b"
  by (induction cs arbitrary: b i) auto

lemma store_chunk:
  assumes "length cs \<le> length post"
  shows "(write_at (xs @ NUL # post) (length xs) cs)[length xs + length cs := NUL]
    = xs @ cs @ NUL # drop (length cs) post"
proof -
  have "drop (length cs) (NUL # post) = (NUL # post) ! length cs # drop (length cs) post"
    using assms by (simp add: Cons_nth_drop_Suc [symmetric])
  then have "write_at (xs @ NUL # post) (length xs) cs
      = (xs @ cs) @ (NUL # post) ! length cs # drop (length cs) post"
    using assms by (subst write_at_append) auto
  then show ?thesis by (simp add: list_update_append)
qed

lemma skip_newlines_split:
  "skip_newlines (pre @ s @ NUL # post) (length pre) = Inr (length pre + length (takeWhile is_nl s))"
proof (induction s arbitrary: pre)
  case Nil
  then show ?case by (subst skip_newlines.simps) (simp add: nth_append)
next
  case (Cons c s)
  show ?case
    using Cons.IH [of "pre @ [c]"] by (subst skip_newlines.simps) (simp add: nth_append)
qed

lemma scan_eol_split:
  "scan_eol (pre @ s @ NUL # post) (length pre) = Inr (length pre + length (takeWhile (\<lambda>c. \<not> is_stop c) s))"
proof (induction s arbitrary: pre)
  case Nil
  then show ?case by (subst scan_eol.simps) (simp add: nth_append)
next
  case (Cons c s)
  show ?case
    using Cons.IH [of "pre @ [c]"] by (subst scan_eol.simps) (simp add: nth_append is_stop_def)
qed

lemma nth_stop:
  "(pre @ s @ NUL # post) ! (length pre + length (takeWhile (\<lambda>c. \<not> is_stop c) s))
    = (case dropWhile (\<lambda>c. \<not> is_stop c) s of [] \<Rightarrow> NUL | c # r \<Rightarrow> c)"
proof -
  have "(pre @ t @ d @ NUL # post) ! (length pre + length t) = (case d of [] \<Rightarrow> NUL | c # r \<Rightarrow> c)" for t d
    by (cases d) (simp_all add: nth_append)
  from this [of "takeWhile (\<lambda>c. \<not> is_stop c) s" "dropWhile (\<lambda>c. \<not> is_stop c) s"]
  show ?thesis by (simp only: append.assoc [symmetric]) simp
qed

lemma findNextEOL_split:
  assumes "CHR ''>'' \<notin> set s"
  shows "findNextEOL (pre @ s @ NUL # post) (length pre)
    = Inr (map_option (\<lambda>(l, r). length pre + length l) (cut_line s))"
proof -
  have "(s @ NUL # post) ! 0 \<noteq> CHR ''>''" using assms by (cases s) auto
  then have "at_prompt (pre @ s @ NUL # post) (length pre) = Inr False"
    by (simp add: at_prompt_def buf_at_def nth_append)
  then show ?thesis
    unfolding findNextEOL_def scan_eol_split cut_line_def seqO_Inr if_False nth_stop
    by (auto split: list.split simp del: dropWhile_eq_Nil_conv)
qed

subsection \<open>Refinement\<close>

text \<open>The relation between an outcome of the array code and one of the string function.\<close>

definition same_line :: "nat \<Rightarrow> (string option \<times> reader \<times> read_ev list) outcome
    \<Rightarrow> (string option \<times> string \<times> read_ev list) outcome \<Rightarrow> bool" where
  "same_line cap conc spec = (case spec of
       Inl e \<Rightarrow> e \<noteq> Undef \<and> conc = Inl e
     | Inr (l, pend, rs) \<Rightarrow> CHR ''>'' \<notin> set pend \<and> no_prompt rs
         \<and> (\<exists>r. conc = Inr (l, r, rs) \<and> unread cap r pend))"

lemma same_line_InrI:
  "unread cap r pend \<Longrightarrow> CHR ''>'' \<notin> set pend \<Longrightarrow> no_prompt rs
    \<Longrightarrow> same_line cap (Inr (l, r, rs)) (Inr (l, pend, rs))"
  by (auto simp: same_line_def)

lemma no_prompt_simps [simp]:
  "no_prompt []"
  "no_prompt (Bytes bs # rs) \<longleftrightarrow> CHR ''>'' \<notin> set bs \<and> no_prompt rs"
  "no_prompt (ReadEINTR # rs) \<longleftrightarrow> no_prompt rs"
  "no_prompt (ReadError # rs) \<longleftrightarrow> no_prompt rs"
  by (auto simp: no_prompt_def)

lemma sys_read_prompt:
  "sys_read n rs = Inr (got, rs') \<Longrightarrow> no_prompt rs
    \<Longrightarrow> no_prompt rs' \<and> (\<forall>bs. got = Some bs \<longrightarrow> CHR ''>'' \<notin> set bs)"
  by (induction n rs rule: sys_read.induct)
    (auto split: if_splits dest: in_set_takeD in_set_dropD)

lemma sys_read_length: "sys_read n rs = Inr (Some bs, rs') \<Longrightarrow> length bs \<le> n"
  by (induction n rs rule: sys_read.induct) (auto split: if_splits)

lemma sys_read_not_Undef: "sys_read n rs \<noteq> Inl Undef"
  by (induction n rs rule: sys_read.induct) auto

lemma cut_line_Some:
  assumes "cut_line s = Some (l, rest)"
  obtains e where "s = l @ e # rest" "is_nl e" "NUL \<notin> set l"
proof -
  from assms obtain e where e: "dropWhile (\<lambda>c. \<not> is_stop c) s = e # rest" "e \<noteq> NUL"
      and l: "l = takeWhile (\<lambda>c. \<not> is_stop c) s"
    by (auto simp: cut_line_def split: list.splits if_splits)
  have "is_stop e" using e(1) by (simp add: dropWhile_eq_Cons_conv)
  moreover have "s = l @ e # rest" using takeWhile_dropWhile_id [of "\<lambda>c. \<not> is_stop c" s] e(1) l by simp
  moreover have "NUL \<notin> set l" by (auto simp: l is_stop_def dest: set_takeWhileD)
  ultimately show ?thesis using e(2) that by (auto simp: is_stop_def)
qed

lemma take_line_split:
  assumes b: "s_ATBuffer r = pre @ l @ e # rest @ NUL # post" and cur: "s_ATBufferCur r = length pre"
    and l: "NUL \<notin> set l" and len: "length (s_ATBuffer r) = Suc cap"
  shows "\<exists>r'. take_line r (length pre + length l) = (Some l, r') \<and> unread cap r' rest"
proof -
  have upd: "(s_ATBuffer r)[length pre + length l := NUL] = (pre @ l @ [NUL]) @ rest @ NUL # post"
    by (simp add: b list_update_append)
  have "cstr_at ((s_ATBuffer r)[length pre + length l := NUL]) (length pre) = l"
    using l by (simp add: upd cstr_at_def)
  then have "take_line r (length pre + length l)
      = (Some l, r\<lparr>s_ATBuffer := (pre @ l @ [NUL]) @ rest @ NUL # post,
                 s_ATBufferCur := length pre + length l + 1\<rparr>)"
    by (simp add: take_line_def cur upd Let_def)
  moreover have "unread cap (r\<lparr>s_ATBuffer := (pre @ l @ [NUL]) @ rest @ NUL # post,
                 s_ATBufferCur := length pre + length l + 1\<rparr>) rest"
    unfolding unread_def using len b by (intro exI [of _ "pre @ l @ [NUL]"] exI [of _ post]) simp
  ultimately show ?thesis by blast
qed

text \<open>What follows a stored chunk, and a non-empty buffer: skip newlines, look for the end of a line.\<close>

lemma finish_line:
  assumes b: "s_ATBuffer r = pre @ s @ NUL # post" and len: "length (s_ATBuffer r) = Suc cap"
    and cur: "s_ATBufferCur r = length pre + length (takeWhile is_nl s)"
    and cut: "cut_line (dropWhile is_nl s) = Some (l, rest)"
  shows "\<exists>r'. take_line r (length pre + length (takeWhile is_nl s) + length l) = (Some l, r') \<and> unread cap r' rest"
proof -
  obtain e where e: "dropWhile is_nl s = l @ e # rest" "NUL \<notin> set l"
    using cut by (rule cut_line_Some)
  have "s_ATBuffer r = (pre @ takeWhile is_nl s) @ l @ e # rest @ NUL # post"
    using takeWhile_dropWhile_id [of is_nl s] e(1) by (simp add: b)
  from take_line_split [OF this _ e(2) len] cur show ?thesis by simp
qed

lemma eol_after_newlines:
  assumes "CHR ''>'' \<notin> set s"
  shows "findNextEOL (pre @ s @ NUL # post) (length pre + length (takeWhile is_nl s))
    = Inr (map_option (\<lambda>(l, r). length pre + length (takeWhile is_nl s) + length l) (cut_line (dropWhile is_nl s)))"
proof -
  have "CHR ''>'' \<notin> set (dropWhile is_nl s)" using assms by (auto dest: set_dropWhileD)
  from findNextEOL_split [OF this, of "pre @ takeWhile is_nl s" post] show ?thesis by simp
qed

text \<open>The overflow test at the head of the loop: a full buffer is thrown away.\<close>

definition ditch :: "nat \<Rightarrow> reader \<Rightarrow> nat \<Rightarrow> reader \<times> nat" where
  "ditch cap r p = (if p = cap then (r\<lparr>s_ATBuffer := (s_ATBuffer r)[0 := NUL], s_ATBufferCur := 0\<rparr>, 0) else (r, p))"

definition abs_ditch :: "nat \<Rightarrow> nat \<Rightarrow> string \<Rightarrow> nat \<times> string" where
  "abs_ditch cap off pend = (if off + length pend = cap then (0, []) else (off, pend))"

lemma list_update_0: "xs \<noteq> [] \<Longrightarrow> xs[0 := x] = x # tl xs"
  by (cases xs) auto

lemma ditch_split:
  assumes "s_ATBuffer r = pre @ pend @ NUL # post" and "s_ATBufferCur r = length pre"
  obtains r0 pre0 pend0 post0
  where "ditch cap r (length pre + length pend) = (r0, length pre0 + length pend0)"
    and "abs_ditch cap (length pre) pend = (length pre0, pend0)"
    and "s_ATBuffer r0 = pre0 @ pend0 @ NUL # post0" and "s_ATBufferCur r0 = length pre0"
    and "length (s_ATBuffer r0) = length (s_ATBuffer r)" and "set pend0 \<subseteq> set pend"
proof (cases "length pre + length pend = cap")
  case True
  have "(s_ATBuffer r)[0 := NUL] = NUL # tl (s_ATBuffer r)" using assms(1) by (intro list_update_0) simp
  then show ?thesis
    using that [of "r\<lparr>s_ATBuffer := (s_ATBuffer r)[0 := NUL], s_ATBufferCur := 0\<rparr>" "[]" "[]" "tl (s_ATBuffer r)"]
    by (simp add: ditch_def abs_ditch_def True assms(1))
next
  case False
  then show ?thesis using that [of r pre pend post] assms by (simp add: ditch_def abs_ditch_def)
qed

text \<open>One iteration that received a chunk: store it, skip newlines, look for a line.\<close>

lemma chunk_step:
  assumes buf: "s_ATBuffer r = pre @ pend @ NUL # post" and cur: "s_ATBufferCur r = length pre"
    and len: "length (s_ATBuffer r) = Suc cap"
    and got: "sys_read (cap - (length pre + length pend)) reads = Inr (Some (c # cs), rs)"
    and gt: "CHR ''>'' \<notin> set (pend @ c # cs)"
    and nofull: "length pre + length pend \<noteq> cap"
  defines "s \<equiv> pend @ c # cs" and "post1 \<equiv> drop (length (c # cs)) post"
  defines "r1 \<equiv> r\<lparr>s_ATBuffer := pre @ s @ NUL # post1, s_ATBufferCur := length pre + length (takeWhile is_nl s),
               s_readCount := s_readCount r + int (length (c # cs))\<rparr>"
  shows "length (s_ATBuffer r1) = Suc cap
    \<and> readline_loop cap r (length pre + length pend) reads =
      (case cut_line (dropWhile is_nl s) of
         None \<Rightarrow> readline_loop cap r1 (length pre + length s) rs
       | Some (l, rest) \<Rightarrow>
           (case take_line r1 (length pre + length (takeWhile is_nl s) + length l) of (l, r2) \<Rightarrow> Inr (l, r2, rs)))"
proof -
  have le: "length (c # cs) \<le> length post"
    using sys_read_length [OF got] buf len by simp
  have store: "(write_at (s_ATBuffer r) (length pre + length pend) (c # cs))
      [length pre + length pend + length (c # cs) := NUL] = pre @ s @ NUL # post1"
    using store_chunk [OF le, of "pre @ pend"] by (simp add: buf s_def post1_def)
  have lenb: "length (pre @ s @ NUL # post1) = Suc cap"
    using buf len le by (simp add: s_def post1_def)
  have "readline_loop cap r (length pre + length pend) reads =
      seqO (skip_newlines (pre @ s @ NUL # post1) (length pre)) (\<lambda>cur'.
      seqO (findNextEOL (pre @ s @ NUL # post1) cur') (\<lambda>p_eol.
        let r' = r\<lparr>s_ATBuffer := pre @ s @ NUL # post1, s_ATBufferCur := cur',
                   s_readCount := s_readCount r + int (length (c # cs))\<rparr>
        in case p_eol of None \<Rightarrow> readline_loop cap r' (length pre + length s) rs
           | Some e \<Rightarrow> (case take_line r' e of (l, r2) \<Rightarrow> Inr (l, r2, rs))))"
    using nofull lenb
    by (subst readline_loop.simps)
      (simp only: got nofull seqO_Inr Let_def if_False prod.case option.case list.case store cur,
       simp add: s_def add.assoc)
  then show ?thesis
    using eol_after_newlines [OF gt [folded s_def], of pre post1] lenb
    by (auto simp: skip_newlines_split r1_def Let_def split: option.splits)
qed

lemma readline_loop_ditch:
  "cap \<noteq> 0 \<Longrightarrow> ditch cap r p = (r0, p0) \<Longrightarrow> readline_loop cap r p reads = readline_loop cap r0 p0 reads"
  by (subst (1 2) readline_loop.simps) (auto simp: ditch_def split: if_splits)

lemma abs_loop_ditch:
  "cap \<noteq> 0 \<Longrightarrow> abs_ditch cap off pend = (off0, pend0) \<Longrightarrow> abs_loop cap off pend reads = abs_loop cap off0 pend0 reads"
  by (subst (1 2) abs_loop.simps) (auto simp: abs_ditch_def split: if_splits)

lemma no_chunk:
  assumes "sys_read (cap - p) reads = g" and "g = Inl e \<or> g = Inr (None, rs) \<or> g = Inr (Some [], rs)" and "p \<noteq> cap"
  shows "readline_loop cap r p reads = (case g of Inl e \<Rightarrow> Inl e | Inr (_, rs) \<Rightarrow> Inr (None, r, rs))"
  using assms by (subst readline_loop.simps) auto

lemma abs_no_chunk:
  assumes "sys_read (cap - (off + length pend)) reads = g"
    and "g = Inl e \<or> g = Inr (None, rs) \<or> g = Inr (Some [], rs)" and "off + length pend \<noteq> cap"
  shows "abs_loop cap off pend reads = (case g of Inl e \<Rightarrow> Inl e | Inr (_, rs) \<Rightarrow> Inr (None, pend, rs))"
  using assms by (subst abs_loop.simps) auto

lemma abs_chunk_step:
  assumes "sys_read (cap - (off + length pend)) reads = Inr (Some (c # cs), rs)" and "off + length pend \<noteq> cap"
  shows "abs_loop cap off pend reads = (case cut_line (dropWhile is_nl (pend @ c # cs)) of
      None \<Rightarrow> abs_loop cap (off + length (takeWhile is_nl (pend @ c # cs))) (dropWhile is_nl (pend @ c # cs)) rs
    | Some (l, rest) \<Rightarrow> Inr (Some l, rest, rs))"
  using assms by (subst abs_loop.simps) (simp add: Let_def)

lemma length_takeWhile_dropWhile: "length (takeWhile P s) + length (dropWhile P s) = length s"
  by (metis length_append takeWhile_dropWhile_id)

lemma readline_loop_refines:
  "cap \<noteq> 0 \<Longrightarrow> s_ATBuffer r = pre @ pend @ NUL # post \<Longrightarrow> length (s_ATBuffer r) = Suc cap \<Longrightarrow> s_ATBufferCur r = length pre
    \<Longrightarrow> CHR ''>'' \<notin> set pend \<Longrightarrow> no_prompt reads
    \<Longrightarrow> same_line cap (readline_loop cap r (length pre + length pend) reads) (abs_loop cap (length pre) pend reads)"
proof (induction "script_size reads" arbitrary: r pre pend post reads rule: less_induct)
  case less
  obtain r0 pre0 pend0 post0 where d: "ditch cap r (length pre + length pend) = (r0, length pre0 + length pend0)"
      "abs_ditch cap (length pre) pend = (length pre0, pend0)"
    and buf0: "s_ATBuffer r0 = pre0 @ pend0 @ NUL # post0" "s_ATBufferCur r0 = length pre0"
      "length (s_ATBuffer r0) = Suc cap"
    and gt0: "CHR ''>'' \<notin> set pend0"
    by (rule ditch_split [where cap = cap, OF less.prems(2,4)]) (use less.prems(3,5) in force)
  define p where "p = length pre0 + length pend0"
  have p: "p \<noteq> cap" using d(1) less.prems(1) by (auto simp: ditch_def p_def split: if_splits)
  note start = readline_loop_ditch [OF less.prems(1) d(1)] abs_loop_ditch [OF less.prems(1) d(2)]
  have un: "unread cap r0 pend0" using buf0 by (rule unreadI)
  consider (no) rs e where "sys_read (cap - p) reads = Inl e \<or> sys_read (cap - p) reads = Inr (None, rs)
        \<or> sys_read (cap - p) reads = Inr (Some [], rs)"
    | (chunk) c cs rs where "sys_read (cap - p) reads = Inr (Some (c # cs), rs)"
    by (metis list.exhaust option.exhaust surj_pair sum.exhaust)
  then show ?case
  proof cases
    case no
    then show ?thesis
      using un gt0 sys_read_not_Undef [of "cap - p" reads] sys_read_prompt [OF _ less.prems(6)]
        no_chunk [OF refl no p, of r0] abs_no_chunk [OF refl, of cap "length pre0" pend0 reads, folded p_def, OF no p]
      by (auto simp: start p_def intro: same_line_InrI) (auto simp: same_line_def)
  next
    case chunk
    define s where "s = pend0 @ c # cs"
    have np: "no_prompt rs" and gt: "CHR ''>'' \<notin> set s"
      using sys_read_prompt [OF chunk less.prems(6)] gt0 by (auto simp: s_def)
    define r1 where "r1 = r0\<lparr>s_ATBuffer := pre0 @ s @ NUL # drop (length (c # cs)) post0,
        s_ATBufferCur := length pre0 + length (takeWhile is_nl s), s_readCount := s_readCount r0 + int (length (c # cs))\<rparr>"
    have r1: "s_ATBuffer r1 = pre0 @ s @ NUL # drop (length (c # cs)) post0"
        "s_ATBufferCur r1 = length pre0 + length (takeWhile is_nl s)" by (simp_all add: r1_def)
    note conc = chunk_step [OF buf0 chunk [unfolded p_def] gt [unfolded s_def] p [unfolded p_def], folded s_def, folded r1_def]
    note spec = abs_chunk_step [OF chunk [unfolded p_def] p [unfolded p_def], folded s_def]
    show ?thesis
    proof (cases "cut_line (dropWhile is_nl s)")
      case None
      have "same_line cap (readline_loop cap r1 (length (pre0 @ takeWhile is_nl s) + length (dropWhile is_nl s)) rs)
          (abs_loop cap (length (pre0 @ takeWhile is_nl s)) (dropWhile is_nl s) rs)"
        using r1 conc gt np less.prems(1) sys_read_size [OF chunk]
        by (intro less.hyps) (auto dest: set_dropWhileD)
      then show ?thesis
        using conc spec None by (simp add: start p_def length_takeWhile_dropWhile add.assoc)
    next
      case (Some lr)
      then obtain l rest where lr: "cut_line (dropWhile is_nl s) = Some (l, rest)" by (cases lr) auto
      then obtain e where "dropWhile is_nl s = l @ e # rest" by (rule cut_line_Some)
      then have "CHR ''>'' \<notin> set rest" using gt by (metis Un_iff list.set_intros(2) set_append set_dropWhileD)
      with finish_line [OF r1(1) _ r1(2) lr] conc spec lr np show ?thesis
        by (auto simp: start intro!: same_line_InrI)
    qed
  qed
qed

lemma take_cstr:
  "NUL \<in> set t \<Longrightarrow> take (Suc (length (takeWhile (\<lambda>c. c \<noteq> NUL) t))) t = takeWhile (\<lambda>c. c \<noteq> NUL) t @ [NUL]"
  by (induction t) auto

lemma compact_split:
  assumes "s_ATBuffer r = pre @ s @ NUL # post"
  defines "q \<equiv> takeWhile (\<lambda>c. c \<noteq> NUL) s"
  shows "cstr_at (s_ATBuffer r) (length pre) = q
    \<and> write_at (s_ATBuffer r) 0 (take (length q + 1) (drop (length pre) (s_ATBuffer r)))
        = q @ NUL # drop (length q + 1) (s_ATBuffer r)"
proof -
  have tw: "takeWhile (\<lambda>c. c \<noteq> NUL) (s @ NUL # post) = q"
    unfolding q_def by (induction s) auto
  have tk: "take (Suc (length q)) (s @ NUL # post) = q @ [NUL]"
    using take_cstr [of "s @ NUL # post"] by (simp add: tw)
  have "length (q @ [NUL]) \<le> length (s_ATBuffer r)"
    using length_takeWhile_le [of "\<lambda>c. c \<noteq> NUL" s] by (simp add: assms(1) q_def)
  then have "write_at (s_ATBuffer r) 0 (q @ [NUL]) = q @ NUL # drop (length q + 1) (s_ATBuffer r)"
    using write_at_append [of "q @ [NUL]" "s_ATBuffer r" "[]"] by simp
  moreover have "drop (length pre) (s_ATBuffer r) = s @ NUL # post" by (simp add: assms(1))
  ultimately show ?thesis by (simp add: cstr_at_def tw tk del: take_append)
qed

lemma readline_simulates:
  assumes cap: "cap \<noteq> 0" and un: "unread cap r pend" and gt: "CHR ''>'' \<notin> set pend" and np: "no_prompt reads"
  shows "same_line cap (readline cap r reads) (abs_readline cap pend reads)"
proof -
  obtain pre post where b: "s_ATBuffer r = pre @ pend @ NUL # post" "length pre = s_ATBufferCur r"
      "length (s_ATBuffer r) = Suc cap"
    using un by (auto simp: unread_def)
  have c: "buf_at (s_ATBuffer r) (s_ATBufferCur r) = Inr ((pend @ [NUL]) ! 0)"
    by (cases pend) (simp_all add: buf_at_def b(1) flip: b(2))
  show ?thesis
  proof (cases "pend = [] \<or> hd pend = NUL")
    case True
    then have nul: "(pend @ [NUL]) ! 0 = NUL" by (cases pend) auto
    define r' where "r' = r\<lparr>s_ATBuffer := (s_ATBuffer r)[0 := NUL], s_ATBufferCur := 0\<rparr>"
    have "s_ATBuffer r' = [] @ [] @ NUL # tl (s_ATBuffer r)"
      by (simp add: r'_def list_update_0 b(1))
    from readline_loop_refines [OF cap this _ _ _ np]
    have "same_line cap (readline_loop cap r' 0 reads) (abs_loop cap 0 [] reads)"
      by (simp add: r'_def b(3))
    then show ?thesis by (simp add: readline_def abs_readline_def c nul True r'_def)
  next
    case False
    then have nonnul: "(pend @ [NUL]) ! 0 \<noteq> NUL" by (cases pend) auto
    define s where "s = dropWhile is_nl pend"
    define cur where "cur = length (pre @ takeWhile is_nl pend)"
    define q where "q = takeWhile (\<lambda>c. c \<noteq> NUL) s"
    define r1 where "r1 = r\<lparr>s_ATBuffer := q @ NUL # drop (length q + 1) (s_ATBuffer r), s_ATBufferCur := 0\<rparr>"
    have split: "s_ATBuffer r = (pre @ takeWhile is_nl pend) @ s @ NUL # post" by (simp add: b(1) s_def)
    note cs = compact_split [OF split, folded q_def cur_def]
    have skip: "skip_newlines (s_ATBuffer r) (s_ATBufferCur r) = Inr cur"
      using skip_newlines_split [of pre pend post] by (simp add: b(1) cur_def flip: b(2))
    have eol: "findNextEOL (s_ATBuffer r) cur = Inr (map_option (\<lambda>(l, rest). cur + length l) (cut_line s))"
      using eol_after_newlines [OF gt, of pre post] by (simp add: b(1) cur_def s_def)
    have conc: "readline cap r reads = (case cut_line s of
        None \<Rightarrow> readline_loop cap r1 (length q) reads
      | Some (l, rest) \<Rightarrow> (case take_line (r\<lparr>s_ATBufferCur := cur\<rparr>) (cur + length l) of (l, r') \<Rightarrow> Inr (l, r', reads)))"
      using cs by (auto simp: readline_def c nonnul skip eol r1_def Let_def split: option.split)
    show ?thesis
    proof (cases "cut_line s")
      case None
      have buf1: "s_ATBuffer r1 = [] @ q @ NUL # drop (length q + 1) (s_ATBuffer r)" by (simp add: r1_def)
      have "length (s_ATBuffer r1) = Suc cap"
        using conjunct2 [OF cs] b(3) by (metis length_write_at buf1 append_Nil)
      moreover have "CHR ''>'' \<notin> set q" using gt by (auto simp: q_def s_def dest!: set_takeWhileD set_dropWhileD)
      ultimately have "same_line cap (readline_loop cap r1 (length q) reads) (abs_loop cap 0 q reads)"
        using readline_loop_refines [OF cap buf1 _ _ _ np] by (simp add: r1_def)
      then show ?thesis using None False by (simp add: conc abs_readline_def s_def q_def)
    next
      case (Some lr)
      then obtain l rest where lr: "cut_line s = Some (l, rest)" by (cases lr) auto
      then obtain e where "s = l @ e # rest" by (rule cut_line_Some)
      then have "CHR ''>'' \<notin> set rest" using gt by (metis Un_iff list.set_intros(2) s_def set_append set_dropWhileD)
      with finish_line [of "r\<lparr>s_ATBufferCur := cur\<rparr>" pre pend post cap l rest] lr b(1,3) np False show ?thesis
        by (auto simp: conc abs_readline_def s_def cur_def intro!: same_line_InrI)
    qed
  qed
qed

text \<open>
  C7. As long as no \<open>>\<close> is among the unread characters or in the input, that is, outside the
  dialogue that sends an SMS, \<open>readline\<close> implements the reader over the string of unread
  characters: from related states and the same input both return the same line (or NULL, or
  block), consume the same input and end in related states. For such input the array code never
  reads or writes outside \<open>s_ATBuffer\<close>, NUL bytes and over-long lines included. With the prompt
  of an SMS it may: see \<open>prompt_leaves_buffer\<close>.
\<close>

theorem readline_refines:
  assumes cap: "cap \<noteq> 0" and un: "unread cap r pend" and gt: "CHR ''>'' \<notin> set pend" and np: "no_prompt reads"
  shows "same_line cap (readline cap r reads) (abs_readline cap pend reads)"
  using readline_simulates [OF assms] .

lemma unread_init: "unread cap (reader_init cap) []"
  by (rule unreadI [of _ "[]" _ "replicate cap NUL"]) (simp_all add: reader_init_def)

theorem readline_refines_witness:
  "same_line 16 (readline 16 (reader_init 16) [Bytes ''+CSQ'', ReadEINTR, Bytes (CR # ''OK'')])
    (abs_readline 16 [] [Bytes ''+CSQ'', ReadEINTR, Bytes (CR # ''OK'')])"
  using readline_refines [of 16 "reader_init 16" "[]" "[Bytes ''+CSQ'', ReadEINTR, Bytes (CR # ''OK'')]"]
  by (simp add: unread_init)

section \<open>The lines of a stream\<close>

text \<open>
  A stream that \<open>read\<close> delivers in non-empty chunks, possibly interrupted, and the lines it
  holds, each with the number of characters up to and including its end.
\<close>

fun data_only :: "read_ev list \<Rightarrow> bool" where
  "data_only [] \<longleftrightarrow> True"
| "data_only (Bytes bs # rs) \<longleftrightarrow> bs \<noteq> [] \<and> data_only rs"
| "data_only (ReadEINTR # rs) \<longleftrightarrow> data_only rs"
| "data_only (ReadError # rs) \<longleftrightarrow> False"

fun stream :: "read_ev list \<Rightarrow> string" where
  "stream [] = []"
| "stream (Bytes bs # rs) = bs @ stream rs"
| "stream (_ # rs) = stream rs"

definition next_line :: "string \<Rightarrow> (string \<times> string) option" where
  "next_line S = (case dropWhile (\<lambda>c. \<not> is_nl c) (dropWhile is_nl S) of
       [] \<Rightarrow> None
     | _ # r \<Rightarrow> Some (takeWhile (\<lambda>c. \<not> is_nl c) (dropWhile is_nl S), r))"

lemma next_line_SomeE:
  assumes "next_line S = Some (l, r)"
  obtains u e where "S = u @ l @ e # r" "\<forall>c \<in> set u. is_nl c" "\<forall>c \<in> set l. \<not> is_nl c" "is_nl e" "l \<noteq> []"
proof -
  let ?S = "dropWhile is_nl S"
  from assms obtain e where e: "dropWhile (\<lambda>c. \<not> is_nl c) ?S = e # r" and l: "l = takeWhile (\<lambda>c. \<not> is_nl c) ?S"
    by (auto simp: next_line_def split: list.splits)
  have "is_nl e" using e by (simp add: dropWhile_eq_Cons_conv)
  have "?S = l @ e # r" using takeWhile_dropWhile_id [of "\<lambda>c. \<not> is_nl c" ?S] e l by simp
  moreover from this have "l \<noteq> []"
    using \<open>is_nl e\<close> hd_dropWhile [of is_nl S] by (cases "?S = []") auto
  ultimately show ?thesis
    using that [of "takeWhile is_nl S" e] \<open>is_nl e\<close> takeWhile_dropWhile_id [of is_nl S] l
    by (metis set_takeWhileD)
qed

lemma next_line_less: "next_line S = Some (l, r) \<Longrightarrow> length r < length S \<and> set r \<subseteq> set S"
  by (erule next_line_SomeE) auto

lemma next_line_split:
  "\<forall>c \<in> set u. is_nl c \<Longrightarrow> \<forall>c \<in> set l. \<not> is_nl c \<Longrightarrow> is_nl e \<Longrightarrow> l \<noteq> []
    \<Longrightarrow> next_line (u @ l @ e # r) = Some (l, r)"
  by (cases l) (simp_all add: next_line_def dropWhile_append2 takeWhile_append2)

function segs :: "string \<Rightarrow> (nat \<times> string) list" where
  "segs S = (case next_line S of None \<Rightarrow> [] | Some (l, r) \<Rightarrow> (length S - length r, l) # segs r)"
  by pat_completeness auto
termination by (relation "measure length") (auto elim!: next_line_SomeE)

declare segs.simps [simp del]

lemma sys_read_data:
  assumes "data_only rs" and "n \<noteq> 0"
  shows "(stream rs = [] \<and> sys_read n rs = Inl Blocked)
    \<or> (\<exists>c cs rs'. sys_read n rs = Inr (Some (c # cs), rs') \<and> c # cs @ stream rs' = stream rs \<and> data_only rs')"
  using assms
proof (induction n rs rule: sys_read.induct)
  case (4 n bs rs)
  then obtain c cs m where "take n bs = c # cs" by (cases bs; cases n) auto
  moreover have "take n bs @ drop n bs = bs" by (rule append_take_drop_id)
  ultimately show ?case using 4 by (auto simp flip: append_assoc append_Cons)
qed auto

text \<open>Without NUL bytes, the end of a line in the unread characters is the end of a line of the stream.\<close>

lemma cut_line_no_NUL:
  "NUL \<notin> set t \<Longrightarrow> cut_line t = (case dropWhile (\<lambda>c. \<not> is_nl c) t of
     [] \<Rightarrow> None | _ # r \<Rightarrow> Some (takeWhile (\<lambda>c. \<not> is_nl c) t, r))"
proof (induction t)
  case (Cons c t)
  show ?case
  proof (cases "is_nl c")
    case True
    with Cons.prems show ?thesis by (auto simp: cut_line_def is_stop_def)
  next
    case False
    with Cons.prems have "cut_line (c # t) = map_option (\<lambda>(l, r). (c # l, r)) (cut_line t)"
      by (cases "dropWhile (\<lambda>c. \<not> is_stop c) t") (auto simp: cut_line_def is_stop_def simp del: dropWhile_eq_Nil_conv)
    with Cons False show ?thesis
      by (cases "dropWhile (\<lambda>c. \<not> is_nl c) t") (simp_all del: dropWhile_eq_Nil_conv)
  qed
qed (simp add: cut_line_def)

lemma cut_line_next:
  assumes "NUL \<notin> set s"
  shows "cut_line (dropWhile is_nl s) = next_line s"
  unfolding next_line_def by (rule cut_line_no_NUL) (use assms in \<open>auto dest: set_dropWhileD\<close>)

lemma next_line_append:
  "next_line s = Some (l, r) \<Longrightarrow> next_line (s @ t) = Some (l, r @ t)"
  by (erule next_line_SomeE) (simp add: next_line_split)

lemma next_line_None:
  "next_line s = None \<Longrightarrow> (\<forall>c \<in> set (dropWhile is_nl s). \<not> is_nl c)"
  by (auto simp: next_line_def split: list.splits)

lemma next_line_skip: "next_line (dropWhile is_nl s @ t) = next_line (s @ t)"
proof -
  have "dropWhile is_nl (dropWhile is_nl s @ t) = dropWhile is_nl (s @ t)"
    by (induction s) auto
  then show ?thesis by (simp only: next_line_def)
qed

lemma next_line_skip_len:
  "next_line (s @ t) = Some (l, r) \<Longrightarrow> length r < length (dropWhile is_nl s @ t)"
  using next_line_less [of "dropWhile is_nl s @ t" l r] by (simp add: next_line_skip)

lemma abs_loop_line:
  "data_only rs \<Longrightarrow> NUL \<notin> set pend \<union> set (stream rs) \<Longrightarrow> \<forall>c \<in> set pend. \<not> is_nl c
    \<Longrightarrow> next_line (pend @ stream rs) = Some (l, r) \<Longrightarrow> off + (length (pend @ stream rs) - length r) \<le> cap
    \<Longrightarrow> \<exists>p' rs'. abs_loop cap off pend rs = Inr (Some l, p', rs') \<and> p' @ stream rs' = r \<and> data_only rs'"
proof (induction "script_size rs" arbitrary: off pend rs rule: less_induct)
  case less
  have "length r < length (stream rs)"
  proof (rule ccontr)
    assume "\<not> ?thesis"
    moreover obtain u e where e: "pend @ stream rs = (u @ l) @ e # r" "is_nl e"
      using less.prems(4) by (auto elim: next_line_SomeE)
    moreover from arg_cong [OF e(1), of length]
    have "length pend + length (stream rs) = length (u @ l) + Suc (length r)" by simp
    ultimately have lt: "length (u @ l) < length pend" by linarith
    have "(pend @ stream rs) ! length (u @ l) = e" by (simp only: e(1) nth_append_length)
    with lt have "e \<in> set pend" by (metis nth_append nth_mem)
    with less.prems(3) e(2) show False by blast
  qed
  with less.prems(5) have nofull: "off + length pend < cap" and ne: "stream rs \<noteq> []" by auto
  obtain c cs rs' where got: "sys_read (cap - (off + length pend)) rs = Inr (Some (c # cs), rs')"
      and st: "c # cs @ stream rs' = stream rs" and rs': "data_only rs'"
    using sys_read_data [OF less.prems(1), of "cap - (off + length pend)"] nofull ne by auto
  define s where "s = pend @ c # cs"
  have all: "s @ stream rs' = pend @ stream rs" by (simp add: s_def flip: st)
  have nul: "NUL \<notin> set s \<union> set (stream rs')" using less.prems(2) all by (metis set_append)
  note step = abs_chunk_step [OF got, folded s_def]
  show ?case
  proof (cases "next_line s")
    case (Some lr)
    then obtain l' r' where lr: "next_line s = Some (l', r')" by (cases lr) auto
    with less.prems(4) all have "l' = l" "r' @ stream rs' = r"
      using next_line_append [OF lr, of "stream rs'"] by simp_all
    with step nofull lr nul rs' show ?thesis by (simp add: cut_line_next)
  next
    case None
    have len: "length (takeWhile is_nl s) + length (dropWhile is_nl s) = length s"
      by (rule length_takeWhile_dropWhile)
    have bound: "off + length (takeWhile is_nl s) + (length (dropWhile is_nl s @ stream rs') - length r) \<le> cap"
      using less.prems(5) len next_line_skip_len [of s "stream rs'" l r] less.prems(4)
      by (simp add: all [symmetric] del: append_assoc)
    have "\<exists>p' rs''. abs_loop cap (off + length (takeWhile is_nl s)) (dropWhile is_nl s) rs' = Inr (Some l, p', rs'')
        \<and> p' @ stream rs'' = r \<and> data_only rs''"
      using sys_read_size [OF got] rs' nul next_line_None [OF None] less.prems(4) bound
      by (intro less.hyps) (auto simp: next_line_skip all dest: set_dropWhileD)
    with step nofull None nul show ?thesis by (simp add: cut_line_next)
  qed
qed

lemma abs_readline_line:
  assumes "data_only rs" and nul: "NUL \<notin> set pend \<union> set (stream rs)"
    and nl: "next_line (pend @ stream rs) = Some (l, r)" and fit: "length (pend @ stream rs) - length r \<le> cap"
  shows "\<exists>p' rs'. abs_readline cap pend rs = Inr (Some l, p', rs') \<and> p' @ stream rs' = r \<and> data_only rs'"
proof (cases "pend = []")
  case True
  with assms abs_loop_line [of rs "[]" l r 0 cap] show ?thesis by (simp add: abs_readline_def)
next
  case False
  then have hd: "hd pend \<noteq> NUL" using nul by (metis Un_iff hd_in_set)
  define s where "s = dropWhile is_nl pend"
  have s: "NUL \<notin> set s" using nul by (auto simp: s_def dest: set_dropWhileD)
  have cut: "cut_line s = next_line pend" using nul by (simp add: s_def cut_line_next)
  show ?thesis
  proof (cases "next_line pend")
    case (Some lr)
    then obtain l' r' where lr: "next_line pend = Some (l', r')" by (cases lr) auto
    with next_line_append [OF lr, of "stream rs"] nl assms(1) False hd cut show ?thesis
      by (simp add: abs_readline_def s_def)
  next
    case None
    have "length (s @ stream rs) - length r \<le> cap"
      using fit length_dropWhile_le [of is_nl pend] by (simp add: s_def)
    moreover have "\<forall>c \<in> set s. \<not> is_nl c" using next_line_None [OF None] by (simp add: s_def)
    moreover have "next_line (s @ stream rs) = Some (l, r)" using nl by (simp add: s_def next_line_skip)
    ultimately have "\<exists>p' rs'. abs_loop cap 0 s rs = Inr (Some l, p', rs') \<and> p' @ stream rs' = r \<and> data_only rs'"
      using assms(1) nul s by (intro abs_loop_line) auto
    with None False hd cut s show ?thesis by (simp add: abs_readline_def flip: s_def)
  qed
qed

text \<open>Reading \<open>n\<close> lines, as the reader thread does.\<close>

fun readlines :: "nat \<Rightarrow> nat \<Rightarrow> reader \<Rightarrow> read_ev list \<Rightarrow> string list outcome" where
  "readlines cap 0 r rs = Inr []"
| "readlines cap (Suc n) r rs = seqO (readline cap r rs) (\<lambda>(l, r', rs').
     case l of None \<Rightarrow> Inr [] | Some line \<Rightarrow> seqO (readlines cap n r' rs') (\<lambda>ls. Inr (line # ls)))"

definition clean :: "string \<Rightarrow> bool" where
  "clean S \<longleftrightarrow> NUL \<notin> set S \<and> CHR ''>'' \<notin> set S"

definition fits :: "nat \<Rightarrow> string \<Rightarrow> bool" where
  "fits cap S \<longleftrightarrow> list_all (\<lambda>(k, l). k \<le> cap) (segs S)"

lemma clean_no_prompt: "clean (stream rs) \<Longrightarrow> no_prompt rs"
  by (induction rs rule: stream.induct) (auto simp: clean_def no_prompt_def)

lemma readlines_lines:
  "cap \<noteq> 0 \<Longrightarrow> unread cap r pend \<Longrightarrow> data_only rs \<Longrightarrow> clean (pend @ stream rs) \<Longrightarrow> fits cap (pend @ stream rs)
    \<Longrightarrow> n \<le> length (segs (pend @ stream rs))
    \<Longrightarrow> readlines cap n r rs = Inr (map snd (take n (segs (pend @ stream rs))))"
proof (induction n arbitrary: r pend rs)
  case (Suc n)
  let ?S = "pend @ stream rs"
  obtain l rest where nl: "next_line ?S = Some (l, rest)"
    using Suc.prems(6) by (subst (asm) segs.simps) (auto split: option.splits)
  then have segs: "segs ?S = (length ?S - length rest, l) # segs rest" by (subst segs.simps) simp
  have fit: "length ?S - length rest \<le> cap" and fits: "fits cap rest"
    using Suc.prems(5) segs by (simp_all add: fits_def)
  have "NUL \<notin> set pend \<union> set (stream rs)" "CHR ''>'' \<notin> set pend" "no_prompt rs"
    using Suc.prems(4) clean_no_prompt [of rs] by (auto simp: clean_def)
  with abs_readline_line [OF Suc.prems(3) _ nl fit] readline_simulates [OF Suc.prems(1,2), of rs]
  obtain r' p' rs' where r': "readline cap r rs = Inr (Some l, r', rs')" "unread cap r' p'"
      "p' @ stream rs' = rest" "data_only rs'"
    by (fastforce simp: same_line_def)
  have "clean rest" using next_line_less [OF nl] Suc.prems(4) by (auto simp: clean_def)
  with Suc.IH [OF Suc.prems(1) r'(2,4)] r' fits Suc.prems(6) segs show ?case by simp
qed simp

text \<open>
  The lines the reader delivers depend only on the stream of bytes, not on how \<open>read\<close>
  splits it or how often it is interrupted: if every line of the stream, with the newlines
  before it, fits the buffer, and neither NUL nor \<open>>\<close> occurs, then the first \<open>n\<close> calls of
  \<open>readline\<close> return the first \<open>n\<close> lines of the stream, none lost, joined, split or empty.
\<close>

theorem readlines_stream:
  assumes "cap \<noteq> 0" and "data_only rs" and "clean (stream rs)" and "fits cap (stream rs)"
    and "n \<le> length (segs (stream rs))"
  shows "readlines cap n (reader_init cap) rs = Inr (map snd (take n (segs (stream rs))))"
  using readlines_lines [OF assms(1) unread_init assms(2), of n] assms by simp

theorem readlines_stream_witness:
  "readlines 16 2 (reader_init 16) [Bytes (''+CSQ'' @ [CR]), ReadEINTR, Bytes (LF # ''O''), Bytes (''K'' @ [CR])]
    = Inr [''+CSQ'', ''OK'']"
  using readlines_stream [of 16 "[Bytes (''+CSQ'' @ [CR]), ReadEINTR, Bytes (LF # ''O''), Bytes (''K'' @ [CR])]" 2]
  by (simp add: segs.simps next_line_def is_nl_def fits_def clean_def numeral_2_eq_2)

section \<open>The SMS prompt\<close>

text \<open>
  After the SMS prompt \<open>>\<close> blank has been read into an empty buffer, the cursor stands
  behind the NUL that ends it: whatever an earlier, longer read left in the array from cell 3
  on is taken for unread input and put before the next line of the modem. The comment of the
  source says that a NUL is found at the cursor or before it.
\<close>

theorem prompt_exposes_stale_bytes:
  assumes buf: "s_ATBuffer r = a # b # c # stale @ NUL # post" and len: "length (s_ATBuffer r) = Suc cap"
    and consumed: "buf_at (s_ATBuffer r) (s_ATBufferCur r) = Inr NUL"
  shows "\<exists>r'. readline cap r [Bytes ''> ''] = Inr (Some ''> '', r', []) \<and> unread cap r' stale"
proof -
  define b1 where "b1 = CHR ''>'' # CHR '' '' # NUL # stale @ NUL # post"
  have cap: "2 < cap" using buf len by simp
  have b1: "b1 ! 0 = CHR ''>''" "b1 ! Suc 0 = CHR '' ''" "b1 ! 2 = NUL" "length b1 = Suc cap"
      "b1[2 := NUL] = b1" "takeWhile (\<lambda>c. c \<noteq> NUL) b1 = ''> ''"
    using buf len by (simp_all add: b1_def numeral_2_eq_2)
  have "skip_newlines b1 0 = Inr 0"
    using b1 by (subst skip_newlines.simps) (simp add: is_nl_def)
  moreover have "findNextEOL b1 0 = Inr (Some 2)"
    using b1 cap by (simp add: findNextEOL_def at_prompt_def buf_at_def numeral_2_eq_2)
  moreover have "sys_read cap [Bytes ''> ''] = Inr (Some ''> '', [])" using cap by (simp add: Suc_le_eq)
  moreover have "(write_at (NUL # b # c # stale @ NUL # post) 0 ''> '')[2 := NUL] = b1"
    by (simp add: b1_def numeral_2_eq_2)
  ultimately have "readline_loop cap (r\<lparr>s_ATBuffer := NUL # b # c # stale @ NUL # post, s_ATBufferCur := 0\<rparr>) 0 [Bytes ''> '']
      = Inr (Some ''> '', r\<lparr>s_ATBuffer := b1, s_ATBufferCur := 3, s_readCount := s_readCount r + 2\<rparr>, [])"
    using cap b1 by (subst readline_loop.simps) (simp add: Let_def take_line_def cstr_at_def numeral_2_eq_2)
  moreover have "unread cap (r\<lparr>s_ATBuffer := b1, s_ATBufferCur := 3, s_readCount := s_readCount r + 2\<rparr>) stale"
    using b1(4) by (intro unreadI [of _ "[CHR ''>'', CHR '' '', NUL]" _ post]) (simp_all add: b1_def)
  ultimately show ?thesis using consumed by (simp add: readline_def buf)
qed

theorem prompt_exposes_stale_bytes_witness:
  "\<exists>r'. readline 9 \<lparr>s_ATBuffer = ''OK'' @ [NUL] @ ''ERROR'' @ [NUL, NUL], s_ATBufferCur = 2, s_readCount = 3\<rparr>
      [Bytes ''> ''] = Inr (Some ''> '', r', []) \<and> unread 9 r' ''ERROR''"
  by (rule prompt_exposes_stale_bytes [of _ "CHR ''O''" "CHR ''K''" NUL "''ERROR''" "[NUL]"])
    (simp_all add: buf_at_def)

text \<open>
  When the prompt ends in the last cell of the array, the cursor is left behind the array, and
  the next call of \<open>readline\<close> reads there.
\<close>

theorem prompt_leaves_buffer:
  "\<exists>r. readline 5 (reader_init 5) [Bytes (LF # LF # LF # ''> '')] = Inr (Some ''> '', r, []) \<and> readline 5 r [] = Inl Undef"
proof -
  have "case readline 5 (reader_init 5) [Bytes (LF # LF # LF # ''> '')] of Inl e \<Rightarrow> False
    | Inr (l, r, rs) \<Rightarrow> l = Some ''> '' \<and> rs = [] \<and> (case readline 5 r [] of Inl e \<Rightarrow> e = Undef | Inr x \<Rightarrow> False)" by code_simp
  then show ?thesis by (auto split: sum.splits)
qed

end
