(* ===== verification/At_Channel.thy ===== *)
theory At_Channel
  imports At_Reader
begin

text \<open>
  The AT channel of \<open>huawei_tgm/atchannel.c\<close>: the state shared by the command thread and the
  reader thread, \<open>processLine\<close> and the reader thread's loop, writing to the modem, and the
  \<open>at_send_command\<close> family with its wait on the condition variable.

  The command mutex makes the steps of the two threads atomic. While the command thread waits,
  it has given the mutex up; what happens then is a schedule of events: lines and SMS pairs the
  reader thread receives, the end of the reader thread, the close callback it runs afterwards,
  and the return of the wait itself (a wakeup, signalled or spurious, or the time-out). A
  schedule that is used up is a wait that does not end. The outcomes of \<open>write\<close> are a script
  too; behind its end \<open>write\<close> takes everything. The readings of \<open>gettimeofday\<close> are a script as
  well. The two callbacks, and whether the build has \<open>USE_NP\<close>, are parameters.
\<close>

section \<open>State\<close>

datatype wr_ev = Wrote nat | WriteEINTR | WriteError

datatype chan_ev =
    EvLine string | EvSms string string
  | EvReaderEnd | EvCloseCallback
  | EvWakeup | EvTimeout

text \<open>
  \<open>on_reader\<close> tells whether the reader thread executes the step;
  \<open>close_due\<close> holds between the two halves of \<open>onReaderClosed\<close>; \<open>wire\<close> collects the bytes
  written, \<open>unsol\<close> the calls of the unsolicited handler.
\<close>

record chan =
  s_fd :: int
  s_unsolHandler :: bool
  s_type :: ATCommandType
  s_responsePrefix :: "string option"
  s_smsPDU :: "string option"
  sp_response :: "ATResponse option"
  s_readerClosed :: bool
  on_reader :: bool
  close_due :: bool
  wire :: string
  wr_script :: "wr_ev list"
  unsol :: "(string \<times> string option) list"
  sched :: "chan_ev list"
  clock :: "(int \<times> int) list"

record 's at_env =
  USE_NP :: bool
  s_onTimeout :: "('s \<Rightarrow> 's outcome) option"
  s_onReaderClosed :: "('s \<Rightarrow> 's outcome) option"

definition at_set_on_timeout :: "('s \<Rightarrow> 's outcome) \<Rightarrow> 's at_env \<Rightarrow> 's at_env" where
  "at_set_on_timeout onTimeout env = env\<lparr>s_onTimeout := Some onTimeout\<rparr>"

definition at_set_on_reader_closed :: "('s \<Rightarrow> 's outcome) \<Rightarrow> 's at_env \<Rightarrow> 's at_env" where
  "at_set_on_reader_closed onClose env = env\<lparr>s_onReaderClosed := Some onClose\<rparr>"

definition TGM_TIMEOUT :: int where "TGM_TIMEOUT = 5000"
definition HANDSHAKE_RETRY_COUNT :: nat where "HANDSHAKE_RETRY_COUNT = 8"
definition HANDSHAKE_TIMEOUT_MSEC :: int where "HANDSHAKE_TIMEOUT_MSEC = 250"

section \<open>Writing\<close>

text \<open>
  The loop over \<open>write\<close>: whether all of \<open>s\<close> went out, and the bytes that did. An interrupted
  call is repeated, a partial write continues behind what was taken.
\<close>

fun wr_bytes :: "string \<Rightarrow> wr_ev list \<Rightarrow> bool \<times> string \<times> wr_ev list" where
  "wr_bytes [] ws = (True, [], ws)"
| "wr_bytes s [] = (True, s, [])"
| "wr_bytes s (WriteEINTR # ws) = wr_bytes s ws"
| "wr_bytes s (WriteError # ws) = (False, [], ws)"
| "wr_bytes s (Wrote n # ws) = (case wr_bytes (drop n s) ws of (ok, out, ws') \<Rightarrow> (ok, take n s @ out, ws'))"

definition put :: "string \<Rightarrow> 'z chan_scheme \<Rightarrow> bool \<times> 'z chan_scheme" where
  "put s ch = (case wr_bytes s (wr_script ch) of (ok, out, ws) \<Rightarrow> (ok, ch\<lparr>wire := wire ch @ out, wr_script := ws\<rparr>))"

definition writeline :: "string \<Rightarrow> 'z chan_scheme \<Rightarrow> int \<times> 'z chan_scheme" where
  "writeline s ch =
     (if s_fd ch < 0 \<or> s_readerClosed ch then (AT_ERROR_CHANNEL_CLOSED, ch)
      else case put s ch of (ok, ch1) \<Rightarrow>
        if \<not> ok then (AT_ERROR_GENERIC, ch1)
        else case put [CR] ch1 of (ok, ch2) \<Rightarrow> if \<not> ok then (AT_ERROR_GENERIC, ch2) else (0, ch2))"

definition writeCtrlZ :: "string \<Rightarrow> 'z chan_scheme \<Rightarrow> int \<times> 'z chan_scheme" where
  "writeCtrlZ s ch =
     (if s_fd ch < 0 \<or> s_readerClosed ch then (AT_ERROR_CHANNEL_CLOSED, ch)
      else case put s ch of (ok, ch1) \<Rightarrow>
        if \<not> ok then (AT_ERROR_GENERIC, ch1)
        else case put [CHR 0x1A] ch1 of (ok, ch2) \<Rightarrow> if \<not> ok then (AT_ERROR_GENERIC, ch2) else (0, ch2))"

section \<open>The reader thread\<close>

definition addIntermediate :: "string \<Rightarrow> 'z chan_scheme \<Rightarrow> 'z chan_scheme outcome" where
  "addIntermediate line ch = (case sp_response ch of None \<Rightarrow> Inl Undef
     | Some r \<Rightarrow> Inr (ch\<lparr>sp_response := Some (r\<lparr>p_intermediates := line # p_intermediates r\<rparr>)\<rparr>))"

definition handleFinalResponse :: "string \<Rightarrow> 'z chan_scheme \<Rightarrow> 'z chan_scheme outcome" where
  "handleFinalResponse line ch = (case sp_response ch of None \<Rightarrow> Inl Undef
     | Some r \<Rightarrow> Inr (ch\<lparr>sp_response := Some (r\<lparr>finalResponse := Some line\<rparr>)\<rparr>))"

definition handleUnsolicited :: "string \<Rightarrow> 'z chan_scheme \<Rightarrow> 'z chan_scheme" where
  "handleUnsolicited line ch = (if s_unsolHandler ch then ch\<lparr>unsol := unsol ch @ [(line, None)]\<rparr> else ch)"

text \<open>\<open>strStartsWith(line, s_responsePrefix)\<close>, which dereferences the prefix.\<close>

definition startsWith_prefix :: "string \<Rightarrow> 'z chan_scheme \<Rightarrow> bool outcome" where
  "startsWith_prefix line ch = (case s_responsePrefix ch of None \<Rightarrow> Inl Undef | Some p \<Rightarrow> Inr (strStartsWith line p))"

definition processLine :: "string \<Rightarrow> 'z chan_scheme \<Rightarrow> 'z chan_scheme outcome" where
  "processLine line ch = (case sp_response ch of
       None \<Rightarrow> Inr (handleUnsolicited line ch)
     | Some r \<Rightarrow>
         if isFinalResponseSuccess line then
           handleFinalResponse line (ch\<lparr>sp_response := Some (r\<lparr>success := 1\<rparr>)\<rparr>)
         else if isFinalResponseError line then
           handleFinalResponse line (ch\<lparr>sp_response := Some (r\<lparr>success := 0\<rparr>)\<rparr>)
         else (case (s_smsPDU ch, line = ''> '') of
             (Some pdu, True) \<Rightarrow> Inr ((snd (writeCtrlZ pdu ch))\<lparr>s_smsPDU := None\<rparr>)
           | _ \<Rightarrow> (case s_type ch of
               NO_RESULT \<Rightarrow> Inr (handleUnsolicited line ch)
             | NUMERIC \<Rightarrow>
                 if p_intermediates r = [] \<and> (case line of [] \<Rightarrow> False | c # _ \<Rightarrow> isdigit c)
                 then addIntermediate line ch else Inr (handleUnsolicited line ch)
             | SINGLELINE \<Rightarrow>
                 if p_intermediates r \<noteq> [] then Inr (handleUnsolicited line ch)
                 else seqO (startsWith_prefix line ch) (\<lambda>b.
                   if b then addIntermediate line ch else Inr (handleUnsolicited line ch))
             | MULTILINE \<Rightarrow>
                 seqO (startsWith_prefix line ch) (\<lambda>b.
                   if b then addIntermediate line ch else Inr (handleUnsolicited line ch)))))"

text \<open>\<open>onReaderClosed\<close>: set the flag under the mutex, then, without it, run the callback.\<close>

definition reader_closed_signal :: "('z chan_scheme) at_env \<Rightarrow> 'z chan_scheme \<Rightarrow> 'z chan_scheme" where
  "reader_closed_signal env ch =
     (if s_onReaderClosed env \<noteq> None \<and> \<not> s_readerClosed ch
      then ch\<lparr>s_readerClosed := True, close_due := True\<rparr> else ch)"

definition reader_closed_callback :: "('z chan_scheme) at_env \<Rightarrow> 'z chan_scheme \<Rightarrow> 'z chan_scheme outcome" where
  "reader_closed_callback env ch =
     (if close_due ch then (case s_onReaderClosed env of
          None \<Rightarrow> Inr ch
        | Some f \<Rightarrow> seqO (f (ch\<lparr>close_due := False, on_reader := True\<rparr>))
                       (\<lambda>ch'. Inr (ch'\<lparr>on_reader := on_reader ch\<rparr>)))
      else Inr ch)"

definition onReaderClosed :: "('z chan_scheme) at_env \<Rightarrow> 'z chan_scheme \<Rightarrow> 'z chan_scheme outcome" where
  "onReaderClosed env ch = reader_closed_callback env (reader_closed_signal env ch)"

definition sms_unsolicited :: "string \<Rightarrow> string \<Rightarrow> 'z chan_scheme \<Rightarrow> 'z chan_scheme" where
  "sms_unsolicited line1 line2 ch =
     (if s_unsolHandler ch then ch\<lparr>unsol := unsol ch @ [(line1, Some line2)]\<rparr> else ch)"

fun reader_event :: "('z chan_scheme) at_env \<Rightarrow> chan_ev \<Rightarrow> 'z chan_scheme \<Rightarrow> 'z chan_scheme outcome" where
  "reader_event env (EvLine line) ch = processLine line ch"
| "reader_event env (EvSms line1 line2) ch = Inr (sms_unsolicited line1 line2 ch)"
| "reader_event env EvReaderEnd ch = Inr (reader_closed_signal env ch)"
| "reader_event env EvCloseCallback ch = reader_closed_callback env ch"
| "reader_event env _ ch = Inr ch"

section \<open>Sending a command\<close>

definition clearPendingCommand :: "'z chan_scheme \<Rightarrow> 'z chan_scheme" where
  "clearPendingCommand ch = ch\<lparr>sp_response := None, s_responsePrefix := None, s_smsPDU := None\<rparr>"

text \<open>How long a wait lasts; an absolute time is a pair of seconds and nanoseconds.\<close>

datatype wait_kind = Forever | For_ms int | Until int int

definition gettimeofday :: "'z chan_scheme \<Rightarrow> (int \<times> int) \<times> 'z chan_scheme" where
  "gettimeofday ch = (case clock ch of [] \<Rightarrow> ((0, 0), ch) | t # ts \<Rightarrow> (t, ch\<lparr>clock := ts\<rparr>))"

definition setTimespecRelative :: "int \<Rightarrow> 'z chan_scheme \<Rightarrow> (int \<times> int) \<times> 'z chan_scheme" where
  "setTimespecRelative msec ch = (case gettimeofday ch of ((sec, usec), ch') \<Rightarrow>
     ((sec + msec div 1000, (usec + msec mod 1000 * 1000) * 1000), ch'))"

definition wait_for :: "('z chan_scheme) at_env \<Rightarrow> int \<Rightarrow> 'z chan_scheme \<Rightarrow> wait_kind \<times> 'z chan_scheme" where
  "wait_for env msec ch =
     (if msec = 0 then (Forever, ch)
      else if USE_NP env then (For_ms msec, ch)
      else case setTimespecRelative msec ch of ((sec, nsec), ch') \<Rightarrow> (Until sec nsec, ch'))"

text \<open>\<open>pthread_cond_timedwait\<close> refuses such a time with \<open>EINVAL\<close>, without giving up the mutex.\<close>

fun invalid_time :: "wait_kind \<Rightarrow> bool" where
  "invalid_time (Until sec nsec) = (nsec < 0 \<or> 1000000000 \<le> nsec)"
| "invalid_time _ = False"

text \<open>One wait: whether it timed out, and what is left of the schedule.\<close>

fun cond_wait :: "('z chan_scheme) at_env \<Rightarrow> wait_kind \<Rightarrow> chan_ev list \<Rightarrow> 'z chan_scheme
    \<Rightarrow> (bool \<times> chan_ev list \<times> 'z chan_scheme) outcome" where
  "cond_wait env w [] ch = Inl Blocked"
| "cond_wait env w (e # es) ch =
     (if e = EvWakeup then Inr (False, es, ch)
      else if e = EvTimeout \<and> w \<noteq> Forever then Inr (True, es, ch)
      else seqO (reader_event env e ch) (cond_wait env w es))"

lemma cond_wait_shorter: "cond_wait env w es ch = Inr (b, es', ch') \<Longrightarrow> length es' < length es"
  by (induction es arbitrary: ch) (fastforce split: if_splits simp: seqO_eq_Inr)+

text \<open>
  The loop around the wait. A wait that always fails with \<open>EINVAL\<close> spins with the mutex held.
\<close>

function wait_loop :: "('z chan_scheme) at_env \<Rightarrow> wait_kind \<Rightarrow> chan_ev list \<Rightarrow> 'z chan_scheme
    \<Rightarrow> (bool \<times> chan_ev list \<times> 'z chan_scheme) outcome" where
  "wait_loop env w es ch = (case sp_response ch of None \<Rightarrow> Inl Undef
     | Some r \<Rightarrow>
         if finalResponse r \<noteq> None \<or> s_readerClosed ch then Inr (False, es, ch)
         else if invalid_time w then Inl Blocked
         else seqO (cond_wait env w es ch) (\<lambda>(timed_out, es', ch').
                if timed_out then Inr (True, es', ch') else wait_loop env w es' ch'))"
  by pat_completeness auto
termination
  by (relation "measure (\<lambda>(env, w, es, ch). length es)") (auto dest: cond_wait_shorter)

declare wait_loop.simps [simp del]

definition at_send_command_full_nolock :: "('z chan_scheme) at_env \<Rightarrow> string \<Rightarrow> ATCommandType
    \<Rightarrow> string option \<Rightarrow> string option \<Rightarrow> int \<Rightarrow> bool \<Rightarrow> 'z chan_scheme
    \<Rightarrow> (int \<times> ATResponse option \<times> 'z chan_scheme) outcome" where
  "at_send_command_full_nolock env command type responsePrefix smspdu timeoutMsec want ch =
     (if sp_response ch \<noteq> None then Inr (AT_ERROR_COMMAND_PENDING, None, clearPendingCommand ch)
      else case writeline command ch of (err, ch1) \<Rightarrow>
        if err < 0 then Inr (err, None, clearPendingCommand ch1)
        else case wait_for env timeoutMsec (ch1\<lparr>s_type := type, s_responsePrefix := responsePrefix,
                    s_smsPDU := smspdu, sp_response := Some at_response_new\<rparr>) of (w, ch2) \<Rightarrow>
          seqO (wait_loop env w (sched ch2) ch2) (\<lambda>(timed_out, es, ch3).
            if timed_out then Inr (AT_ERROR_TIMEOUT, None, clearPendingCommand (ch3\<lparr>sched := es\<rparr>))
            else Inr (if s_readerClosed ch3 then AT_ERROR_CHANNEL_CLOSED else 0,
                      if want then map_option reverseIntermediates (sp_response ch3) else None,
                      clearPendingCommand (ch3\<lparr>sched := es, sp_response := None\<rparr>))))"

definition at_send_command_full :: "('z chan_scheme) at_env \<Rightarrow> string \<Rightarrow> ATCommandType
    \<Rightarrow> string option \<Rightarrow> string option \<Rightarrow> int \<Rightarrow> bool \<Rightarrow> 'z chan_scheme
    \<Rightarrow> (int \<times> ATResponse option \<times> 'z chan_scheme) outcome" where
  "at_send_command_full env command type responsePrefix smspdu timeoutMsec want ch =
     (if on_reader ch then Inr (AT_ERROR_INVALID_THREAD, None, ch)
      else seqO (at_send_command_full_nolock env command type responsePrefix smspdu timeoutMsec want ch)
        (\<lambda>(err, out, ch').
          if err = AT_ERROR_TIMEOUT then (case s_onTimeout env of
              None \<Rightarrow> Inr (err, out, ch')
            | Some f \<Rightarrow> seqO (f ch') (\<lambda>ch''. Inr (err, out, ch'')))
          else Inr (err, out, ch')))"

text \<open>The check shared by the commands that need an intermediate response.\<close>

definition need_intermediate :: "bool \<Rightarrow> int \<times> ATResponse option \<times> 's \<Rightarrow> (int \<times> ATResponse option \<times> 's) outcome" where
  "need_intermediate want res = (case res of (err, out, ch) \<Rightarrow>
     if err = 0 \<and> want then (case out of None \<Rightarrow> Inl Undef
       | Some r \<Rightarrow> if success r > 0 \<and> p_intermediates r = [] then Inr (AT_ERROR_INVALID_RESPONSE, None, ch) else Inr res)
     else Inr res)"

definition at_send_command :: "('z chan_scheme) at_env \<Rightarrow> string \<Rightarrow> bool \<Rightarrow> 'z chan_scheme
    \<Rightarrow> (int \<times> ATResponse option \<times> 'z chan_scheme) outcome" where
  "at_send_command env command want ch = at_send_command_full env command NO_RESULT None None TGM_TIMEOUT want ch"

definition at_send_command_singleline :: "('z chan_scheme) at_env \<Rightarrow> string \<Rightarrow> string \<Rightarrow> bool \<Rightarrow> 'z chan_scheme
    \<Rightarrow> (int \<times> ATResponse option \<times> 'z chan_scheme) outcome" where
  "at_send_command_singleline env command responsePrefix want ch =
     seqO (at_send_command_full env command SINGLELINE (Some responsePrefix) None TGM_TIMEOUT want ch)
       (need_intermediate want)"

definition at_send_command_numeric :: "('z chan_scheme) at_env \<Rightarrow> string \<Rightarrow> bool \<Rightarrow> 'z chan_scheme
    \<Rightarrow> (int \<times> ATResponse option \<times> 'z chan_scheme) outcome" where
  "at_send_command_numeric env command want ch =
     seqO (at_send_command_full env command NUMERIC None None TGM_TIMEOUT want ch) (need_intermediate want)"

definition at_send_command_sms :: "('z chan_scheme) at_env \<Rightarrow> string \<Rightarrow> string \<Rightarrow> string \<Rightarrow> bool \<Rightarrow> 'z chan_scheme
    \<Rightarrow> (int \<times> ATResponse option \<times> 'z chan_scheme) outcome" where
  "at_send_command_sms env command pdu responsePrefix want ch =
     seqO (at_send_command_full env command SINGLELINE (Some responsePrefix) (Some pdu) TGM_TIMEOUT want ch)
       (need_intermediate want)"

definition at_send_command_multiline :: "('z chan_scheme) at_env \<Rightarrow> string \<Rightarrow> string \<Rightarrow> bool \<Rightarrow> 'z chan_scheme
    \<Rightarrow> (int \<times> ATResponse option \<times> 'z chan_scheme) outcome" where
  "at_send_command_multiline env command responsePrefix want ch =
     at_send_command_full env command MULTILINE (Some responsePrefix) None TGM_TIMEOUT want ch"

section \<open>Opening, closing and the handshake\<close>

text \<open>\<open>created\<close> is what \<open>pthread_create\<close> returns; an error of it is positive.\<close>

definition at_open :: "int \<Rightarrow> bool \<Rightarrow> int \<Rightarrow> 'z chan_scheme \<Rightarrow> int \<times> 'z chan_scheme" where
  "at_open fd h created ch =
     (if created < 0 then -1 else 0,
      ch\<lparr>s_fd := fd, s_unsolHandler := h, s_readerClosed := False,
         s_responsePrefix := None, s_smsPDU := None, sp_response := None\<rparr>)"

definition at_close :: "'z chan_scheme \<Rightarrow> 'z chan_scheme" where
  "at_close ch = ch\<lparr>s_fd := -1, s_readerClosed := True\<rparr>"

fun handshake_loop :: "('z chan_scheme) at_env \<Rightarrow> nat \<Rightarrow> int \<Rightarrow> 'z chan_scheme \<Rightarrow> (int \<times> 'z chan_scheme) outcome" where
  "handshake_loop env 0 err ch = Inr (err, ch)"
| "handshake_loop env (Suc n) err ch =
     seqO (at_send_command_full_nolock env ''ATZ'' NO_RESULT None None HANDSHAKE_TIMEOUT_MSEC False ch) (\<lambda>(e1, _, ch1).
     seqO (at_send_command_full_nolock env ''ATE0Q0V1'' NO_RESULT None None HANDSHAKE_TIMEOUT_MSEC False ch1) (\<lambda>(e2, _, ch2).
       if err + e1 + e2 = 0 then Inr (0, ch2) else handshake_loop env n (err + e1 + e2) ch2))"

definition at_handshake :: "('z chan_scheme) at_env \<Rightarrow> 'z chan_scheme \<Rightarrow> (int \<times> 'z chan_scheme) outcome" where
  "at_handshake env ch =
     (if on_reader ch then Inr (AT_ERROR_INVALID_THREAD, ch)
      else handshake_loop env HANDSHAKE_RETRY_COUNT 0 ch)"

section \<open>What a pending command collects\<close>

text \<open>A line an exchange of the given type takes as an intermediate response.\<close>

definition matches :: "ATCommandType \<Rightarrow> string option \<Rightarrow> string \<Rightarrow> bool" where
  "matches type pfx line = (case type of
       NO_RESULT \<Rightarrow> False
     | NUMERIC \<Rightarrow> (case line of [] \<Rightarrow> False | c # _ \<Rightarrow> isdigit c)
     | _ \<Rightarrow> (case pfx of None \<Rightarrow> False | Some p \<Rightarrow> Sublist.prefix p line))"

definition answer_ok :: "ATCommandType \<Rightarrow> string option \<Rightarrow> ATResponse \<Rightarrow> bool" where
  "answer_ok type pfx r \<longleftrightarrow>
     (\<forall>l \<in> set (p_intermediates r). matches type pfx l \<and> \<not> isFinalResponse l) \<and>
     (type \<noteq> MULTILINE \<longrightarrow> length (p_intermediates r) \<le> 1) \<and>
     (case finalResponse r of None \<Rightarrow> success r = 0
        | Some f \<Rightarrow> isFinalResponse f \<and> success r = (if isFinalResponseSuccess f then 1 else 0))"

definition prefix_given :: "ATCommandType \<Rightarrow> string option \<Rightarrow> bool" where
  "prefix_given type pfx \<longleftrightarrow> (type = SINGLELINE \<or> type = MULTILINE \<longrightarrow> pfx \<noteq> None)"

text \<open>The invariant of a wait: the command is the one that was sent.\<close>

definition pending_inv :: "ATCommandType \<Rightarrow> string option \<Rightarrow> 'z chan_scheme \<Rightarrow> bool" where
  "pending_inv type pfx ch \<longleftrightarrow> s_type ch = type \<and> s_responsePrefix ch = pfx \<and>
     (\<exists>r. sp_response ch = Some r \<and> answer_ok type pfx r)"

definition idle :: "'z chan_scheme \<Rightarrow> bool" where
  "idle ch \<longleftrightarrow> sp_response ch = None \<and> s_responsePrefix ch = None \<and> s_smsPDU ch = None"

text \<open>A callback may run on the reader thread when it leaves the pending command alone.\<close>

definition keeps_command :: "('z chan_scheme \<Rightarrow> 'z chan_scheme outcome) \<Rightarrow> bool" where
  "keeps_command f \<longleftrightarrow> (\<forall>ch. goodO (\<lambda>ch'. s_type ch' = s_type ch \<and> s_responsePrefix ch' = s_responsePrefix ch
       \<and> s_smsPDU ch' = s_smsPDU ch \<and> sp_response ch' = sp_response ch) (f ch))"

definition hooks_ok :: "('z chan_scheme) at_env \<Rightarrow> bool" where
  "hooks_ok env \<longleftrightarrow> (\<forall>f. s_onReaderClosed env = Some f \<longrightarrow> keeps_command f)"

lemma put_keeps [keeps]:
  assumes "put s ch = (ok, ch')"
  shows "s_fd ch' = s_fd ch" "s_type ch' = s_type ch" "s_responsePrefix ch' = s_responsePrefix ch"
    "s_smsPDU ch' = s_smsPDU ch" "sp_response ch' = sp_response ch" "s_readerClosed ch' = s_readerClosed ch"
    "unsol ch' = unsol ch" "sched ch' = sched ch" "s_unsolHandler ch' = s_unsolHandler ch" "clock ch' = clock ch"
    "on_reader ch' = on_reader ch" "close_due ch' = close_due ch"
  using assms by (auto simp: put_def split: prod.splits)

lemma writeline_keeps [keeps]:
  assumes "writeline s ch = (e, ch')"
  shows "s_fd ch' = s_fd ch" "s_type ch' = s_type ch" "s_responsePrefix ch' = s_responsePrefix ch"
    "s_smsPDU ch' = s_smsPDU ch" "sp_response ch' = sp_response ch" "s_readerClosed ch' = s_readerClosed ch"
    "unsol ch' = unsol ch" "sched ch' = sched ch" "s_unsolHandler ch' = s_unsolHandler ch" "clock ch' = clock ch"
    "on_reader ch' = on_reader ch" "close_due ch' = close_due ch"
  using assms by (auto simp: writeline_def keeps split: if_splits prod.splits)

lemma writeCtrlZ_keeps [keeps]:
  assumes "writeCtrlZ s ch = (e, ch')"
  shows "s_fd ch' = s_fd ch" "s_type ch' = s_type ch" "s_responsePrefix ch' = s_responsePrefix ch"
    "s_smsPDU ch' = s_smsPDU ch" "sp_response ch' = sp_response ch" "s_readerClosed ch' = s_readerClosed ch"
    "unsol ch' = unsol ch" "sched ch' = sched ch" "s_unsolHandler ch' = s_unsolHandler ch" "clock ch' = clock ch"
    "on_reader ch' = on_reader ch" "close_due ch' = close_due ch"
  using assms by (auto simp: writeCtrlZ_def keeps split: if_splits prod.splits)

lemma snd_writeCtrlZ [simp]:
  "s_type (snd (writeCtrlZ s ch)) = s_type ch" "s_responsePrefix (snd (writeCtrlZ s ch)) = s_responsePrefix ch"
  "sp_response (snd (writeCtrlZ s ch)) = sp_response ch" "unsol (snd (writeCtrlZ s ch)) = unsol ch"
  "s_readerClosed (snd (writeCtrlZ s ch)) = s_readerClosed ch" "s_unsolHandler (snd (writeCtrlZ s ch)) = s_unsolHandler ch"
  by (cases "writeCtrlZ s ch"; simp add: keeps)+

lemma handleUnsolicited_keeps [simp]:
  "s_type (handleUnsolicited l ch) = s_type ch" "s_responsePrefix (handleUnsolicited l ch) = s_responsePrefix ch"
  "s_smsPDU (handleUnsolicited l ch) = s_smsPDU ch" "sp_response (handleUnsolicited l ch) = sp_response ch"
  "s_readerClosed (handleUnsolicited l ch) = s_readerClosed ch" "s_unsolHandler (handleUnsolicited l ch) = s_unsolHandler ch"
  by (simp_all add: handleUnsolicited_def)

lemma pending_inv_cong:
  "s_type ch' = s_type ch \<Longrightarrow> s_responsePrefix ch' = s_responsePrefix ch \<Longrightarrow> sp_response ch' = sp_response ch
    \<Longrightarrow> pending_inv type pfx ch \<Longrightarrow> pending_inv type pfx ch'"
  by (simp add: pending_inv_def)

text \<open>While a command is pending, a line does exactly one of four things.\<close>

lemma processLine_pending:
  assumes "sp_response ch = Some r" "prefix_given (s_type ch) (s_responsePrefix ch)"
  shows "processLine line ch =
    (if isFinalResponse line
     then Inr (ch\<lparr>sp_response := Some (r\<lparr>success := if isFinalResponseSuccess line then 1 else 0, finalResponse := Some line\<rparr>)\<rparr>)
     else if s_smsPDU ch \<noteq> None \<and> line = ''> '' then Inr ((snd (writeCtrlZ (the (s_smsPDU ch)) ch))\<lparr>s_smsPDU := None\<rparr>)
     else if matches (s_type ch) (s_responsePrefix ch) line \<and> (s_type ch = MULTILINE \<or> p_intermediates r = [])
     then Inr (ch\<lparr>sp_response := Some (r\<lparr>p_intermediates := line # p_intermediates r\<rparr>)\<rparr>)
     else Inr (handleUnsolicited line ch))"
  using assms success_not_error[of line]
  by (auto simp: processLine_def isFinalResponse_def handleFinalResponse_def matches_def prefix_given_def
      addIntermediate_def startsWith_prefix_def strStartsWith_iff split: option.splits ATCommandType.splits list.splits)

lemma processLine_good [inv_intro]:
  assumes "pending_inv type pfx ch" "prefix_given type pfx"
  shows "goodO (pending_inv type pfx) (processLine line ch)"
proof -
  from assms obtain r where r: "sp_response ch = Some r" "answer_ok type pfx r" "s_type ch = type" "s_responsePrefix ch = pfx"
    by (auto simp: pending_inv_def)
  with assms(2) show ?thesis
    by (auto simp: processLine_pending pending_inv_def answer_ok_def split: option.splits)
qed

lemma reader_event_good [inv_intro]:
  assumes "pending_inv type pfx ch" "prefix_given type pfx" "hooks_ok env"
  shows "goodO (pending_inv type pfx) (reader_event env e ch)"
proof (cases e)
  case (EvLine line)
  then show ?thesis using assms processLine_good by simp
next
  case EvCloseCallback
  show ?thesis
  proof (cases "s_onReaderClosed env")
    case (Some f)
    with assms have k: "keeps_command f" by (auto simp: hooks_ok_def)
    have "goodO (pending_inv type pfx) (f (ch\<lparr>close_due := False, on_reader := True\<rparr>))"
      by (rule goodO_mono, rule k[unfolded keeps_command_def, rule_format])
        (use assms(1) in \<open>auto simp: pending_inv_def\<close>)
    with Some EvCloseCallback assms show ?thesis
      by (auto simp: reader_closed_callback_def pending_inv_def intro!: goodO_seqO[where P = "pending_inv type pfx"])
  qed (use EvCloseCallback assms in \<open>simp add: reader_closed_callback_def\<close>)
qed (use assms in \<open>auto simp: sms_unsolicited_def reader_closed_signal_def pending_inv_def\<close>)

lemma cond_wait_good:
  "pending_inv type pfx ch \<Longrightarrow> prefix_given type pfx \<Longrightarrow> hooks_ok env
    \<Longrightarrow> goodO (\<lambda>(b, es', ch'). pending_inv type pfx ch') (cond_wait env w es ch)"
  by (induction es arbitrary: ch) (auto intro: goodO_seqO[OF reader_event_good])

lemma wait_loop_good:
  "pending_inv type pfx ch \<Longrightarrow> prefix_given type pfx \<Longrightarrow> hooks_ok env
    \<Longrightarrow> goodO (\<lambda>(b, es', ch'). pending_inv type pfx ch' \<and>
          (\<not> b \<longrightarrow> s_readerClosed ch' \<or> finalResponse (the (sp_response ch')) \<noteq> None)) (wait_loop env w es ch)"
proof (induction env w es ch rule: wait_loop.induct)
  case (1 env w es ch)
  then obtain r where r: "sp_response ch = Some r" by (auto simp: pending_inv_def)
  show ?case
  proof (cases "finalResponse r \<noteq> None \<or> s_readerClosed ch \<or> invalid_time w")
    case True
    with r 1 show ?thesis by (subst wait_loop.simps) auto
  next
    case False
    have step: "goodO (\<lambda>(b, es', ch'). pending_inv type pfx ch' \<and>
          (\<not> b \<longrightarrow> s_readerClosed ch' \<or> finalResponse (the (sp_response ch')) \<noteq> None)) (wait_loop env w es' ch')"
      if "cond_wait env w es ch = Inr (False, es', ch')" "pending_inv type pfx ch'" for es' ch'
      using 1(1)[OF r _ _ that(1) refl] False that 1(3,4) by auto
    have cw: "goodO (\<lambda>(b, es', ch'). pending_inv type pfx ch') (cond_wait env w es ch)"
      using cond_wait_good 1 by blast
    from False r show ?thesis
      by (subst wait_loop.simps) (use cw step in \<open>cases "cond_wait env w es ch"; auto\<close>)
  qed
qed

section \<open>The contract of sending\<close>

text \<open>What a client may rely on after a command: the channel is idle, and a success carries an answer.\<close>

definition send_post :: "ATCommandType \<Rightarrow> string option \<Rightarrow> bool \<Rightarrow> int \<times> ATResponse option \<times> 'z chan_scheme \<Rightarrow> bool" where
  "send_post type pfx want res = (case res of (err, out, ch) \<Rightarrow> idle ch \<and> err \<le> 0 \<and> (\<not> want \<longrightarrow> out = None) \<and>
     (err = 0 \<and> want \<longrightarrow> (\<exists>r. out = Some r \<and> answer_ok type pfx r \<and> finalResponse r \<noteq> None)))"

lemma idle_clear [simp]: "idle (clearPendingCommand ch)"
  by (simp add: idle_def clearPendingCommand_def)

lemma reverse_loop_set: "set (reverse_loop xs ys) = set xs \<union> set ys"
  by (induction xs ys rule: reverse_loop.induct) auto

lemma reverse_loop_length: "length (reverse_loop xs ys) = length xs + length ys"
  by (induction xs ys rule: reverse_loop.induct) auto

lemma answer_ok_reverse [simp]: "answer_ok type pfx (reverseIntermediates r) = answer_ok type pfx r"
  by (cases r; cases "finalResponse r") (auto simp: answer_ok_def reverseIntermediates_def reverse_loop_set reverse_loop_length)

lemma finalResponse_reverse [simp]: "finalResponse (reverseIntermediates r) = finalResponse r"
  by (simp add: reverseIntermediates_def)

lemma answer_ok_new [simp]: "answer_ok type pfx at_response_new"
  by (simp add: answer_ok_def at_response_new_def)

lemma wait_for_keeps [keeps]:
  assumes "wait_for env ms ch = (w, ch')"
  shows "s_type ch' = s_type ch" "s_responsePrefix ch' = s_responsePrefix ch" "s_smsPDU ch' = s_smsPDU ch"
    "sp_response ch' = sp_response ch" "s_readerClosed ch' = s_readerClosed ch" "unsol ch' = unsol ch"
    "sched ch' = sched ch" "wire ch' = wire ch" "s_fd ch' = s_fd ch" "s_unsolHandler ch' = s_unsolHandler ch"
  using assms by (auto simp: wait_for_def setTimespecRelative_def gettimeofday_def split: if_splits list.splits)

lemma writeline_code: "writeline s ch = (e, ch') \<Longrightarrow> e = 0 \<or> e < 0"
  by (auto simp: writeline_def AT_ERROR_GENERIC_def AT_ERROR_CHANNEL_CLOSED_def split: if_splits prod.splits)

lemma nolock_good [inv_intro]:
  assumes "sp_response ch = None" "prefix_given type pfx" "hooks_ok env"
  shows "goodO (send_post type pfx want) (at_send_command_full_nolock env command type pfx pdu ms want ch)"
proof -
  obtain e1 ch1 where w: "writeline command ch = (e1, ch1)" by fastforce
  show ?thesis
  proof (cases "e1 < 0")
    case True
    with w assms show ?thesis by (simp add: at_send_command_full_nolock_def send_post_def)
  next
    case False
    define begun where "begun = ch1\<lparr>s_type := type, s_responsePrefix := pfx, s_smsPDU := pdu, sp_response := Some at_response_new\<rparr>"
    obtain wk ch2 where f: "wait_for env ms begun = (wk, ch2)" by fastforce
    have "pending_inv type pfx ch2"
      by (simp add: wait_for_keeps[OF f] pending_inv_def begun_def)
    note loop = wait_loop_good[OF this assms(2,3), of wk "sched ch2"]
    show ?thesis
      using w False f assms(1) unfolding at_send_command_full_nolock_def
      by (simp flip: begun_def)
        (rule goodO_seqO[OF loop], auto simp: send_post_def pending_inv_def AT_ERROR_TIMEOUT_def AT_ERROR_CHANNEL_CLOSED_def)
  qed
qed

text \<open>The hooks a client may install: the time-out callback runs on an idle channel.\<close>

definition env_ok :: "('z chan_scheme) at_env \<Rightarrow> bool" where
  "env_ok env \<longleftrightarrow> hooks_ok env \<and> (\<forall>f. s_onTimeout env = Some f \<longrightarrow> (\<forall>ch. idle ch \<longrightarrow> goodO idle (f ch)))"

text \<open>
  The interface of the channel to the requests above it: from an idle channel a command is not
  undefined behaviour and leaves an idle channel, with an answer of its type on success; a query
  promises an intermediate line when the modem reports success.
\<close>

locale at_sender =
  fixes send :: "('z chan_scheme) at_env \<Rightarrow> 'z chan_scheme \<Rightarrow> (int \<times> ATResponse option \<times> 'z chan_scheme) outcome"
    and type :: ATCommandType and pfx :: "string option" and want :: bool
  assumes sends: "env_ok env \<Longrightarrow> idle ch \<Longrightarrow> goodO (send_post type pfx want) (send env ch)"
begin

lemma sends_idle: "env_ok env \<Longrightarrow> idle ch \<Longrightarrow> goodO (\<lambda>(err, out, ch'). idle ch') (send env ch)"
  by (rule goodO_mono, rule sends) (auto simp: send_post_def)

lemma not_undef: "env_ok env \<Longrightarrow> idle ch \<Longrightarrow> send env ch \<noteq> Inl Undef"
  using sends[of env ch] by auto

lemma idle_after: "env_ok env \<Longrightarrow> idle ch \<Longrightarrow> send env ch = Inr (e, out, ch') \<Longrightarrow> idle ch'"
  using sends[of env ch] by (auto simp: send_post_def)

lemma answered:
  assumes "env_ok env" "idle ch" "send env ch = Inr (0, out, ch')" "want"
  shows "\<exists>r. out = Some r \<and> answer_ok type pfx r \<and> finalResponse r \<noteq> None"
  using sends[OF assms(1,2)] assms(3,4) by (auto simp: send_post_def)

lemma no_answer_unless_wanted:
  "env_ok env \<Longrightarrow> idle ch \<Longrightarrow> send env ch = Inr (e, out, ch') \<Longrightarrow> \<not> want \<Longrightarrow> out = None"
  using sends[of env ch] by (auto simp: send_post_def)

end

locale at_query = at_sender +
  assumes needs: "env_ok env \<Longrightarrow> idle ch \<Longrightarrow> send env ch = Inr (0, Some r, ch') \<Longrightarrow> success r > 0 \<Longrightarrow> p_intermediates r \<noteq> []"
    and single: "type \<noteq> MULTILINE"
begin

lemma one_line:
  assumes "env_ok env" "idle ch" "send env ch = Inr (0, out, ch')" "want"
  shows "\<exists>r. out = Some r \<and> (success r > 0 \<longrightarrow> (\<exists>l. p_intermediates r = [l] \<and> matches type pfx l))"
proof -
  obtain r where r: "out = Some r" "answer_ok type pfx r" using answered[OF assms] by auto
  moreover have "length (p_intermediates r) \<le> 1" using r single by (simp add: answer_ok_def)
  moreover have "success r > 0 \<Longrightarrow> p_intermediates r \<noteq> []" using needs[OF assms(1,2)] assms(3) r by simp
  ultimately show ?thesis by (cases "p_intermediates r") (auto simp: answer_ok_def)
qed

lemma sends_query:
  assumes "env_ok env" "idle ch" "want"
  shows "goodO (\<lambda>(err, out, ch'). idle ch' \<and> err \<le> 0 \<and> (err = 0 \<longrightarrow> (\<exists>r. out = Some r \<and>
    (success r = 0 \<or> success r = 1 \<and> (\<exists>l. p_intermediates r = [l] \<and> matches type pfx l))))) (send env ch)"
proof -
  have "success r = 0 \<or> success r = 1 \<and> (\<exists>l. p_intermediates r = [l] \<and> matches type pfx l)"
    if "send env ch = Inr (0, Some r, ch')" for r ch'
    using one_line[OF assms(1,2) that assms(3)] answered[OF assms(1,2) that assms(3)]
    by (auto simp: answer_ok_def split: option.splits if_splits)
  with sends[OF assms(1,2)] assms(3) show ?thesis
    by (cases "send env ch") (auto simp: send_post_def)
qed

end

lemma full_good [inv_intro]:
  assumes "env_ok env" "idle ch" "prefix_given type pfx"
  shows "goodO (send_post type pfx want) (at_send_command_full env command type pfx pdu ms want ch)"
proof (cases "on_reader ch")
  case True
  with assms show ?thesis by (simp add: at_send_command_full_def send_post_def AT_ERROR_INVALID_THREAD_def)
next
  case False
  have hook: "goodO idle (f ch')" if "s_onTimeout env = Some f" "idle ch'" for f ch'
    using assms(1) that by (auto simp: env_ok_def)
  have n: "goodO (send_post type pfx want) (at_send_command_full_nolock env command type pfx pdu ms want ch)"
    using assms by (auto intro: nolock_good simp: env_ok_def idle_def)
  show ?thesis
    unfolding at_send_command_full_def using False
    by (auto intro!: goodO_seqO[OF n] goodO_seqO[OF hook] simp: send_post_def AT_ERROR_TIMEOUT_def split: option.splits)
qed

lemma need_intermediate_good:
  "send_post type pfx want res \<Longrightarrow> goodO (send_post type pfx want) (need_intermediate want res)"
  by (auto simp: need_intermediate_def send_post_def AT_ERROR_INVALID_RESPONSE_def split: prod.splits option.splits)

lemma need_intermediate_nonempty:
  "need_intermediate True res = Inr (0, Some r, ch') \<Longrightarrow> success r > 0 \<Longrightarrow> p_intermediates r \<noteq> []"
  by (auto simp: need_intermediate_def AT_ERROR_INVALID_RESPONSE_def split: prod.splits option.splits if_splits)

interpretation plain: at_sender "\<lambda>env. at_send_command env cmd want" NO_RESULT None want for cmd want
  by unfold_locales (simp add: at_send_command_def full_good prefix_given_def)

interpretation multiline: at_sender "\<lambda>env. at_send_command_multiline env cmd p want" MULTILINE "Some p" want for cmd p want
  by unfold_locales (simp add: at_send_command_multiline_def full_good prefix_given_def)

interpretation singleline: at_query "\<lambda>env. at_send_command_singleline env cmd p True" SINGLELINE "Some p" True for cmd p
  by unfold_locales (auto simp: at_send_command_singleline_def prefix_given_def seqO_eq_Inr
      intro!: goodO_seqO[OF full_good] need_intermediate_good dest: need_intermediate_nonempty)

interpretation numeric: at_query "\<lambda>env. at_send_command_numeric env cmd True" NUMERIC None True for cmd
  by unfold_locales (auto simp: at_send_command_numeric_def prefix_given_def seqO_eq_Inr
      intro!: goodO_seqO[OF full_good] need_intermediate_good dest: need_intermediate_nonempty)

interpretation sms: at_query "\<lambda>env. at_send_command_sms env cmd pdu p True" SINGLELINE "Some p" True for cmd pdu p
  by unfold_locales (auto simp: at_send_command_sms_def prefix_given_def seqO_eq_Inr
      intro!: goodO_seqO[OF full_good] need_intermediate_good dest: need_intermediate_nonempty)

section \<open>An exchange, exactly\<close>

text \<open>What the reader calls the unsolicited handler with while nothing is pending.\<close>

fun calls_of :: "chan_ev list \<Rightarrow> (string \<times> string option) list" where
  "calls_of [] = []"
| "calls_of (EvLine l # es) = (l, None) # calls_of es"
| "calls_of (EvSms a b # es) = (a, Some b) # calls_of es"
| "calls_of (_ # es) = calls_of es"

definition lines_of :: "chan_ev list \<Rightarrow> string list" where
  "lines_of es = [l. (l, None) \<leftarrow> calls_of es]"

text \<open>The lines an exchange takes, and the calls of the handler that are left.\<close>

definition taken :: "ATCommandType \<Rightarrow> string option \<Rightarrow> chan_ev list \<Rightarrow> string list" where
  "taken type pfx es = (let ms = filter (matches type pfx) (lines_of es) in if type = MULTILINE then ms else take 1 ms)"

definition leftover :: "ATCommandType \<Rightarrow> string option \<Rightarrow> chan_ev list \<Rightarrow> (string \<times> string option) list" where
  "leftover type pfx es =
     (if type = MULTILINE then [(l, pdu) \<leftarrow> calls_of es. \<not> (pdu = None \<and> matches type pfx l)]
      else fold (\<lambda>l cs. remove1 (l, None) cs) (taken type pfx es) (calls_of es))"

text \<open>Nothing in \<open>es\<close> ends the wait.\<close>

definition quiet :: "chan_ev list \<Rightarrow> bool" where
  "quiet es \<longleftrightarrow> (\<forall>e \<in> set es. case e of EvLine l \<Rightarrow> \<not> isFinalResponse l | EvSms _ _ \<Rightarrow> True | EvWakeup \<Rightarrow> True | _ \<Rightarrow> False)"

text \<open>Both at once, line by line; \<open>got\<close> holds once an intermediate response is there.\<close>

fun absorb :: "ATCommandType \<Rightarrow> string option \<Rightarrow> bool \<Rightarrow> chan_ev list \<Rightarrow> string list \<times> (string \<times> string option) list" where
  "absorb type pfx got [] = ([], [])"
| "absorb type pfx got (EvLine l # es) =
     (if matches type pfx l \<and> (type = MULTILINE \<or> \<not> got)
      then (case absorb type pfx True es of (t, u) \<Rightarrow> (l # t, u))
      else (case absorb type pfx got es of (t, u) \<Rightarrow> (t, (l, None) # u)))"
| "absorb type pfx got (EvSms a b # es) = (case absorb type pfx got es of (t, u) \<Rightarrow> (t, (a, Some b) # u))"
| "absorb type pfx got (_ # es) = absorb type pfx got es"

lemma lines_of_simps [simp]:
  "lines_of [] = []" "lines_of (EvLine l # es) = l # lines_of es" "lines_of (EvSms a b # es) = lines_of es"
  "lines_of (EvWakeup # es) = lines_of es" "lines_of (EvTimeout # es) = lines_of es"
  "lines_of (EvReaderEnd # es) = lines_of es" "lines_of (EvCloseCallback # es) = lines_of es"
  by (simp_all add: lines_of_def)

lemma absorb_done: "type \<noteq> MULTILINE \<Longrightarrow> absorb type pfx True es = ([], calls_of es)"
  by (induction es rule: calls_of.induct) auto

lemma absorb_multiline: "absorb MULTILINE pfx got es = (taken MULTILINE pfx es, leftover MULTILINE pfx es)"
  by (induction es arbitrary: got rule: calls_of.induct) (auto simp: taken_def leftover_def)

lemma absorb_single: "type \<noteq> MULTILINE \<Longrightarrow> absorb type pfx False es = (taken type pfx es, leftover type pfx es)"
proof (induction es rule: calls_of.induct)
  case (2 l es)
  then show ?case
    by (cases "filter (matches type pfx) (lines_of es)") (auto simp: taken_def leftover_def absorb_done dest: filter_eq_ConsD)
next
  case (3 a b es)
  then show ?case by (cases "filter (matches type pfx) (lines_of es)") (auto simp: taken_def leftover_def)
qed (auto simp: taken_def leftover_def)

lemma absorb_eq: "absorb type pfx False es = (taken type pfx es, leftover type pfx es)"
  by (cases "type = MULTILINE") (auto simp: absorb_multiline absorb_single)

text \<open>A waiting command, and one step of its wait.\<close>

definition waiting :: "ATCommandType \<Rightarrow> string option \<Rightarrow> ATResponse \<Rightarrow> 'z chan_scheme \<Rightarrow> bool" where
  "waiting type pfx r ch \<longleftrightarrow> sp_response ch = Some r \<and> finalResponse r = None \<and> s_type ch = type
     \<and> s_responsePrefix ch = pfx \<and> s_smsPDU ch = None \<and> \<not> s_readerClosed ch \<and> s_unsolHandler ch"

lemma wait_loop_step:
  assumes "waiting type pfx r ch" "\<not> invalid_time w" "e \<noteq> EvWakeup" "e \<noteq> EvTimeout"
    "reader_event env e ch = Inr ch'" "waiting type pfx r' ch'"
  shows "wait_loop env w (e # es) ch = wait_loop env w es ch'"
  using assms by (subst (1 2) wait_loop.simps) (auto simp: waiting_def)

lemma wait_loop_wakeup:
  "waiting type pfx r ch \<Longrightarrow> \<not> invalid_time w \<Longrightarrow> wait_loop env w (EvWakeup # es) ch = wait_loop env w es ch"
  by (subst wait_loop.simps) (auto simp: waiting_def)

lemma processLine_taken:
  "waiting type pfx r ch \<Longrightarrow> prefix_given type pfx \<Longrightarrow> \<not> isFinalResponse l \<Longrightarrow> matches type pfx l \<Longrightarrow> type = MULTILINE \<or> p_intermediates r = []
    \<Longrightarrow> processLine l ch = Inr (ch\<lparr>sp_response := Some (r\<lparr>p_intermediates := l # p_intermediates r\<rparr>)\<rparr>)"
  by (simp add: processLine_pending waiting_def)

lemma processLine_left:
  "waiting type pfx r ch \<Longrightarrow> prefix_given type pfx \<Longrightarrow> \<not> isFinalResponse l \<Longrightarrow> \<not> (matches type pfx l \<and> (type = MULTILINE \<or> p_intermediates r = []))
    \<Longrightarrow> processLine l ch = Inr (ch\<lparr>unsol := unsol ch @ [(l, None)]\<rparr>)"
  by (auto simp: processLine_pending waiting_def handleUnsolicited_def)

lemma wait_loop_finished:
  "sp_response ch = Some r \<Longrightarrow> finalResponse r \<noteq> None \<Longrightarrow> wait_loop env w es ch = Inr (False, es, ch)"
  by (subst wait_loop.simps) auto

lemma wait_loop_final:
  assumes "waiting type pfx r ch" "\<not> invalid_time w" "isFinalResponse fin" "prefix_given type pfx"
  shows "wait_loop env w (EvLine fin # EvWakeup # rest) ch = Inr (False, rest, ch\<lparr>sp_response :=
    Some (r\<lparr>success := if isFinalResponseSuccess fin then 1 else 0, finalResponse := Some fin\<rparr>)\<rparr>)"
  using assms by (subst wait_loop.simps) (auto simp: waiting_def processLine_pending wait_loop_finished)

lemma wait_loop_absorb:
  assumes "waiting type pfx r ch" "\<not> invalid_time w" "isFinalResponse fin" "prefix_given type pfx" "quiet evs"
    "absorb type pfx (p_intermediates r \<noteq> []) evs = (t, u)"
  shows "wait_loop env w (evs @ EvLine fin # EvWakeup # rest) ch = Inr (False, rest, ch\<lparr>unsol := unsol ch @ u, sp_response :=
    Some (r\<lparr>p_intermediates := rev t @ p_intermediates r,
            success := if isFinalResponseSuccess fin then 1 else 0, finalResponse := Some fin\<rparr>)\<rparr>)"
  using assms
proof (induction evs arbitrary: ch r t u)
  case Nil
  then show ?case by (simp add: wait_loop_final)
next
  case (Cons e evs)
  have q: "quiet evs" using Cons.prems(5) by (simp add: quiet_def)
  show ?case
  proof (cases e)
    case (EvLine l)
    have nf: "\<not> isFinalResponse l" using Cons.prems(5) EvLine by (simp add: quiet_def)
    show ?thesis
    proof (cases "matches type pfx l \<and> (type = MULTILINE \<or> p_intermediates r = [])")
      case True
      define r' where "r' = r\<lparr>p_intermediates := l # p_intermediates r\<rparr>"
      obtain t' where t: "t = l # t'" "absorb type pfx True evs = (t', u)"
        using Cons.prems(6) EvLine True by (auto split: prod.splits)
      have w: "waiting type pfx r' (ch\<lparr>sp_response := Some r'\<rparr>)"
        using Cons.prems(1) by (simp add: waiting_def r'_def)
      have p: "reader_event env e ch = Inr (ch\<lparr>sp_response := Some r'\<rparr>)"
        using Cons.prems(1,4) True nf EvLine by (simp add: processLine_taken r'_def)
      show ?thesis
        using wait_loop_step[OF Cons.prems(1,2) _ _ p w] Cons.IH[OF w Cons.prems(2-4) q, of t' u] t EvLine
        by (simp add: r'_def)
    next
      case False
      obtain u' where u: "u = (l, None) # u'" "absorb type pfx (p_intermediates r \<noteq> []) evs = (t, u')"
        using Cons.prems(6) EvLine False by (auto split: prod.splits)
      define ch' where "ch' = ch\<lparr>unsol := unsol ch @ [(l, None)]\<rparr>"
      have w: "waiting type pfx r ch'"
        using Cons.prems(1) by (simp add: waiting_def ch'_def)
      have p: "reader_event env e ch = Inr ch'"
        using processLine_left[OF Cons.prems(1,4) nf False] EvLine by (simp add: ch'_def)
      show ?thesis
        using wait_loop_step[OF Cons.prems(1,2) _ _ p w] Cons.IH[OF w Cons.prems(2-4) q u(2)] u EvLine
        by (simp add: ch'_def)
    qed
  next
    case (EvSms a b)
    obtain u' where u: "u = (a, Some b) # u'" "absorb type pfx (p_intermediates r \<noteq> []) evs = (t, u')"
      using Cons.prems(6) EvSms by (auto split: prod.splits)
    define ch' where "ch' = ch\<lparr>unsol := unsol ch @ [(a, Some b)]\<rparr>"
    have w: "waiting type pfx r ch'"
      using Cons.prems(1) by (simp add: waiting_def ch'_def)
    have p: "reader_event env e ch = Inr ch'"
      using Cons.prems(1) EvSms by (simp add: ch'_def sms_unsolicited_def waiting_def)
    show ?thesis
      using wait_loop_step[OF Cons.prems(1,2) _ _ p w] Cons.IH[OF w Cons.prems(2-4) q u(2)] u EvSms
      by (simp add: ch'_def)
  next
    case EvWakeup
    then show ?thesis
      using wait_loop_wakeup[OF Cons.prems(1,2)] Cons.IH[OF Cons.prems(1-4) q, of t u] Cons.prems(6) by simp
  qed (use Cons.prems(5) in \<open>simp_all add: quiet_def\<close>)
qed

lemma exchange_result:
  assumes "idle ch" "writeline command ch = (0, ch1)" "\<not> on_reader ch" "\<not> s_readerClosed ch" "s_unsolHandler ch"
    "wait_for env ms ch1 = (w, ch1')" "\<not> invalid_time w" "prefix_given type pfx"
    "quiet evs" "isFinalResponse fin" "sched ch = evs @ EvLine fin # EvWakeup # rest"
  shows "at_send_command_full env command type pfx None ms want ch =
    Inr (0, if want then Some \<lparr>success = if isFinalResponseSuccess fin then 1 else 0, finalResponse = Some fin,
                   p_intermediates = taken type pfx evs\<rparr> else None,
         ch1'\<lparr>s_type := type, sched := rest, unsol := unsol ch @ leftover type pfx evs\<rparr>)"
proof -
  define begun where "begun = ch1\<lparr>s_type := type, s_responsePrefix := pfx, s_smsPDU := None, sp_response := Some at_response_new\<rparr>"
  define begun' where "begun' = ch1'\<lparr>s_type := type, s_responsePrefix := pfx, s_smsPDU := None, sp_response := Some at_response_new\<rparr>"
  have wf: "wait_for env ms begun = (w, begun')"
    using assms(6) by (auto simp: wait_for_def setTimespecRelative_def gettimeofday_def begun_def begun'_def split: if_splits list.splits)
  have k: "s_readerClosed ch1' = s_readerClosed ch" "s_unsolHandler ch1' = s_unsolHandler ch" "unsol ch1' = unsol ch" "sched ch1' = sched ch"
    "sp_response ch1' = None" "s_responsePrefix ch1' = None" "s_smsPDU ch1' = None"
    using assms(1) by (simp_all add: idle_def wait_for_keeps[OF assms(6)] writeline_keeps[OF assms(2)])
  have wt: "waiting type pfx at_response_new begun'"
    using assms(4,5) k by (simp add: waiting_def begun'_def at_response_new_def)
  have ab: "absorb type pfx (p_intermediates at_response_new \<noteq> []) evs = (taken type pfx evs, leftover type pfx evs)"
    by (simp add: absorb_eq at_response_new_def)
  define r where "r = \<lparr>success = if isFinalResponseSuccess fin then 1 else 0, finalResponse = Some fin,
                   p_intermediates = rev (taken type pfx evs)\<rparr>"
  have sch: "sched begun' = evs @ EvLine fin # EvWakeup # rest" using k assms(11) by (simp add: begun'_def)
  have wl: "wait_loop env w (sched begun') begun' =
      Inr (False, rest, begun'\<lparr>unsol := unsol ch @ leftover type pfx evs, sp_response := Some r\<rparr>)"
    using wait_loop_absorb[OF wt assms(7,10,8,9) ab, of env rest] k sch by (simp add: begun'_def r_def at_response_new_def)
  have cl: "clearPendingCommand (begun'\<lparr>unsol := unsol ch @ leftover type pfx evs, sched := rest, sp_response := None\<rparr>)
      = ch1'\<lparr>s_type := type, sched := rest, unsol := unsol ch @ leftover type pfx evs\<rparr>"
    using k by (intro chan.equality) (simp_all add: clearPendingCommand_def begun'_def)
  have "\<not> s_readerClosed begun'" using k assms(4) by (simp add: begun'_def)
  with wf wl cl assms(1-4)
  have "at_send_command_full_nolock env command type pfx None ms want ch =
    Inr (0, if want then Some (reverseIntermediates r) else None, ch1'\<lparr>s_type := type, sched := rest, unsol := unsol ch @ leftover type pfx evs\<rparr>)"
    unfolding at_send_command_full_nolock_def by (simp add: idle_def flip: begun_def)
  with assms(3) show ?thesis
    by (simp add: at_send_command_full_def r_def reverseIntermediates_def reverse_loop_rev AT_ERROR_TIMEOUT_def)
qed

text \<open> C1.
  \<open>exchange_exact\<close>: a command sent on an open, idle channel, answered by any lines, SMS pairs and
  spurious wakeups and then a final response, returns 0 with exactly the lines of its type in the
  order received (all matching lines of a multi-line command, the first one of the others), the
  final response and whether it means success. Everything else the modem sent, in order, went to
  the unsolicited handler, and the channel is idle again with the rest of the schedule.
\<close>

theorem exchange_exact:
  assumes "idle ch" "writeline command ch = (0, ch1)" "\<not> on_reader ch" "\<not> s_readerClosed ch" "s_unsolHandler ch"
    "wait_for env ms ch1 = (w, ch1')" "\<not> invalid_time w" "prefix_given type pfx"
    "quiet evs" "isFinalResponse fin" "sched ch = evs @ EvLine fin # EvWakeup # rest"
  shows "at_send_command_full env command type pfx None ms True ch =
    Inr (0, Some \<lparr>success = if isFinalResponseSuccess fin then 1 else 0, finalResponse = Some fin,
                   p_intermediates = taken type pfx evs\<rparr>,
         ch1'\<lparr>s_type := type, sched := rest, unsol := unsol ch @ leftover type pfx evs\<rparr>)"
  using exchange_result[OF assms, where want = True] by simp

text \<open>A two-line query: both matching lines come back in order, the foreign line goes to the handler.\<close>

definition demo_chan :: "chan_ev list \<Rightarrow> chan" where
  "demo_chan es = \<lparr>s_fd = 3, s_unsolHandler = True, s_type = NO_RESULT, s_responsePrefix = None, s_smsPDU = None,
     sp_response = None, s_readerClosed = False, on_reader = False, close_due = False, wire = [], wr_script = [Wrote 1, WriteEINTR],
     unsol = [], sched = es, clock = []\<rparr>"

definition demo_env :: "chan at_env" where
  "demo_env = \<lparr>USE_NP = False, s_onTimeout = None, s_onReaderClosed = Some (\<lambda>ch. Inr (at_close ch))\<rparr>"

lemma exchange_exact_witness:
  "at_send_command_full demo_env ''AT+CGDCONT?'' MULTILINE (Some ''+CG'') None 5000 True
     (demo_chan [EvLine ''+CGA'', EvLine ''^BOOT'', EvWakeup, EvLine ''+CGB'', EvLine ''OK'', EvWakeup, EvTimeout]) =
   Inr (0, Some \<lparr>success = 1, finalResponse = Some ''OK'', p_intermediates = [''+CGA'', ''+CGB'']\<rparr>,
     (demo_chan [EvTimeout])\<lparr>s_type := MULTILINE, wire := ''AT+CGDCONT?'' @ [CR], wr_script := [], unsol := [(''^BOOT'', None)]\<rparr>)"
proof -
  have fin: "isFinalResponse ''OK''" "isFinalResponseSuccess ''OK''" "\<not> isFinalResponse ''+CGA''"
    "\<not> isFinalResponse ''+CGB''" "\<not> isFinalResponse ''^BOOT''"
    by code_simp+
  let ?es = "[EvLine ''+CGA'', EvLine ''^BOOT'', EvWakeup, EvLine ''+CGB'']"
  let ?ch = "demo_chan (?es @ EvLine ''OK'' # EvWakeup # [EvTimeout])"
  have w: "writeline ''AT+CGDCONT?'' ?ch = (0, ?ch\<lparr>wire := ''AT+CGDCONT?'' @ [CR], wr_script := []\<rparr>)"
    by (simp add: writeline_def put_def demo_chan_def)
  have t: "taken MULTILINE (Some ''+CG'') ?es = [''+CGA'', ''+CGB'']" "leftover MULTILINE (Some ''+CG'') ?es = [(''^BOOT'', None)]"
    by (simp_all add: taken_def leftover_def matches_def)
  show ?thesis
    using exchange_exact[OF _ w, where env = demo_env and ms = 5000 and type = MULTILINE and pfx = "Some ''+CG''"
        and evs = ?es and fin = "''OK''" and rest = "[EvTimeout]" and w = "Until 5 0"
        and ch1' = "?ch\<lparr>wire := ''AT+CGDCONT?'' @ [CR], wr_script := []\<rparr>"]
    by (simp add: t fin quiet_def prefix_given_def idle_def)
      (simp add: demo_chan_def demo_env_def wait_for_def setTimespecRelative_def gettimeofday_def)
qed

section \<open>Properties of the command interface\<close>

text \<open> C9.
  \<open>commands_safe\<close>: whatever the modem, the kernel's \<open>write\<close> and the wait do, none of the five
  senders called on an idle channel dereferences a NULL pointer (not even when the reader thread
  dies under it), and each leaves the channel idle for the next command.
\<close>

theorem commands_safe:
  assumes "env_ok env" "idle ch"
  shows "goodO (\<lambda>(err, out, ch'). idle ch') (at_send_command env cmd want ch)
    \<and> goodO (\<lambda>(err, out, ch'). idle ch') (at_send_command_singleline env cmd p True ch)
    \<and> goodO (\<lambda>(err, out, ch'). idle ch') (at_send_command_numeric env cmd True ch)
    \<and> goodO (\<lambda>(err, out, ch'). idle ch') (at_send_command_sms env cmd pdu p True ch)
    \<and> goodO (\<lambda>(err, out, ch'). idle ch') (at_send_command_multiline env cmd p want ch)"
  using assms by (intro conjI plain.sends_idle singleline.sends_idle numeric.sends_idle sms.sends_idle multiline.sends_idle)

lemma demo_hooks: "env_ok demo_env"
  by (auto simp: env_ok_def hooks_ok_def demo_env_def keeps_command_def at_close_def)

lemma demo_idle: "idle (demo_chan es)"
  by (simp add: idle_def demo_chan_def)

lemma commands_safe_witness:
  "goodO (\<lambda>(err, out, ch'). idle ch') (at_send_command_numeric demo_env ''AT+CIMI'' True (demo_chan [EvReaderEnd, EvCloseCallback, EvWakeup]))"
  using commands_safe[OF demo_hooks demo_idle] by blast

text \<open>
  \<open>query_has_its_line\<close>: when \<open>at_send_command_singleline\<close> returns 0 and the modem reported
  success, the response has exactly one intermediate line and it starts with the requested
  prefix, so a request may dereference \<open>p_intermediates->line\<close>.
\<close>

theorem query_has_its_line:
  assumes "env_ok env" "idle ch" "at_send_command_singleline env cmd p True ch = Inr (0, out, ch')"
  shows "\<exists>r. out = Some r \<and> (success r > 0 \<longrightarrow> (\<exists>l. p_intermediates r = [l] \<and> Sublist.prefix p l))"
  using singleline.one_line[OF assms] by (auto simp: matches_def)

lemma query_has_its_line_witness:
  "\<exists>r. Some \<lparr>success = 1, finalResponse = Some ''OK'', p_intermediates = [''+CSQ: 20,99'']\<rparr> = Some r
    \<and> (success r > 0 \<longrightarrow> (\<exists>l. p_intermediates r = [l] \<and> Sublist.prefix ''+CSQ:'' l))"
proof (rule query_has_its_line[OF demo_hooks, where ch = "demo_chan [EvLine ''+CSQ: 20,99'', EvLine ''OK'', EvWakeup]" and cmd = "''AT+CSQ''"])
  show "idle (demo_chan [EvLine ''+CSQ: 20,99'', EvLine ''OK'', EvWakeup])"
    by (rule demo_idle)
  show "at_send_command_singleline demo_env ''AT+CSQ'' ''+CSQ:'' True (demo_chan [EvLine ''+CSQ: 20,99'', EvLine ''OK'', EvWakeup])
    = Inr (0, Some \<lparr>success = 1, finalResponse = Some ''OK'', p_intermediates = [''+CSQ: 20,99'']\<rparr>,
        (demo_chan [])\<lparr>s_type := SINGLELINE, wire := ''AT+CSQ'' @ [CR], wr_script := []\<rparr>)"
    by code_simp
qed

text \<open>How \<open>wr_bytes\<close> relates to what it was asked to write.\<close>

lemma wr_bytes_prefix: "wr_bytes s ws = (ok, out, ws') \<Longrightarrow> Sublist.prefix out s \<and> (ok \<longrightarrow> out = s)"
proof (induction s ws arbitrary: out rule: wr_bytes.induct)
  case (5 v va n ws)
  then obtain out' where o: "wr_bytes (drop n (v # va)) ws = (ok, out', ws')" "out = take n (v # va) @ out'"
    by (auto split: prod.splits)
  with 5 have "Sublist.prefix out' (drop n (v # va)) \<and> (ok \<longrightarrow> out' = drop n (v # va))" by blast
  with o(2) show ?case
    by (metis append_take_drop_id same_prefix_prefix)
qed auto

lemma wr_bytes_failed: "wr_bytes s ws = (False, out, ws') \<Longrightarrow> out \<noteq> s"
proof (induction s ws arbitrary: out rule: wr_bytes.induct)
  case (5 v va n ws)
  then show ?case
    by (auto split: prod.splits) (metis append_take_drop_id same_append_eq)
qed auto

lemma put_spec:
  "put s ch = (ok, ch') \<Longrightarrow> \<exists>out. wire ch' = wire ch @ out \<and> Sublist.prefix out s \<and> (ok \<longleftrightarrow> out = s)"
  using wr_bytes_prefix[of s "wr_script ch"] wr_bytes_failed[of s "wr_script ch"]
  by (auto simp: put_def split: prod.splits) (metis (full_types))+

text \<open> C15.
  \<open>writeline_delivers\<close>: under any sequence of partial and interrupted writes, \<open>writeline\<close> returns 0
  exactly when all of the command and its carriage return went out, in order and once; when
  \<open>write\<close> fails it reports the generic error after a proper prefix of them; on a channel without
  file or closed by its reader it writes nothing and reports that.
\<close>

theorem writeline_delivers:
  "case writeline s ch of (err, ch') \<Rightarrow>
     (\<exists>out. wire ch' = wire ch @ out \<and> Sublist.prefix out (s @ [CR]) \<and> (err = 0 \<longleftrightarrow> out = s @ [CR])) \<and>
     err \<in> {0, AT_ERROR_GENERIC, AT_ERROR_CHANNEL_CLOSED} \<and>
     (err = AT_ERROR_CHANNEL_CLOSED \<longleftrightarrow> s_fd ch < 0 \<or> s_readerClosed ch)"
proof (cases "s_fd ch < 0 \<or> s_readerClosed ch")
  case True
  then show ?thesis by (simp add: writeline_def at_errors)
next
  case False
  obtain ok ch1 where 1: "put s ch = (ok, ch1)" by fastforce
  obtain ok' ch2 where 2: "put [CR] ch1 = (ok', ch2)" by fastforce
  obtain out1 where o1: "wire ch1 = wire ch @ out1" "Sublist.prefix out1 s" "ok \<longleftrightarrow> out1 = s"
    using put_spec[OF 1] by auto
  obtain out2 where o2: "wire ch2 = wire ch1 @ out2" "Sublist.prefix out2 [CR]" "ok' \<longleftrightarrow> out2 = [CR]"
    using put_spec[OF 2] by auto
  have "out1 \<noteq> s @ [CR]" using o1(2) by (auto simp: Sublist.prefix_def)
  then show ?thesis
    using False 1 2 o1 o2 by (auto simp: writeline_def at_errors Sublist.prefix_def)
qed

lemma nolock_code:
  "at_send_command_full_nolock env command type pfx pdu ms want ch = Inr (e, out, ch') \<Longrightarrow> e \<le> 0"
  by (auto simp: at_send_command_full_nolock_def seqO_eq_Inr at_errors split: if_splits prod.splits)

lemma handshake_stays_bad: "handshake_loop env n err ch = Inr (e, ch') \<Longrightarrow> err < 0 \<Longrightarrow> e < 0"
proof (induction n arbitrary: err ch)
  case (Suc n)
  then show ?case by (fastforce simp: seqO_eq_Inr split: if_splits dest!: nolock_code)
qed simp

text \<open>
  \<open>handshake_decided_by_first_round\<close>: the loop of \<open>at_handshake\<close> adds the error of every command
  to \<open>err\<close> and leaves only when \<open>err\<close> is 0. As no command returns a positive error, the
  handshake succeeds exactly when both commands of the first round do: the other seven rounds
  can never make up for a first time-out, though the loop is there to do just that.
\<close>

theorem handshake_decided_by_first_round:
  assumes "\<not> on_reader ch" "at_handshake env ch = Inr (err, ch')"
  shows "err \<le> 0 \<and> (err = 0 \<longleftrightarrow> (\<exists>ch1 o1 o2.
      at_send_command_full_nolock env ''ATZ'' NO_RESULT None None HANDSHAKE_TIMEOUT_MSEC False ch = Inr (0, o1, ch1) \<and>
      at_send_command_full_nolock env ''ATE0Q0V1'' NO_RESULT None None HANDSHAKE_TIMEOUT_MSEC False ch1 = Inr (0, o2, ch')))"
proof -
  have "handshake_loop env (Suc 7) 0 ch = Inr (err, ch')"
    using assms by (simp add: at_handshake_def HANDSHAKE_RETRY_COUNT_def)
  then obtain e1 o1 ch1 e2 o2 ch2 where
    1: "at_send_command_full_nolock env ''ATZ'' NO_RESULT None None HANDSHAKE_TIMEOUT_MSEC False ch = Inr (e1, o1, ch1)" and
    2: "at_send_command_full_nolock env ''ATE0Q0V1'' NO_RESULT None None HANDSHAKE_TIMEOUT_MSEC False ch1 = Inr (e2, o2, ch2)" and
    3: "(if e1 + e2 = 0 then Inr (0, ch2) else handshake_loop env 7 (e1 + e2) ch2) = Inr (err, ch')"
    by (simp only: handshake_loop.simps add_0) (auto simp: seqO_eq_Inr)
  have "e1 \<le> 0" "e2 \<le> 0" using nolock_code 1 2 by blast+
  then show ?thesis
    using 1 2 3 handshake_stays_bad[of env 7 "e1 + e2" ch2 err ch'] by (auto split: if_splits)
qed

text \<open>The first \<open>ATZ\<close> times out, every later command is answered at once, and the handshake fails.\<close>

definition late_modem :: "chan_ev list" where
  "late_modem = EvTimeout # concat (replicate 15 [EvLine ''OK'', EvWakeup])"

lemma late_modem_run:
  "map_sum id fst (at_handshake (demo_env\<lparr>USE_NP := True\<rparr>) (demo_chan late_modem)) = Inr AT_ERROR_TIMEOUT"
  by code_simp

lemma handshake_decided_by_first_round_witness:
  "\<exists>ch'. at_handshake (demo_env\<lparr>USE_NP := True\<rparr>) (demo_chan late_modem) = Inr (AT_ERROR_TIMEOUT, ch') \<and> AT_ERROR_TIMEOUT \<le> 0"
proof -
  obtain ch' where "at_handshake (demo_env\<lparr>USE_NP := True\<rparr>) (demo_chan late_modem) = Inr (AT_ERROR_TIMEOUT, ch')"
    using late_modem_run by (cases "at_handshake (demo_env\<lparr>USE_NP := True\<rparr>) (demo_chan late_modem)") auto
  moreover from this have "AT_ERROR_TIMEOUT \<le> 0"
    by (rule handshake_decided_by_first_round[THEN conjunct1, rotated]) (simp add: demo_chan_def)
  ultimately show ?thesis by blast
qed

text \<open>
  Without \<open>USE_NP\<close>, if the handshake starts in the last quarter of a second,
  the nanoseconds that \<open>setTimespecRelative\<close> computes reach 10^9, \<open>pthread_cond_timedwait\<close>
  refuses them, and the wait loop spins with the mutex held, so that not even the answer that is
  already there can end it.
\<close>

theorem handshake_spins:
  assumes "\<not> USE_NP env" "clock ch = (sec, usec) # ts" "750000 \<le> usec" "usec < 1000000"
    "\<not> on_reader ch" "idle ch" "\<not> s_readerClosed ch" "writeline ''ATZ'' ch = (0, ch1)"
  shows "at_handshake env ch = Inl Blocked"
proof -
  let ?begun = "ch1\<lparr>s_type := NO_RESULT, s_responsePrefix := None, s_smsPDU := None, sp_response := Some at_response_new\<rparr>"
  have k: "clock ch1 = clock ch" "s_readerClosed ch1 = s_readerClosed ch"
    using writeline_keeps[OF assms(8)] by simp_all
  have "wait_for env HANDSHAKE_TIMEOUT_MSEC ?begun = (Until sec ((usec + 250000) * 1000), ?begun\<lparr>clock := ts\<rparr>)"
    using assms(1,2) k by (simp add: wait_for_def HANDSHAKE_TIMEOUT_MSEC_def setTimespecRelative_def gettimeofday_def)
  then have "at_send_command_full_nolock env ''ATZ'' NO_RESULT None None HANDSHAKE_TIMEOUT_MSEC False ch = Inl Blocked"
    using assms k by (simp add: at_send_command_full_nolock_def idle_def wait_loop.simps at_response_new_def)
  then have "handshake_loop env (Suc 7) 0 ch = Inl Blocked"
    by (simp only: handshake_loop.simps seqO_Inl)
  then show ?thesis
    using assms(5) by (simp add: at_handshake_def HANDSHAKE_RETRY_COUNT_def)
qed

lemma handshake_spins_witness:
  "at_handshake demo_env ((demo_chan [EvLine ''OK'', EvWakeup])\<lparr>clock := [(1700000000, 800000)]\<rparr>) = Inl Blocked"
  by (rule handshake_spins[of _ _ 1700000000 800000 "[]"
        "(demo_chan [EvLine ''OK'', EvWakeup])\<lparr>clock := [(1700000000, 800000)], wire := ''ATZ'' @ [CR], wr_script := []\<rparr>"])
    (simp_all add: demo_env_def demo_chan_def idle_def writeline_def put_def)

text \<open>
  \<open>second_command_breaks_first\<close>: a command issued while another one waits is refused as pending,
  but its clean-up clears the pending response of the first, whose wait then dereferences NULL.
\<close>

theorem second_command_breaks_first:
  assumes "sp_response ch = Some r"
  shows "\<exists>ch'. at_send_command_full_nolock env command type pfx pdu ms want ch = Inr (AT_ERROR_COMMAND_PENDING, None, ch')
    \<and> idle ch' \<and> wait_loop env w es ch' = Inl Undef"
  using assms by (auto simp: at_send_command_full_nolock_def wait_loop.simps idle_def clearPendingCommand_def)

lemma second_command_breaks_first_witness:
  "\<exists>ch'. at_send_command_full_nolock demo_env ''AT'' NO_RESULT None None 250 False ((demo_chan [])\<lparr>sp_response := Some at_response_new\<rparr>)
       = Inr (AT_ERROR_COMMAND_PENDING, None, ch')
    \<and> idle ch' \<and> wait_loop demo_env Forever [EvWakeup] ch' = Inl Undef"
  by (rule second_command_breaks_first) simp

section \<open>What a client keeps beside the channel\<close>

text \<open>
  The channel touches the rest of the program only through the two callbacks. A predicate on
  the rest that the callbacks keep is kept by every event of the reader and by every command.
\<close>

lemma more_put: "put s ch = (ok, ch') \<Longrightarrow> chan.more ch' = chan.more ch"
  by (auto simp: put_def split: prod.splits)

lemma more_writeline: "writeline s ch = (e, ch') \<Longrightarrow> chan.more ch' = chan.more ch"
  by (auto simp: writeline_def split: prod.splits if_splits dest!: more_put)

lemma more_writeCtrlZ: "writeCtrlZ s ch = (e, ch') \<Longrightarrow> chan.more ch' = chan.more ch"
  by (auto simp: writeCtrlZ_def split: prod.splits if_splits dest!: more_put)

lemma more_snd_writeCtrlZ [simp]: "chan.more (snd (writeCtrlZ s ch)) = chan.more ch"
  using more_writeCtrlZ[of s ch "fst (writeCtrlZ s ch)"] by simp

lemma more_processLine: "processLine line ch = Inr ch' \<Longrightarrow> chan.more ch' = chan.more ch"
  by (auto simp: processLine_def handleFinalResponse_def handleUnsolicited_def addIntermediate_def startsWith_prefix_def
      split: option.splits if_splits ATCommandType.splits prod.splits list.splits bool.splits)

lemma more_wait_for: "wait_for env ms ch = (w, ch') \<Longrightarrow> chan.more ch' = chan.more ch"
  by (auto simp: wait_for_def setTimespecRelative_def gettimeofday_def split: list.splits prod.splits if_splits)

locale chan_client =
  fixes env :: "('z chan_scheme) at_env" and I :: "'z chan_scheme \<Rightarrow> bool"
  assumes frame: "I ch \<Longrightarrow> chan.more ch' = chan.more ch \<Longrightarrow> I ch'"
    and closed_hook: "s_onReaderClosed env = Some f \<Longrightarrow> I ch \<Longrightarrow> f ch = Inr ch' \<Longrightarrow> I ch'"
    and timeout_hook: "s_onTimeout env = Some g \<Longrightarrow> I ch \<Longrightarrow> g ch = Inr ch' \<Longrightarrow> I ch'"
begin

lemma event: "I ch \<Longrightarrow> reader_event env e ch = Inr ch' \<Longrightarrow> I ch'"
proof (cases e)
  case (EvLine l)
  assume "I ch" "reader_event env e ch = Inr ch'"
  with EvLine show ?thesis by (auto intro: frame more_processLine)
next
  case EvCloseCallback
  assume i: "I ch" and r: "reader_event env e ch = Inr ch'"
  have j: "I (ch\<lparr>close_due := False, on_reader := True\<rparr>)" by (rule frame[OF i]) simp
  show ?thesis
  proof (cases "close_due ch \<and> s_onReaderClosed env \<noteq> None")
    case True
    then obtain f where f: "s_onReaderClosed env = Some f" by blast
    with True r EvCloseCallback obtain ch1 where 1: "f (ch\<lparr>close_due := False, on_reader := True\<rparr>) = Inr ch1"
      "ch' = ch1\<lparr>on_reader := on_reader ch\<rparr>"
      by (auto simp: reader_closed_callback_def seqO_eq_Inr)
    have "I ch1" using closed_hook[OF f j 1(1)] .
    then show ?thesis by (rule frame) (simp add: 1(2))
  next
    case False
    with r i EvCloseCallback show ?thesis by (auto simp: reader_closed_callback_def split: if_splits)
  qed
qed (auto simp: sms_unsolicited_def reader_closed_signal_def elim: frame split: if_splits)

lemma cond_wait_keeps: "I ch \<Longrightarrow> cond_wait env w es ch = Inr (b, es', ch') \<Longrightarrow> I ch'"
  by (induction es arbitrary: ch) (auto simp: seqO_eq_Inr split: if_splits dest: event)

lemma wait_loop_keeps: "I ch \<Longrightarrow> wait_loop env w es ch = Inr (b, es', ch') \<Longrightarrow> I ch'"
proof (induction "length es" arbitrary: es ch rule: less_induct)
  case less
  from less.prems(2) obtain r where r: "sp_response ch = Some r"
    by (subst (asm) wait_loop.simps) (auto split: option.splits)
  show ?case
  proof (cases "finalResponse r \<noteq> None \<or> s_readerClosed ch \<or> invalid_time w")
    case True
    with less.prems r show ?thesis by (subst (asm) wait_loop.simps) (auto split: if_splits)
  next
    case False
    with less.prems(2) r obtain t es1 ch1 where c: "cond_wait env w es ch = Inr (t, es1, ch1)"
      and d: "(if t then Inr (True, es1, ch1) else wait_loop env w es1 ch1) = Inr (b, es', ch')"
      by (subst (asm) wait_loop.simps) (auto simp: seqO_eq_Inr)
    have "I ch1" using cond_wait_keeps[OF less.prems(1) c] .
    with d less.hyps[OF cond_wait_shorter[OF c]] show ?thesis by (auto split: if_splits)
  qed
qed

lemma nolock_keeps:
  assumes "I ch" "at_send_command_full_nolock env command type pfx pdu ms want ch = Inr (e, out, ch')"
  shows "I ch'"
proof (cases "sp_response ch \<noteq> None \<or> fst (writeline command ch) < 0")
  case True
  with assms(2) have "chan.more ch' = chan.more ch"
    by (auto simp: at_send_command_full_nolock_def clearPendingCommand_def split: prod.splits if_splits dest: more_writeline)
  then show ?thesis by (rule frame[OF assms(1)])
next
  case False
  obtain e1 ch1 where w: "writeline command ch = (e1, ch1)" by fastforce
  define begun where "begun = ch1\<lparr>s_type := type, s_responsePrefix := pfx, s_smsPDU := pdu, sp_response := Some at_response_new\<rparr>"
  obtain wk ch2 where f: "wait_for env ms begun = (wk, ch2)" by fastforce
  have "chan.more ch2 = chan.more ch"
    using more_wait_for[OF f] more_writeline[OF w] by (simp add: begun_def)
  then have i2: "I ch2" by (rule frame[OF assms(1)])
  from False w f assms(2) obtain t es ch3 where l: "wait_loop env wk (sched ch2) ch2 = Inr (t, es, ch3)"
    and c: "chan.more ch' = chan.more ch3"
    unfolding at_send_command_full_nolock_def
    by (auto simp: seqO_eq_Inr clearPendingCommand_def simp flip: begun_def split: if_splits)
  show ?thesis using wait_loop_keeps[OF i2 l] c by (rule frame)
qed

lemma full_keeps:
  "I ch \<Longrightarrow> at_send_command_full env command type pfx pdu ms want ch = Inr (e, out, ch') \<Longrightarrow> I ch'"
  by (auto simp: at_send_command_full_def seqO_eq_Inr split: if_splits option.splits dest: nolock_keeps timeout_hook)

lemma need_keeps: "need_intermediate want (e, out, ch) = Inr (e', out', ch') \<Longrightarrow> ch' = ch"
  by (auto simp: need_intermediate_def split: if_splits option.splits)

lemma send_keeps: "I ch \<Longrightarrow> at_send_command env cmd want ch = Inr (e, out, ch') \<Longrightarrow> I ch'"
  by (auto simp: at_send_command_def dest: full_keeps)

lemma multiline_keeps: "I ch \<Longrightarrow> at_send_command_multiline env cmd p want ch = Inr (e, out, ch') \<Longrightarrow> I ch'"
  by (auto simp: at_send_command_multiline_def dest: full_keeps)

lemma singleline_keeps: "I ch \<Longrightarrow> at_send_command_singleline env cmd p want ch = Inr (e, out, ch') \<Longrightarrow> I ch'"
  by (auto simp: at_send_command_singleline_def seqO_eq_Inr dest!: need_keeps dest: full_keeps)

lemma numeric_keeps: "I ch \<Longrightarrow> at_send_command_numeric env cmd want ch = Inr (e, out, ch') \<Longrightarrow> I ch'"
  by (auto simp: at_send_command_numeric_def seqO_eq_Inr dest!: need_keeps dest: full_keeps)

lemma handshake_loop_keeps: "I ch \<Longrightarrow> handshake_loop env n err ch = Inr (e, ch') \<Longrightarrow> I ch'"
proof (induction n arbitrary: err ch)
  case (Suc n)
  from Suc.prems(2) obtain e1 o1 ch1 e2 o2 ch2 where
    1: "at_send_command_full_nolock env ''ATZ'' NO_RESULT None None HANDSHAKE_TIMEOUT_MSEC False ch = Inr (e1, o1, ch1)"
       "at_send_command_full_nolock env ''ATE0Q0V1'' NO_RESULT None None HANDSHAKE_TIMEOUT_MSEC False ch1 = Inr (e2, o2, ch2)" and
    2: "(if err + e1 + e2 = 0 then Inr (0, ch2) else handshake_loop env n (err + e1 + e2) ch2) = Inr (e, ch')"
    by (auto simp: seqO_eq_Inr)
  have "I ch2" using nolock_keeps[OF nolock_keeps[OF Suc.prems(1) 1(1)] 1(2)] .
  with 2 Suc.IH show ?case by (auto split: if_splits)
qed simp

lemma handshake_keeps: "I ch \<Longrightarrow> at_handshake env ch = Inr (e, ch') \<Longrightarrow> I ch'"
  by (auto simp: at_handshake_def split: if_splits dest: handshake_loop_keeps)

lemma send_all: "I ch \<Longrightarrow> allO (\<lambda>(e, out, ch'). I ch') (at_send_command env cmd want ch)"
  by (rule allO_I) (auto dest: send_keeps)

lemma multiline_all: "I ch \<Longrightarrow> allO (\<lambda>(e, out, ch'). I ch') (at_send_command_multiline env cmd p want ch)"
  by (rule allO_I) (auto dest: multiline_keeps)

lemma singleline_all: "I ch \<Longrightarrow> allO (\<lambda>(e, out, ch'). I ch') (at_send_command_singleline env cmd p want ch)"
  by (rule allO_I) (auto dest: singleline_keeps)

lemma numeric_all: "I ch \<Longrightarrow> allO (\<lambda>(e, out, ch'). I ch') (at_send_command_numeric env cmd want ch)"
  by (rule allO_I) (auto dest: numeric_keeps)

lemma handshake_all: "I ch \<Longrightarrow> allO (\<lambda>(e, ch'). I ch') (at_handshake env ch)"
  by (rule allO_I) (auto dest: handshake_keeps)

lemmas all_rules = send_all multiline_all singleline_all numeric_all handshake_all

end

text \<open>The channel's own idleness is of this kind only between commands; the handshake keeps it.\<close>

lemma handshake_good [inv_intro]:
  assumes "env_ok env" "idle ch"
  shows "goodO (\<lambda>(e, ch'). idle ch') (at_handshake env ch)"
proof -
  have n: "goodO (\<lambda>(e, o1, ch'). idle ch') (at_send_command_full_nolock env cmd NO_RESULT None None ms False ch)"
    if "idle ch" for cmd ms and ch :: "'a chan_scheme"
    by (rule goodO_mono[OF nolock_good]) (use assms(1) that in \<open>auto simp: env_ok_def idle_def prefix_given_def send_post_def\<close>)
  have "goodO (\<lambda>(e, ch'). idle ch') (handshake_loop env k err ch)" if "idle ch" for k err and ch :: "'a chan_scheme"
    using that by (induction k arbitrary: err ch) (auto intro!: goodO_seqO[OF n])
  with assms(2) show ?thesis by (simp add: at_handshake_def)
qed

end
