(* ===== verification/At_Loop.thy ===== *)
theory At_Loop
  imports At_Channel
begin

text \<open>
  The reader thread of \<open>huawei_tgm/atchannel.c\<close>: \<open>readerLoop\<close> over the line reader and the
  channel. What it does to the channel is the schedule of events of At_Channel that its input
  gives, which depends on the input alone; for a clean stream they are the lines of the stream,
  an SMS header paired with the line behind it.
\<close>

section \<open>The loop\<close>

text \<open>A line makes the reader consume input or move its cursor.\<close>

lemma take_line_cursor:
  "take_line r e = (l, r') \<Longrightarrow> length (s_ATBuffer r') = length (s_ATBuffer r) \<and> s_ATBufferCur r' = e + 1"
  by (auto simp: take_line_def Let_def)

lemma readline_loop_consumes:
  "readline_loop cap r p rs = Inr (Some l, r', rs') \<Longrightarrow> script_size rs' < script_size rs"
proof (induction "script_size rs" arbitrary: r p rs rule: less_induct)
  case less
  define r0 where "r0 = (if p = cap then r\<lparr>s_ATBuffer := (s_ATBuffer r)[0 := NUL], s_ATBufferCur := 0\<rparr> else r)"
  define p0 where "p0 = (if p = cap then 0 else p)"
  note run = less.prems[unfolded readline_loop.simps[of cap r p rs], unfolded Let_def, folded p0_def r0_def]
  show ?case
  proof (cases "sys_read (cap - p0) rs")
    case (Inl e)
    with run show ?thesis by simp
  next
    case (Inr res)
    then obtain c cs rs1 where got: "sys_read (cap - p0) rs = Inr (Some (c # cs), rs1)"
      using run by (cases res; cases "fst res"; cases "the (fst res)") auto
    note shorter = sys_read_size[OF got]
    have "readline_loop cap r1 p1 rs1 = Inr (Some l, r', rs') \<Longrightarrow> ?thesis" for r1 p1
      using less.hyps[OF shorter] shorter by fastforce
    with run got shorter show ?thesis
      by (auto simp: seqO_eq_Inr take_line_def Let_def split: if_splits option.splits)
  qed
qed

lemma scan_eol_ge: "scan_eol b i = Inr j \<Longrightarrow> i \<le> j \<and> j < length b"
  by (induction b i rule: scan_eol.induct) (subst (asm) (2) scan_eol.simps, fastforce split: if_splits)

lemma skip_newlines_ge: "skip_newlines b i = Inr j \<Longrightarrow> i \<le> j \<and> j < length b"
  by (induction b i rule: skip_newlines.induct) (subst (asm) (2) skip_newlines.simps, fastforce split: if_splits)

lemma findNextEOL_ge:
  "findNextEOL b cur = Inr (Some e) \<Longrightarrow> cur \<le> e \<and> e < length b"
  by (auto simp: findNextEOL_def seqO_eq_Inr at_prompt_def buf_at_def split: if_splits dest: scan_eol_ge)

definition unread_size :: "reader \<Rightarrow> nat" where
  "unread_size r = length (s_ATBuffer r) - s_ATBufferCur r"

lemma readline_progress:
  assumes "readline cap r rs = Inr (Some l, r', rs')"
  shows "script_size rs' < script_size rs \<or> script_size rs' = script_size rs \<and> unread_size r' < unread_size r"
proof -
  from assms obtain c where c: "buf_at (s_ATBuffer r) (s_ATBufferCur r) = Inr c"
    by (auto simp: readline_def seqO_eq_Inr)
  show ?thesis
  proof (cases "c = NUL")
    case True
    with assms c show ?thesis by (auto simp: readline_def dest: readline_loop_consumes)
  next
    case False
    with assms c obtain cur where cur: "skip_newlines (s_ATBuffer r) (s_ATBufferCur r) = Inr cur"
      by (auto simp: readline_def seqO_eq_Inr)
    from False assms c cur obtain p_eol where eol: "findNextEOL (s_ATBuffer r) cur = Inr p_eol"
      by (auto simp: readline_def seqO_eq_Inr)
    show ?thesis
    proof (cases p_eol)
      case None
      with False assms c cur eol show ?thesis
        by (auto simp: readline_def Let_def dest: readline_loop_consumes)
    next
      case (Some e)
      with False assms c cur eol show ?thesis
        using skip_newlines_ge[OF cur] findNextEOL_ge[of "s_ATBuffer r" cur e]
        by (auto simp: readline_def unread_size_def take_line_def Let_def)
    qed
  qed
qed

function readerLoop :: "('z chan_scheme) at_env \<Rightarrow> nat \<Rightarrow> reader \<Rightarrow> read_ev list \<Rightarrow> 'z chan_scheme \<Rightarrow> 'z chan_scheme outcome" where
  "readerLoop env cap rd reads ch =
     seqO (readline cap rd reads) (\<lambda>(line, rd1, reads1).
       case line of
         None \<Rightarrow> onReaderClosed env ch
       | Some line1 \<Rightarrow>
           if isSMSUnsolicited line1 then
             seqO (readline cap rd1 reads1) (\<lambda>(line, rd2, reads2).
               case line of
                 None \<Rightarrow> onReaderClosed env ch
               | Some line2 \<Rightarrow> readerLoop env cap rd2 reads2 (sms_unsolicited line1 line2 ch))
           else seqO (processLine line1 ch) (readerLoop env cap rd1 reads1))"
  by pat_completeness auto
termination
  by (relation "inv_image (less_than <*lex*> less_than) (\<lambda>(env, cap, rd, rs, ch). (script_size rs, unread_size rd))")
    (auto dest!: readline_progress)

declare readerLoop.simps [simp del]

section \<open>Its input as a schedule\<close>

text \<open>The events the input gives, and how the thread stops when it does not end.\<close>

definition after_event :: "chan_ev \<Rightarrow> chan_ev list \<times> stop option \<Rightarrow> chan_ev list \<times> stop option" where
  "after_event e res = (e # fst res, snd res)"

function events_of :: "nat \<Rightarrow> reader \<Rightarrow> read_ev list \<Rightarrow> chan_ev list \<times> stop option" where
  "events_of cap rd reads = (case readline cap rd reads of
       Inl e \<Rightarrow> ([], Some e)
     | Inr (None, _) \<Rightarrow> ([EvReaderEnd, EvCloseCallback], None)
     | Inr (Some line1, rd1, reads1) \<Rightarrow>
         if isSMSUnsolicited line1 then
           (case readline cap rd1 reads1 of
              Inl e \<Rightarrow> ([], Some e)
            | Inr (None, _) \<Rightarrow> ([EvReaderEnd, EvCloseCallback], None)
            | Inr (Some line2, rd2, reads2) \<Rightarrow> after_event (EvSms line1 line2) (events_of cap rd2 reads2))
         else after_event (EvLine line1) (events_of cap rd1 reads1))"
  by pat_completeness auto
termination
  by (relation "inv_image (less_than <*lex*> less_than) (\<lambda>(cap, rd, rs). (script_size rs, unread_size rd))")
    (auto dest!: readline_progress)

declare events_of.simps [simp del]

fun run_events :: "('z chan_scheme) at_env \<Rightarrow> chan_ev list \<Rightarrow> 'z chan_scheme \<Rightarrow> 'z chan_scheme outcome" where
  "run_events env [] ch = Inr ch"
| "run_events env (e # es) ch = seqO (reader_event env e ch) (run_events env es)"

lemma run_closed [simp]: "run_events env [EvReaderEnd, EvCloseCallback] ch = onReaderClosed env ch"
  by (cases "onReaderClosed env ch") (simp_all add: onReaderClosed_def)

definition stop_with :: "stop option \<Rightarrow> 'a \<Rightarrow> 'a outcome" where
  "stop_with st x = (case st of None \<Rightarrow> Inr x | Some e \<Rightarrow> Inl e)"

lemma seqO_stop_None [simp]: "seqO m (stop_with None) = m"
  by (cases m) (simp_all add: stop_with_def)

lemma readerLoop_schedule:
  "readerLoop env cap rd reads ch =
     seqO (run_events env (fst (events_of cap rd reads)) ch) (stop_with (snd (events_of cap rd reads)))"
proof (induction env cap rd reads ch rule: readerLoop.induct)
  case (1 env cap rd reads ch)
  show ?case
  proof (cases "readline cap rd reads")
    case (Inl e)
    then show ?thesis by (subst readerLoop.simps, subst (1 2) events_of.simps) (simp add: stop_with_def)
  next
    case (Inr res)
    obtain l rd1 reads1 where res: "res = (l, rd1, reads1)" by (cases res)
    show ?thesis
    proof (cases l)
      case None
      with Inr res show ?thesis
        by (subst readerLoop.simps, subst (1 2) events_of.simps) (simp del: run_events.simps)
    next
      case (Some line1)
      show ?thesis
      proof (cases "isSMSUnsolicited line1")
        case False
        note IH = 1(2)[OF Inr res[symmetric] refl Some False]
        with Some Inr res False show ?thesis
          by (subst readerLoop.simps, subst (1 2) events_of.simps)
            (simp add: after_event_def seqO_assoc cong: seqO_cong)
      next
        case True
        show ?thesis
        proof (cases "readline cap rd1 reads1")
          case (Inl e)
          with Some Inr res True show ?thesis
            by (subst readerLoop.simps, subst (1 2) events_of.simps) (simp add: stop_with_def)
        next
          case i2: (Inr res2)
          obtain l2 rd2 reads2 where res2: "res2 = (l2, rd2, reads2)" by (cases res2)
          show ?thesis
          proof (cases l2)
            case None
            with Some Inr res True i2 res2 show ?thesis
              by (subst readerLoop.simps, subst (1 2) events_of.simps) (simp del: run_events.simps)
          next
            case s2: (Some line2)
            with 1(1)[OF Inr res[symmetric] refl Some True i2 res2[symmetric] refl s2] Some Inr res True i2 res2 show ?thesis
              by (subst readerLoop.simps, subst (1 2) events_of.simps) (simp add: after_event_def)
          qed
        qed
      qed
    qed
  qed
qed

text \<open> C12.
  \<open>readerLoop_is_schedule\<close>: the reader thread does to the channel what the events of its input do
  in their order, each one \<open>processLine\<close>, one SMS call or the end of the thread, and stops where
  the input stops; which events these are does not depend on the state of the channel.
\<close>

theorem readerLoop_is_schedule:
  "readerLoop env cap rd reads ch =
     seqO (run_events env (fst (events_of cap rd reads)) ch) (stop_with (snd (events_of cap rd reads)))"
  by (rule readerLoop_schedule)

section \<open>The lines of a clean stream\<close>

lemma next_line_None_append: "next_line (s @ t) = None \<Longrightarrow> next_line s = None"
  using next_line_append[of s] by (cases "next_line s") fastforce+

lemma next_line_None_suffix:
  "next_line (pend @ t) = None \<Longrightarrow> \<forall>c \<in> set pend. \<not> is_nl c \<Longrightarrow> next_line t = None"
proof (cases pend)
  case (Cons c p)
  assume "next_line (pend @ t) = None" "\<forall>c \<in> set pend. \<not> is_nl c"
  with Cons have "\<forall>c \<in> set t. \<not> is_nl c"
    by (auto simp: next_line_def dropWhile_append split: list.splits if_splits)
  then have "dropWhile (\<lambda>c. \<not> is_nl c) (dropWhile is_nl t) = []" by (auto dest: set_dropWhileD)
  then show ?thesis by (simp only: next_line_def list.case)
qed simp

lemma abs_loop_blocks:
  "data_only rs \<Longrightarrow> NUL \<notin> set pend \<union> set (stream rs) \<Longrightarrow> \<forall>c \<in> set pend. \<not> is_nl c
    \<Longrightarrow> next_line (pend @ stream rs) = None \<Longrightarrow> off + length pend \<le> cap \<Longrightarrow> cap \<noteq> 0
    \<Longrightarrow> abs_loop cap off pend rs = Inl Blocked"
proof (induction "script_size rs" arbitrary: off pend rs rule: less_induct)
  case less
  obtain off0 pend0 where d: "abs_ditch cap off pend = (off0, pend0)" by fastforce
  have nf: "off0 + length pend0 < cap" and nul: "NUL \<notin> set pend0 \<union> set (stream rs)"
    and nl: "next_line (pend0 @ stream rs) = None" and p0: "\<forall>c \<in> set pend0. \<not> is_nl c"
    using d less.prems next_line_None_suffix by (auto simp: abs_ditch_def split: if_splits)
  have "abs_loop cap off0 pend0 rs = Inl Blocked"
  proof (cases "sys_read (cap - (off0 + length pend0)) rs = Inl Blocked")
    case True
    with nf show ?thesis using abs_no_chunk[of cap off0 pend0 rs "Inl Blocked"] by simp
  next
    case False
    then obtain c cs rs' where got: "sys_read (cap - (off0 + length pend0)) rs = Inr (Some (c # cs), rs')"
      and st: "c # cs @ stream rs' = stream rs" and rs': "data_only rs'"
      using sys_read_data[OF less.prems(1), of "cap - (off0 + length pend0)"] nf by auto
    define s where "s = pend0 @ c # cs"
    have all: "s @ stream rs' = pend0 @ stream rs" by (simp add: s_def flip: st)
    have nul': "NUL \<notin> set s \<union> set (stream rs')" using nul all by (metis set_append)
    have none: "next_line s = None" using next_line_None_append nl all by metis
    have "length (c # cs) \<le> cap - (off0 + length pend0)" by (rule sys_read_length[OF got])
    then have len: "off0 + length s \<le> cap" using nf by (simp add: s_def)
    have "abs_loop cap (off0 + length (takeWhile is_nl s)) (dropWhile is_nl s) rs' = Inl Blocked"
    proof (rule less.hyps[OF sys_read_size[OF got] rs'])
      show "NUL \<notin> set (dropWhile is_nl s) \<union> set (stream rs')" using nul' by (auto dest: set_dropWhileD)
      show "\<forall>c \<in> set (dropWhile is_nl s). \<not> is_nl c" by (rule next_line_None[OF none])
      show "next_line (dropWhile is_nl s @ stream rs') = None" using nl all by (simp add: next_line_skip)
      show "off0 + length (takeWhile is_nl s) + length (dropWhile is_nl s) \<le> cap"
        using len length_takeWhile_dropWhile[of is_nl s] by simp
    qed (use less.prems in simp)
    with abs_chunk_step[OF got, folded s_def] nf none nul' show ?thesis by (simp add: cut_line_next)
  qed
  with abs_loop_ditch[OF less.prems(6) d] show ?case by simp
qed

lemma abs_readline_blocks:
  assumes "data_only rs" "NUL \<notin> set pend \<union> set (stream rs)" "next_line (pend @ stream rs) = None"
    "length pend \<le> cap" "cap \<noteq> 0"
  shows "abs_readline cap pend rs = Inl Blocked"
proof (cases "pend = []")
  case True
  with assms abs_loop_blocks[of rs "[]" 0 cap] show ?thesis by (simp add: abs_readline_def)
next
  case False
  then have hd: "hd pend \<noteq> NUL" using assms(2) by (metis Un_iff hd_in_set)
  define s where "s = dropWhile is_nl pend"
  have none: "next_line pend = None" using assms(3) by (rule next_line_None_append)
  have "NUL \<notin> set s" using assms(2) by (auto simp: s_def dest: set_dropWhileD)
  moreover have "cut_line s = None" using assms(2) none by (simp add: s_def cut_line_next)
  moreover have "abs_loop cap 0 s rs = Inl Blocked"
    using assms next_line_None[OF none] \<open>NUL \<notin> set s\<close> length_dropWhile_le[of is_nl pend]
    by (intro abs_loop_blocks) (auto simp: s_def next_line_skip)
  ultimately show ?thesis using False hd by (simp add: abs_readline_def flip: s_def)
qed

text \<open>The events of a list of lines: an SMS header waits for the line behind it.\<close>

fun pair_sms :: "string list \<Rightarrow> chan_ev list" where
  "pair_sms [] = []"
| "pair_sms [l] = (if isSMSUnsolicited l then [] else [EvLine l])"
| "pair_sms (l # l2 # ls) = (if isSMSUnsolicited l then EvSms l l2 # pair_sms ls else EvLine l # pair_sms (l2 # ls))"

text \<open>The input state of the reader: what is unread, with the stream behind it.\<close>

definition feeds :: "nat \<Rightarrow> reader \<Rightarrow> read_ev list \<Rightarrow> string \<Rightarrow> bool" where
  "feeds cap r rs S \<longleftrightarrow> (\<exists>pend. unread cap r pend \<and> S = pend @ stream rs) \<and> data_only rs \<and> clean S \<and> fits cap S \<and> cap \<noteq> 0"

lemma segs_simp: "segs S = (case next_line S of None \<Rightarrow> [] | Some (l, r) \<Rightarrow> (length S - length r, l) # segs r)"
  by (rule segs.simps)

lemma readline_feeds:
  assumes "feeds cap r rs S"
  shows "case next_line S of None \<Rightarrow> readline cap r rs = Inl Blocked
    | Some (l, rest) \<Rightarrow> (\<exists>r' rs'. readline cap r rs = Inr (Some l, r', rs') \<and> feeds cap r' rs' rest)"
proof -
  obtain pend where un: "unread cap r pend" and S: "S = pend @ stream rs" and d: "data_only rs" and cl: "clean S"
    and ft: "fits cap S" and cap: "cap \<noteq> 0"
    using assms by (auto simp: feeds_def)
  have nul: "NUL \<notin> set pend \<union> set (stream rs)" "CHR ''>'' \<notin> set pend" "no_prompt rs"
    using cl clean_no_prompt[of rs] by (auto simp: clean_def S)
  note sim = readline_simulates[OF cap un nul(2,3)]
  show ?thesis
  proof (cases "next_line S")
    case None
    have "length pend \<le> cap" using un by (auto simp: unread_def)
    with None show ?thesis
      using sim abs_readline_blocks[OF d nul(1)] cap by (simp add: S same_line_def)
  next
    case (Some lr)
    then obtain l rest where nl: "next_line S = Some (l, rest)" by (cases lr) auto
    then have sg: "segs S = (length S - length rest, l) # segs rest" by (subst segs_simp) simp
    then have fit: "length (pend @ stream rs) - length rest \<le> cap" and fits: "fits cap rest"
      using ft by (simp_all add: fits_def S)
    have "clean rest" using next_line_less[OF nl] cl by (auto simp: clean_def)
    with abs_readline_line[OF d nul(1) nl[unfolded S] fit] sim fits cap nl show ?thesis
      by (fastforce simp: same_line_def feeds_def)
  qed
qed

text \<open>
  The whole reader thread on a clean stream.
\<close>

lemma events_of_feeds:
  "feeds cap r rs S \<Longrightarrow> events_of cap r rs = (pair_sms (map snd (segs S)), Some Blocked)"
proof (induction "length S" arbitrary: S r rs rule: less_induct)
  case less
  note rl = readline_feeds[OF less.prems]
  show ?case
  proof (cases "next_line S")
    case None
    with rl show ?thesis by (subst events_of.simps, subst segs_simp) simp
  next
    case (Some lr)
    then obtain l rest where nl: "next_line S = Some (l, rest)" by (cases lr) auto
    with rl obtain r' rs' where r': "readline cap r rs = Inr (Some l, r', rs')" and fd: "feeds cap r' rs' rest" by auto
    have sg: "segs S = (length S - length rest, l) # segs rest" using nl by (subst segs_simp) simp
    have len: "length rest < length S" using next_line_less[OF nl] by simp
    note IH = less.hyps[OF len fd]
    note rl2 = readline_feeds[OF fd]
    show ?thesis
    proof (cases "isSMSUnsolicited l")
      case False
      with r' IH sg show ?thesis
        by (subst events_of.simps, cases "map snd (segs rest)") (auto simp: after_event_def)
    next
      case True
      show ?thesis
      proof (cases "next_line rest")
        case None
        with rl2 True r' sg show ?thesis by (subst events_of.simps, subst (asm) (2) segs_simp) simp
      next
        case (Some lr2)
        then obtain l2 rest2 where nl2: "next_line rest = Some (l2, rest2)" by (cases lr2) auto
        with rl2 obtain r2 rs2 where r2: "readline cap r' rs' = Inr (Some l2, r2, rs2)" and fd2: "feeds cap r2 rs2 rest2" by auto
        have "segs rest = (length rest - length rest2, l2) # segs rest2" using nl2 by (subst segs_simp) simp
        moreover have "length rest2 < length S" using next_line_less[OF nl2] len by simp
        ultimately show ?thesis
          using less.hyps[OF _ fd2] True r' r2 sg by (subst events_of.simps) (simp add: after_event_def)
      qed
    qed
  qed
qed

section \<open>The end of the input\<close>

text \<open>More input behind a script that did not run out changes nothing, and where it ran out the thread sees its end.\<close>

lemma sys_read_more:
  "sys_read n rs = Inr (g, rs') \<Longrightarrow> sys_read n (rs @ ts) = Inr (g, rs' @ ts)"
  "sys_read n rs = Inl e \<Longrightarrow> e = Blocked \<and> sys_read n (rs @ ts) = sys_read n ts"
  by (induction n rs rule: sys_read.induct) (auto split: if_splits)

lemma scan_eol_stop: "scan_eol b i \<noteq> Inl Blocked"
  by (induction b i rule: scan_eol.induct) (subst scan_eol.simps, simp)

lemma skip_newlines_stop: "skip_newlines b i \<noteq> Inl Blocked"
  by (induction b i rule: skip_newlines.induct) (subst skip_newlines.simps, simp)

lemma findNextEOL_stop: "findNextEOL b i \<noteq> Inl Blocked"
  using scan_eol_stop[of b i] by (auto simp: findNextEOL_def at_prompt_def buf_at_def seqO_eq_Inl)

lemma readline_loop_more:
  "(readline_loop cap r p rs = Inr (l, r', rs') \<longrightarrow> readline_loop cap r p (rs @ ts) = Inr (l, r', rs' @ ts)) \<and>
   (readline_loop cap r p rs = Inl Blocked \<longrightarrow> (\<exists>r'. readline_loop cap r p (rs @ [ReadError]) = Inr (None, r', [])))"
proof (induction "script_size rs" arbitrary: r p rs rule: less_induct)
  case less
  define r0 where "r0 = (if p = cap then r\<lparr>s_ATBuffer := (s_ATBuffer r)[0 := NUL], s_ATBufferCur := 0\<rparr> else r)"
  define p0 where "p0 = (if p = cap then 0 else p)"
  note run = readline_loop.simps[of cap r p, unfolded Let_def, folded p0_def r0_def]
  show ?case
  proof (cases "sys_read (cap - p0) rs")
    case (Inl e)
    then show ?thesis using sys_read_more(2)[OF Inl, of "[ReadError]"] by (simp add: run)
  next
    case (Inr res)
    obtain got rs1 where res: "res = (got, rs1)" by (cases res)
    note more = sys_read_more(1)[OF Inr[unfolded res]]
    show ?thesis
    proof (cases "got = None \<or> got = Some []")
      case True
      then show ?thesis using more Inr res by (auto simp: run)
    next
      case False
      then obtain c cs where g: "got = Some (c # cs)" by (metis list.exhaust not_None_eq)
      have s: "script_size rs1 < script_size rs" using sys_read_size Inr res g by blast
      show ?thesis
        using less[OF s] skip_newlines_stop findNextEOL_stop
        unfolding run more Inr res g seqO_Inr prod.case option.case list.case
        by (auto simp: seqO_eq_Inr seqO_eq_Inl split: if_splits option.splits prod.splits)
    qed
  qed
qed

lemma readline_more:
  "readline cap r rs = Inr (l, r', rs') \<Longrightarrow> readline cap r (rs @ ts) = Inr (l, r', rs' @ ts)"
  "readline cap r rs = Inl Blocked \<Longrightarrow> \<exists>r'. readline cap r (rs @ [ReadError]) = Inr (None, r', [])"
proof -
  have "(readline cap r rs = Inr (l, r', rs') \<longrightarrow> readline cap r (rs @ ts) = Inr (l, r', rs' @ ts)) \<and>
    (readline cap r rs = Inl Blocked \<longrightarrow> (\<exists>r'. readline cap r (rs @ [ReadError]) = Inr (None, r', [])))"
  proof (cases "buf_at (s_ATBuffer r) (s_ATBufferCur r)")
    case (Inl e)
    then show ?thesis by (simp add: readline_def buf_at_def split: if_splits)
  next
    case (Inr c)
    show ?thesis
    proof (cases "c = NUL")
      case True
      show ?thesis unfolding readline_def Inr seqO_Inr if_P[OF True] by (rule readline_loop_more)
    next
      case False
      show ?thesis
      proof (cases "skip_newlines (s_ATBuffer r) (s_ATBufferCur r)")
        case (Inl e)
        then show ?thesis using Inr False skip_newlines_stop[of "s_ATBuffer r" "s_ATBufferCur r"] by (simp add: readline_def)
      next
        case cur: (Inr cur)
        show ?thesis
        proof (cases "findNextEOL (s_ATBuffer r) cur")
          case (Inl e)
          then show ?thesis using Inr False cur findNextEOL_stop[of "s_ATBuffer r" cur] by (simp add: readline_def)
        next
          case eol: (Inr eol)
          note rl = readline_def Inr if_not_P[OF False] cur eol seqO_Inr Let_def
          show ?thesis
          proof (cases eol)
            case None
            show ?thesis unfolding rl None option.case by (rule readline_loop_more)
          next
            case (Some x)
            show ?thesis unfolding rl Some option.case by (auto split: prod.split)
          qed
        qed
      qed
    qed
  qed
  then show "readline cap r rs = Inr (l, r', rs') \<Longrightarrow> readline cap r (rs @ ts) = Inr (l, r', rs' @ ts)"
    "readline cap r rs = Inl Blocked \<Longrightarrow> \<exists>r'. readline cap r (rs @ [ReadError]) = Inr (None, r', [])" by blast+
qed

lemma events_of_end:
  "events_of cap r rs = (es, Some Blocked) \<Longrightarrow> events_of cap r (rs @ [ReadError]) = (es @ [EvReaderEnd, EvCloseCallback], None)"
proof (induction cap r rs arbitrary: es rule: events_of.induct)
  case (1 cap r rs)
  note run = 1(3)[unfolded events_of.simps[of cap r rs]]
  consider (blocked) "readline cap r rs = Inl Blocked" "es = []"
    | (sms) l1 r1 rs1 r2 rs2 l2 es2 where "readline cap r rs = Inr (Some l1, r1, rs1)" "isSMSUnsolicited l1"
      "readline cap r1 rs1 = Inr (Some l2, r2, rs2)" "events_of cap r2 rs2 = (es2, Some Blocked)" "es = EvSms l1 l2 # es2"
    | (half) l1 r1 rs1 where "readline cap r rs = Inr (Some l1, r1, rs1)" "isSMSUnsolicited l1" "readline cap r1 rs1 = Inl Blocked" "es = []"
    | (line) l1 r1 rs1 es1 where "readline cap r rs = Inr (Some l1, r1, rs1)" "\<not> isSMSUnsolicited l1"
      "events_of cap r1 rs1 = (es1, Some Blocked)" "es = EvLine l1 # es1"
    using run by (auto simp: after_event_def split: sum.splits prod.splits option.splits if_splits) (metis prod.collapse)+
  then show ?case
  proof cases
    case blocked
    then show ?thesis using readline_more(2)[of cap r rs] by (subst events_of.simps) auto
  next
    case sms
    then show ?thesis using 1(1)[OF sms(1) refl refl refl sms(2,3) refl refl refl sms(4)] readline_more(1)
      by (subst events_of.simps) (simp add: after_event_def)
  next
    case half
    then show ?thesis using readline_more(2)[of cap r1 rs1] readline_more(1)[OF half(1)] by (subst events_of.simps) auto
  next
    case line
    then show ?thesis using 1(2)[OF line(1) refl refl refl line(2,3)] readline_more(1)
      by (subst events_of.simps) (simp add: after_event_def)
  qed
qed

text \<open>
  What the lines of a stream mean to the channel, one after the other: the line behind the header
  of an SMS is its text, and the two go to the unsolicited handler together; a header without a
  text is dropped.
\<close>

definition sms_header :: "string \<Rightarrow> bool" where
  "sms_header l \<longleftrightarrow> prefix ''+CMT:'' l \<or> prefix ''+CDS:'' l \<or> prefix ''+CBM:'' l"

fun take_lines :: "string list \<Rightarrow> 'z chan_scheme \<Rightarrow> 'z chan_scheme outcome" where
  "take_lines [] ch = Inr ch"
| "take_lines [l] ch = (if sms_header l then Inr ch else processLine l ch)"
| "take_lines (l # l2 # ls) ch = (if sms_header l then take_lines ls (sms_unsolicited l l2 ch)
     else seqO (processLine l ch) (take_lines (l2 # ls)))"

lemma sms_header_iff: "isSMSUnsolicited l = sms_header l"
  by (simp add: isSMSUnsolicited_def s_smsUnsoliciteds_def sms_header_def strStartsWith_iff)

lemma run_pairs: "run_events env (pair_sms ls @ es) ch = seqO (take_lines ls ch) (run_events env es)"
  by (induction ls arbitrary: ch rule: pair_sms.induct) (auto simp: sms_header_iff seqO_assoc cong: seqO_cong)

text \<open> C8.
  \<open>reader_thread_delivers_stream\<close>: on input without NUL and \<open>>\<close> whose lines fit the buffer, which
  \<open>read\<close> delivers in any pieces and with any interruptions until it fails, the reader thread hands
  the channel exactly the lines of the stream in their order, the line behind the header of an SMS
  together with the header, and then runs \<open>onReaderClosed\<close>; characters behind the last line end
  are dropped.
\<close>

theorem reader_thread_delivers_stream:
  assumes "cap \<noteq> 0" "data_only rs" "clean (stream rs)" "fits cap (stream rs)"
  shows "readerLoop env cap (reader_init cap) (rs @ [ReadError]) ch = seqO (take_lines (map snd (segs (stream rs))) ch) (onReaderClosed env)"
proof -
  have "feeds cap (reader_init cap) rs (stream rs)" unfolding feeds_def using assms unread_init[of cap] by fastforce
  note es = events_of_end[OF events_of_feeds[OF this]]
  have "run_events env [EvReaderEnd, EvCloseCallback] = onReaderClosed env" by (intro ext) (rule run_closed)
  then show ?thesis by (simp only: readerLoop_schedule es fst_conv snd_conv seqO_stop_None run_pairs)
qed

lemma reader_thread_delivers_stream_witness:
  "\<exists>ch'. readerLoop demo_env 32 (reader_init 32)
     ([Bytes ''+CMT: 1'', ReadEINTR, Bytes (CR # LF # ''07911326''), Bytes (CR # ''+CREG: 1''), Bytes (CR # ''+C'')] @ [ReadError]) (demo_chan []) = Inr ch' \<and>
   unsol ch' = [(''+CMT: 1'', Some ''07911326''), (''+CREG: 1'', None)] \<and> s_readerClosed ch'"
proof -
  let ?rs = "[Bytes ''+CMT: 1'', ReadEINTR, Bytes (CR # LF # ''07911326''), Bytes (CR # ''+CREG: 1''), Bytes (CR # ''+C'')]"
  have l: "map snd (segs (stream ?rs)) = [''+CMT: 1'', ''07911326'', ''+CREG: 1'']" by (simp add: segs.simps next_line_def is_nl_def)
  have ok: "(32::nat) \<noteq> 0" "data_only ?rs" "clean (stream ?rs)" "fits 32 (stream ?rs)"
    by (simp_all add: segs.simps next_line_def is_nl_def fits_def clean_def)
  show ?thesis unfolding reader_thread_delivers_stream[OF ok] l
    by (simp add: sms_header_def sms_unsolicited_def processLine_def demo_chan_def handleUnsolicited_def onReaderClosed_def
        reader_closed_signal_def reader_closed_callback_def demo_env_def at_close_def)
qed

end
