(* ===== verification/Tgm_Interface.thy ===== *)
theory Tgm_Interface
  imports Main
begin

text \<open>
  The interface \<open>include/datanetwork/tgm.h\<close> between the daemon and a modem driver: radio states,
  error codes and their numbers, SIM states, request numbers and unsolicited codes.
\<close>

datatype TGM_RadioState =
    TGM_STATE_OFF | TGM_STATE_UNAVAILABLE | TGM_STATE_SIM_NOT_READY | TGM_STATE_SIM_LOCKED_OR_ABSENT
  | TGM_STATE_SIM_READY | TGM_STATE_PPPD | TGM_STATE_PPPD_READY

datatype TGM_Errno =
    TGM_E_SUCCESS | TGM_E_RADIO_NOT_AVAILABLE | TGM_E_GENERIC_FAILURE | TGM_E_PASSWORD_INCORRECT
  | TGM_E_SIM_PIN2 | TGM_E_SIM_PUK2 | TGM_E_REQUEST_NOT_SUPPORTED | TGM_E_CANCELLED
  | TGM_E_OP_NOT_ALLOWED_DURING_VOICE_CALL | TGM_E_OP_NOT_ALLOWED_BEFORE_REG_TO_NW
  | TGM_E_SMS_SEND_FAIL_RETRY | TGM_E_OP_NOT_ALLOWED_DURING_PPPD

text \<open>The numbers C gives to the constructors of the two enumerations.\<close>

fun radio_state_code :: "TGM_RadioState \<Rightarrow> int" where
  "radio_state_code TGM_STATE_OFF = 0"
| "radio_state_code TGM_STATE_UNAVAILABLE = 1"
| "radio_state_code TGM_STATE_SIM_NOT_READY = 2"
| "radio_state_code TGM_STATE_SIM_LOCKED_OR_ABSENT = 3"
| "radio_state_code TGM_STATE_SIM_READY = 4"
| "radio_state_code TGM_STATE_PPPD = 5"
| "radio_state_code TGM_STATE_PPPD_READY = 6"

fun errno_code :: "TGM_Errno \<Rightarrow> int" where
  "errno_code TGM_E_SUCCESS = 0"
| "errno_code TGM_E_RADIO_NOT_AVAILABLE = 1"
| "errno_code TGM_E_GENERIC_FAILURE = 2"
| "errno_code TGM_E_PASSWORD_INCORRECT = 3"
| "errno_code TGM_E_SIM_PIN2 = 4"
| "errno_code TGM_E_SIM_PUK2 = 5"
| "errno_code TGM_E_REQUEST_NOT_SUPPORTED = 6"
| "errno_code TGM_E_CANCELLED = 7"
| "errno_code TGM_E_OP_NOT_ALLOWED_DURING_VOICE_CALL = 8"
| "errno_code TGM_E_OP_NOT_ALLOWED_BEFORE_REG_TO_NW = 9"
| "errno_code TGM_E_SMS_SEND_FAIL_RETRY = 10"
| "errno_code TGM_E_OP_NOT_ALLOWED_DURING_PPPD = 11"

lemma errno_success [simp]: "errno_code e = 0 \<longleftrightarrow> e = TGM_E_SUCCESS"
  by (cases e) auto

definition TGM_SIM_ABSENT :: int where "TGM_SIM_ABSENT = 0"
definition TGM_SIM_NOT_READY :: int where "TGM_SIM_NOT_READY = 1"
definition TGM_SIM_READY :: int where "TGM_SIM_READY = 2"
definition TGM_SIM_PIN :: int where "TGM_SIM_PIN = 3"
definition TGM_SIM_PUK :: int where "TGM_SIM_PUK = 4"
definition TGM_SIM_NETWORK_PERSONALIZATION :: int where "TGM_SIM_NETWORK_PERSONALIZATION = 5"

lemmas sim_codes = TGM_SIM_ABSENT_def TGM_SIM_NOT_READY_def TGM_SIM_READY_def TGM_SIM_PIN_def
  TGM_SIM_PUK_def TGM_SIM_NETWORK_PERSONALIZATION_def

section \<open>Requests\<close>

definition TGM_REQUEST_SET_PDP_CONTEXT :: int where "TGM_REQUEST_SET_PDP_CONTEXT = 1"
definition TGM_REQUEST_SET_PIN_CODE :: int where "TGM_REQUEST_SET_PIN_CODE = 2"
definition TGM_REQUEST_DIAL_DATA_NETWORK :: int where "TGM_REQUEST_DIAL_DATA_NETWORK = 3"
definition TGM_REQUEST_DISCONNECT_DATA_NETWORK :: int where "TGM_REQUEST_DISCONNECT_DATA_NETWORK = 4"
definition TGM_REQUEST_QUERY_SIGNAL_STRENGTH :: int where "TGM_REQUEST_QUERY_SIGNAL_STRENGTH = 5"
definition TGM_REQUEST_QUERY_IMEI :: int where "TGM_REQUEST_QUERY_IMEI = 6"
definition TGM_REQUEST_QUERY_MANUFACTURER :: int where "TGM_REQUEST_QUERY_MANUFACTURER = 7"
definition TGM_REQUEST_QUERY_OPERATOR :: int where "TGM_REQUEST_QUERY_OPERATOR = 8"
definition TGM_REQUEST_QUERY_PDP_CONTEXT_LIST :: int where "TGM_REQUEST_QUERY_PDP_CONTEXT_LIST = 9"
definition TGM_REQUEST_QUERY_MODEM_MODEL :: int where "TGM_REQUEST_QUERY_MODEM_MODEL = 10"
definition TGM_REQUEST_QUERY_SIM_STATUS :: int where "TGM_REQUEST_QUERY_SIM_STATUS = 11"
definition TGM_REQUEST_QUERY_IMSI :: int where "TGM_REQUEST_QUERY_IMSI = 12"
definition TGM_REQUEST_QUERY_NUMBER :: int where "TGM_REQUEST_QUERY_NUMBER = 13"
definition TGM_REQUEST_QUERY_STATE :: int where "TGM_REQUEST_QUERY_STATE = 14"
definition TGM_REQUEST_RESET_STACK :: int where "TGM_REQUEST_RESET_STACK = 15"
definition TGM_REQUEST_SET_PPPD_AUTH :: int where "TGM_REQUEST_SET_PPPD_AUTH = 16"

section \<open>Unsolicited responses\<close>

definition TGM_UNSOLICITED_BASE :: int where "TGM_UNSOLICITED_BASE = 1000"
definition TGM_UNSOLICITED_DEVICE_DETECTED :: int where "TGM_UNSOLICITED_DEVICE_DETECTED = 1000"
definition TGM_UNSOLICITED_DEVICE_REMOVED :: int where "TGM_UNSOLICITED_DEVICE_REMOVED = 1001"
definition TGM_UNSOLICITED_SIGNAL_STRENGTH :: int where "TGM_UNSOLICITED_SIGNAL_STRENGTH = 1002"
definition TGM_UNSOLICITED_RADIO_STATE_CHANGED :: int where "TGM_UNSOLICITED_RADIO_STATE_CHANGED = 1003"
definition TGM_UNSOLICITED_PPPD_CONNECTED :: int where "TGM_UNSOLICITED_PPPD_CONNECTED = 1004"
definition TGM_UNSOLICITED_PPPD_DISCONNECTED :: int where "TGM_UNSOLICITED_PPPD_DISCONNECTED = 1005"
definition TGM_UNSOLICITED_PPPD_FAILED :: int where "TGM_UNSOLICITED_PPPD_FAILED = 1006"

definition TGM_VERSION :: int where "TGM_VERSION = 1"

lemmas request_codes =
  TGM_REQUEST_SET_PDP_CONTEXT_def TGM_REQUEST_SET_PIN_CODE_def TGM_REQUEST_DIAL_DATA_NETWORK_def
  TGM_REQUEST_DISCONNECT_DATA_NETWORK_def TGM_REQUEST_QUERY_SIGNAL_STRENGTH_def TGM_REQUEST_QUERY_IMEI_def
  TGM_REQUEST_QUERY_MANUFACTURER_def TGM_REQUEST_QUERY_OPERATOR_def TGM_REQUEST_QUERY_MODEM_MODEL_def
  TGM_REQUEST_QUERY_SIM_STATUS_def TGM_REQUEST_QUERY_IMSI_def TGM_REQUEST_QUERY_NUMBER_def
  TGM_REQUEST_QUERY_STATE_def TGM_REQUEST_RESET_STACK_def TGM_REQUEST_SET_PPPD_AUTH_def

end
