(* ===== verification/Huawei_State.thy ===== *)
theory Huawei_State
  imports At_Loop Tgm_Interface
begin

text \<open>
  The Huawei modem driver \<open>huawei_tgm/huawei-tgm.c\<close>, part one: its state on top of the AT
  channel, the radio state and its changes, the callbacks it installs on the channel, the
  SIM state machine (\<open>setRadioState\<close>, \<open>onRadioPowerOn\<close>, \<open>pollSIMState\<close>, \<open>getSIMStatus\<close>,
  which call each other) and the initialisation of the modem.

  The functions of \<open>TGM_Env\<close> the driver calls are recorded: completions of requests,
  unsolicited responses and timed callbacks, in their order.
\<close>

section \<open>State\<close>

text \<open>What a completion carries.\<close>

datatype payload =
    NoData | StrData string | StrsData "string option list" | IntData int | IntsData "int list" | StateData TGM_RadioState

datatype timed_cb = InitializeCallback | PollSIMState

type_synonym token = nat

text \<open>
  A carrier buffer: the heap block, or the address \<open>TGM_Init\<close> computes with an index behind the
  end of the pointer array.
\<close>

datatype carrier_buf = Heap string | Outside nat

record modem = chan +
  sState :: TGM_RadioState
  s_closed :: bool
  dev_fd :: int
  username :: string
  password :: string
  cachedCarrier :: "carrier_buf list"
  cachedManufacturer :: string
  cachedModel :: string
  pppd_process_id :: int
  pppd_fail_times :: nat
  completions :: "(token \<times> TGM_Errno \<times> payload) list"
  notices :: "int list"
  timed :: "(timed_cb \<times> int) list"
  properties_set :: "(string \<times> string option) list"
  terminated :: "int list"

definition TGM_onRequestComplete :: "token \<Rightarrow> TGM_Errno \<Rightarrow> payload \<Rightarrow> modem \<Rightarrow> modem" where
  "TGM_onRequestComplete t e p m = m\<lparr>completions := completions m @ [(t, e, p)]\<rparr>"

definition TGM_onUnsolicitedResponse :: "int \<Rightarrow> modem \<Rightarrow> modem" where
  "TGM_onUnsolicitedResponse a m = m\<lparr>notices := notices m @ [a]\<rparr>"

text \<open>The delay is in seconds: \<open>TIMEVAL_0\<close> and \<open>TIMEVAL_SIMPOLL\<close>.\<close>

definition TGM_requestTimedCallback :: "timed_cb \<Rightarrow> int \<Rightarrow> modem \<Rightarrow> modem" where
  "TGM_requestTimedCallback c delay m = m\<lparr>timed := timed m @ [(c, delay)]\<rparr>"

definition currentState :: "modem \<Rightarrow> TGM_RadioState" where
  "currentState m = sState m"

definition onSupports :: "int \<Rightarrow> int" where
  "onSupports requestCode = 1"

section \<open>The radio state\<close>

text \<open>The part of \<open>setRadioState\<close> under \<open>s_state_mutex\<close>; returns the old state too.\<close>

definition changeRadioState :: "TGM_RadioState \<Rightarrow> modem \<Rightarrow> modem \<times> TGM_RadioState" where
  "changeRadioState newState m =
     (let oldState = sState m;
          new' = (if s_closed m \<and> newState \<noteq> TGM_STATE_PPPD \<and> newState \<noteq> TGM_STATE_OFF \<and> newState \<noteq> TGM_STATE_PPPD_READY
                  then TGM_STATE_UNAVAILABLE else newState)
      in if sState m \<noteq> new' \<or> s_closed m
         then (let m1 = m\<lparr>sState := new'\<rparr>
               in (if new' \<noteq> oldState then TGM_onUnsolicitedResponse TGM_UNSOLICITED_RADIO_STATE_CHANGED m1 else m1, oldState))
         else (m, oldState))"

text \<open>\<open>setRadioState\<close> with the two functions it calls at its end.\<close>

definition setRadioState_with :: "(modem \<Rightarrow> modem outcome) \<Rightarrow> (modem \<Rightarrow> modem outcome) \<Rightarrow> TGM_RadioState \<Rightarrow> modem \<Rightarrow> modem outcome" where
  "setRadioState_with simReady powerOn newState m = (case changeRadioState newState m of (m', oldState) \<Rightarrow>
     if sState m' \<noteq> oldState then
       (if sState m' = TGM_STATE_SIM_READY then simReady m'
        else if sState m' = TGM_STATE_SIM_NOT_READY then powerOn m'
        else Inr m')
     else Inr m')"

text \<open>
  The callbacks on the channel. \<open>onATReaderClosed\<close> sets \<open>s_closed\<close> first, so its
  \<open>setRadioState\<close> never gets to the two functions, and \<open>Deep\<close> stands for them.
\<close>

definition onATReaderClosed :: "modem \<Rightarrow> modem outcome" where
  "onATReaderClosed m =
     (let m1 = (at_close m)\<lparr>s_closed := True, dev_fd := -1\<rparr>
      in if sState m1 \<noteq> TGM_STATE_PPPD \<and> sState m1 \<noteq> TGM_STATE_PPPD_READY
         then setRadioState_with (\<lambda>_. Inl Deep) (\<lambda>_. Inl Deep) TGM_STATE_UNAVAILABLE m1 else Inr m1)"

definition onATTimeout :: "modem \<Rightarrow> modem outcome" where
  "onATTimeout m = Inl Exited"

definition tgm_env :: "bool \<Rightarrow> modem at_env" where
  "tgm_env np = at_set_on_timeout onATTimeout (at_set_on_reader_closed onATReaderClosed
     \<lparr>USE_NP = np, s_onTimeout = None, s_onReaderClosed = None\<rparr>)"

section \<open>Radio and SIM\<close>

text \<open>The \<open>err < 0 || p_response->success == 0\<close> test.\<close>

definition failed :: "int \<Rightarrow> ATResponse option \<Rightarrow> bool outcome" where
  "failed err out = (if err < 0 then Inr True else (case out of None \<Rightarrow> Inl Undef | Some r \<Rightarrow> Inr (success r = 0)))"

text \<open>\<open>p_response->p_intermediates->line\<close>.\<close>

definition first_line :: "ATResponse option \<Rightarrow> string outcome" where
  "first_line out = (case out of None \<Rightarrow> Inl Undef
     | Some r \<Rightarrow> (case p_intermediates r of [] \<Rightarrow> Inl Undef | line # _ \<Rightarrow> Inr line))"

definition isRadioOn :: "bool \<Rightarrow> modem \<Rightarrow> (int \<times> modem) outcome" where
  "isRadioOn np m =
     seqO (at_send_command_singleline (tgm_env np) ''AT+CFUN?'' ''+CFUN:'' True m) (\<lambda>(err, out, m1).
     seqO (failed err out) (\<lambda>bad.
       if bad then Inr (if err = AT_ERROR_INVALID_RESPONSE then 1 else -1, m1)
       else seqO (first_line out) (\<lambda>line.
         case at_tok_start (Some line) of (err, cur) \<Rightarrow>
           if err < 0 then Inr (-1, m1)
           else (case at_tok_nextbool cur of (err, ret, _) \<Rightarrow>
             if err < 0 then Inr (-1, m1)
             else (case ret of None \<Rightarrow> Inl Undef | Some b \<Rightarrow> Inr (b, m1))))))"

text \<open>The second half of \<open>getSIMStatus\<close>, after its query.\<close>

definition sim_result :: "int \<Rightarrow> ATResponse option \<Rightarrow> modem \<Rightarrow> (int \<times> modem) outcome" where
  "sim_result err out m3 =
     (if err \<noteq> 0 then Inr (TGM_SIM_NOT_READY, m3)
       else (case out of None \<Rightarrow> Inl Undef | Some r \<Rightarrow>
         if at_get_cme_error r = CME_SIM_NOT_INSERTED \<or> at_get_cme_error r = CME_SIM_FAILURE then Inr (TGM_SIM_ABSENT, m3)
         else if at_get_cme_error r \<noteq> CME_SUCCESS then Inr (TGM_SIM_NOT_READY, m3)
         else seqO (first_line out) (\<lambda>cpinLine.
           case at_tok_start (Some cpinLine) of (err, cur) \<Rightarrow>
             if err < 0 then Inr (TGM_SIM_NOT_READY, m3)
             else (case at_tok_nextstr cur of (err, cpinResult, _) \<Rightarrow>
               if err < 0 then Inr (TGM_SIM_NOT_READY, m3)
               else (case cpinResult of
                   Some (Some s) \<Rightarrow> Inr
                     (if s = ''SIM PIN'' then TGM_SIM_PIN
                      else if s = ''SIM PUK'' then TGM_SIM_PUK
                      else if s = ''PH-NET PIN'' then TGM_SIM_NETWORK_PERSONALIZATION
                      else if s \<noteq> ''READY'' then TGM_SIM_ABSENT
                      else TGM_SIM_READY, m3)
                 | _ \<Rightarrow> Inl Undef)))))"

text \<open>\<open>setState\<close> is the \<open>setRadioState\<close> the function calls.\<close>

definition getSIMStatus :: "(TGM_RadioState \<Rightarrow> modem \<Rightarrow> modem outcome) \<Rightarrow> bool \<Rightarrow> modem \<Rightarrow> (int \<times> modem) outcome" where
  "getSIMStatus setState np m =
     seqO (if sState m = TGM_STATE_OFF \<or> sState m = TGM_STATE_UNAVAILABLE then
             seqO (isRadioOn np m) (\<lambda>(on, m1).
               if on > 0 then seqO (setState TGM_STATE_SIM_NOT_READY m1) (\<lambda>m2. Inr (True, m2)) else Inr (False, m1))
           else Inr (True, m)) (\<lambda>(go, m2).
     if \<not> go then Inr (TGM_SIM_NOT_READY, m2)
     else seqO (at_send_command_singleline (tgm_env np) ''AT+CPIN?'' ''+CPIN:'' True m2) (\<lambda>(err, out, m3). sim_result err out m3))"

definition pollSIMState :: "(TGM_RadioState \<Rightarrow> modem \<Rightarrow> modem outcome) \<Rightarrow> bool \<Rightarrow> modem \<Rightarrow> modem outcome" where
  "pollSIMState setState np m =
     (if sState m \<noteq> TGM_STATE_SIM_NOT_READY then Inr m
      else seqO (getSIMStatus setState np m) (\<lambda>(status, m1).
        if status = TGM_SIM_NOT_READY then Inr (TGM_requestTimedCallback PollSIMState 1 m1)
        else if status = TGM_SIM_READY then setState TGM_STATE_SIM_READY m1
        else setState TGM_STATE_SIM_LOCKED_OR_ABSENT m1))"

definition onRadioPowerOn :: "(TGM_RadioState \<Rightarrow> modem \<Rightarrow> modem outcome) \<Rightarrow> bool \<Rightarrow> modem \<Rightarrow> modem outcome" where
  "onRadioPowerOn setState np m = pollSIMState setState np m"

definition onSIMReady :: "bool \<Rightarrow> modem \<Rightarrow> modem outcome" where
  "onSIMReady np m =
     seqO (at_send_command_singleline (tgm_env np) ''AT+CSMS=1'' ''+CSMS:'' False m) (\<lambda>(err, out, m1). Inr m1)"

text \<open>The recursion of the source, bounded: \<open>setRadioState_fuel n\<close> may nest \<open>n\<close> deep.\<close>

fun setRadioState_fuel :: "nat \<Rightarrow> bool \<Rightarrow> TGM_RadioState \<Rightarrow> modem \<Rightarrow> modem outcome" where
  "setRadioState_fuel 0 np newState m = Inl Deep"
| "setRadioState_fuel (Suc n) np newState m =
     setRadioState_with (onSIMReady np) (onRadioPowerOn (setRadioState_fuel n np) np) newState m"

definition setRadioState :: "bool \<Rightarrow> TGM_RadioState \<Rightarrow> modem \<Rightarrow> modem outcome" where
  "setRadioState = setRadioState_fuel 2"

section \<open>Initialisation\<close>

definition initializeCallback :: "bool \<Rightarrow> modem \<Rightarrow> modem outcome" where
  "initializeCallback np m =
     seqO (setRadioState np TGM_STATE_UNAVAILABLE m) (\<lambda>m1.
     seqO (at_handshake (tgm_env np) m1) (\<lambda>(_, m2).
     seqO (at_send_command (tgm_env np) ''ATE0Q0V1'' False m2) (\<lambda>(_, _, m3).
     seqO (at_send_command (tgm_env np) ''AT+CMEE=1'' False m3) (\<lambda>(_, _, m4).
     seqO (at_send_command (tgm_env np) ''AT+CREG=1'' False m4) (\<lambda>(_, _, m5).
     seqO (isRadioOn np m5) (\<lambda>(on, m6).
       if on > 0 then setRadioState np TGM_STATE_SIM_NOT_READY m6 else Inr m6))))))"

text \<open>The timed callbacks, as the event loop of libtgm runs them.\<close>

definition run_timed :: "bool \<Rightarrow> timed_cb \<Rightarrow> modem \<Rightarrow> modem outcome" where
  "run_timed np c m = (case c of InitializeCallback \<Rightarrow> initializeCallback np m
     | PollSIMState \<Rightarrow> pollSIMState (setRadioState np) np m)"

section \<open>The driver as a client of the channel\<close>

lemma failed_all: "(\<And>b. allO Q (f b)) \<Longrightarrow> allO Q (seqO (failed err out) f)"
  by (rule allO_any)

lemma first_line_all: "(\<And>l. allO Q (f l)) \<Longrightarrow> allO Q (seqO (first_line out) f)"
  by (rule allO_any)

lemma onATReaderClosed_eq:
  "onATReaderClosed m =
     (let m1 = (at_close m)\<lparr>s_closed := True, dev_fd := -1\<rparr>
      in if sState m = TGM_STATE_PPPD \<or> sState m = TGM_STATE_PPPD_READY then Inr m1
         else if sState m = TGM_STATE_UNAVAILABLE then Inr (m1\<lparr>sState := TGM_STATE_UNAVAILABLE\<rparr>)
         else Inr (TGM_onUnsolicitedResponse TGM_UNSOLICITED_RADIO_STATE_CHANGED (m1\<lparr>sState := TGM_STATE_UNAVAILABLE\<rparr>)))"
  by (auto simp: onATReaderClosed_def Let_def at_close_def setRadioState_with_def changeRadioState_def TGM_onUnsolicitedResponse_def)

lemma tgm_env_simps [simp]:
  "s_onTimeout (tgm_env np) = Some onATTimeout" "s_onReaderClosed (tgm_env np) = Some onATReaderClosed" "USE_NP (tgm_env np) = np"
  by (simp_all add: tgm_env_def at_set_on_timeout_def at_set_on_reader_closed_def)

lemma tgm_env_ok [simp]: "env_ok (tgm_env np)"
  by (auto simp: env_ok_def hooks_ok_def keeps_command_def onATReaderClosed_eq onATTimeout_def Let_def at_close_def
      TGM_onUnsolicitedResponse_def)

text \<open>
  The interface between the channel and the driver, for a predicate on the driver's state: the
  channel's callbacks, the change of the radio state and a new timed callback keep it. The SIM
  state machine and the initialisation then keep it as well.
\<close>

locale driver_invariant = chan_client "tgm_env np" I for np :: bool and I :: "modem \<Rightarrow> bool" +
  assumes change: "I m \<Longrightarrow> I (fst (changeRadioState st m))"
    and timer: "I m \<Longrightarrow> I (TGM_requestTimedCallback c d m)"
begin

lemma isRadioOn_all: "I m \<Longrightarrow> allO (\<lambda>(on, m'). I m') (isRadioOn np m)"
  unfolding isRadioOn_def
  by (auto intro!: allO_seqO[OF singleline_all] failed_all first_line_all split: prod.split option.split)

lemma onSIMReady_all: "I m \<Longrightarrow> allO I (onSIMReady np m)"
  unfolding onSIMReady_def by (auto intro!: allO_seqO[OF singleline_all])

lemma getSIMStatus_all:
  assumes "I m" "\<And>st m. I m \<Longrightarrow> allO I (setState st m)"
  shows "allO (\<lambda>(x, m'). I m') (getSIMStatus setState np m)"
proof -
  have "allO (\<lambda>(go, m'). I m') (if sState m = TGM_STATE_OFF \<or> sState m = TGM_STATE_UNAVAILABLE then
             seqO (isRadioOn np m) (\<lambda>(on, m1).
               if on > 0 then seqO (setState TGM_STATE_SIM_NOT_READY m1) (\<lambda>m2. Inr (True, m2)) else Inr (False, m1))
           else Inr (True, m))"
    using assms(1) by (auto intro!: allO_seqO[OF isRadioOn_all] allO_seqO[OF assms(2)])
  then show ?thesis
    unfolding getSIMStatus_def
    by (rule allO_seqO) (auto simp: sim_result_def intro!: allO_seqO[OF singleline_all] failed_all first_line_all split: prod.split option.split)
qed

lemma setRadioState_with_all:
  assumes "I m" "\<And>m. I m \<Longrightarrow> allO I (f m)" "\<And>m. I m \<Longrightarrow> allO I (g m)"
  shows "allO I (setRadioState_with f g st m)"
  using assms change[of m st] by (auto simp: setRadioState_with_def split: prod.splits)

lemma pollSIMState_all:
  assumes "I m" "\<And>st m. I m \<Longrightarrow> allO I (setState st m)"
  shows "allO I (pollSIMState setState np m)"
  unfolding pollSIMState_def using assms
  by (auto intro!: allO_seqO[OF getSIMStatus_all] timer)

lemma fuel_all: "I m \<Longrightarrow> allO I (setRadioState_fuel n np st m)"
proof (induction n arbitrary: st m)
  case (Suc n)
  show ?case
    unfolding setRadioState_fuel.simps
    by (rule setRadioState_with_all) (auto simp: onRadioPowerOn_def Suc intro: onSIMReady_all pollSIMState_all)
qed simp

lemma setRadioState_all: "I m \<Longrightarrow> allO I (setRadioState np st m)"
  by (simp add: setRadioState_def fuel_all)

lemma status_all: "I m \<Longrightarrow> allO (\<lambda>(x, m'). I m') (getSIMStatus (setRadioState np) np m)"
  by (rule getSIMStatus_all[OF _ setRadioState_all])

lemma initializeCallback_all: "I m \<Longrightarrow> allO I (initializeCallback np m)"
  unfolding initializeCallback_def
  by (auto intro!: allO_seqO[OF setRadioState_all] allO_seqO[OF handshake_all] allO_seqO[OF send_all]
      allO_seqO[OF isRadioOn_all] setRadioState_all)

lemma run_timed_all: "I m \<Longrightarrow> allO I (run_timed np c m)"
  by (cases c) (auto simp: run_timed_def intro: initializeCallback_all pollSIMState_all setRadioState_all)

end

section \<open>Invariants of the driver\<close>

text \<open>A closed channel keeps the radio down, or handed over to pppd.\<close>

definition down_inv :: "modem \<Rightarrow> bool" where
  "down_inv m \<longleftrightarrow> (s_closed m \<longrightarrow> sState m \<in> {TGM_STATE_OFF, TGM_STATE_UNAVAILABLE, TGM_STATE_PPPD, TGM_STATE_PPPD_READY})"

text \<open>Since the state was \<open>s0\<close> and the notices \<open>ns\<close>, every change of the state was announced.\<close>

definition announced :: "TGM_RadioState \<Rightarrow> int list \<Rightarrow> modem \<Rightarrow> bool" where
  "announced s0 ns m \<longleftrightarrow> (\<exists>new. notices m = ns @ new \<and> set new \<subseteq> {TGM_UNSOLICITED_RADIO_STATE_CHANGED} \<and> (sState m = s0 \<or> new \<noteq> []))"

text \<open>What only requests change.\<close>

definition request_state :: "modem \<Rightarrow> (token \<times> TGM_Errno \<times> payload) list \<times> string \<times> string \<times> carrier_buf list \<times> string \<times> string
    \<times> int \<times> (string \<times> string option) list \<times> int list" where
  "request_state m = (completions m, username m, password m, cachedCarrier m, cachedManufacturer m, cachedModel m,
     pppd_process_id m, properties_set m, terminated m)"

lemma more_modem:
  assumes "chan.more ch' = chan.more (ch :: modem)"
  shows "sState ch' = sState ch" "s_closed ch' = s_closed ch" "notices ch' = notices ch" "timed ch' = timed ch"
    "request_state ch' = request_state ch"
  using assms by (cases ch; cases ch'; simp add: request_state_def)+

lemma more_at_close [simp]: "chan.more (at_close ch) = chan.more ch"
  by (simp add: at_close_def)

lemma at_close_modem [simp]:
  "sState (at_close (m :: modem)) = sState m" "notices (at_close m) = notices m" "request_state (at_close m) = request_state m"
  by (simp_all add: at_close_def request_state_def)

interpretation down: driver_invariant np down_inv for np
proof unfold_locales
  fix m ch' :: modem and f
  show "down_inv m \<Longrightarrow> chan.more ch' = chan.more m \<Longrightarrow> down_inv ch'"
    by (simp add: down_inv_def more_modem[of ch' m])
  show "s_onReaderClosed (tgm_env np) = Some f \<Longrightarrow> down_inv m \<Longrightarrow> f m = Inr ch' \<Longrightarrow> down_inv ch'"
    by (auto simp: onATReaderClosed_eq Let_def down_inv_def TGM_onUnsolicitedResponse_def split: if_splits)
  show "s_onTimeout (tgm_env np) = Some f \<Longrightarrow> down_inv m \<Longrightarrow> f m = Inr ch' \<Longrightarrow> down_inv ch'"
    by (auto simp: onATTimeout_def)
qed (auto simp: down_inv_def changeRadioState_def TGM_onUnsolicitedResponse_def TGM_requestTimedCallback_def Let_def)

lemma announced_notice:
  "announced s0 ns m \<Longrightarrow> announced s0 ns (TGM_onUnsolicitedResponse TGM_UNSOLICITED_RADIO_STATE_CHANGED (m\<lparr>sState := st\<rparr>))"
  by (auto simp: announced_def TGM_onUnsolicitedResponse_def)

lemma announced_cong: "sState m' = sState m \<Longrightarrow> notices m' = notices m \<Longrightarrow> announced s0 ns m \<Longrightarrow> announced s0 ns m'"
  by (simp add: announced_def)

interpretation announce: driver_invariant np "announced s0 ns" for np s0 ns
proof unfold_locales
  fix m ch' :: modem and f st
  show "announced s0 ns m \<Longrightarrow> chan.more ch' = chan.more m \<Longrightarrow> announced s0 ns ch'"
    by (simp add: announced_def more_modem[of ch' m])
  show "s_onReaderClosed (tgm_env np) = Some f \<Longrightarrow> announced s0 ns m \<Longrightarrow> f m = Inr ch' \<Longrightarrow> announced s0 ns ch'"
    by (auto simp: onATReaderClosed_eq Let_def split: if_splits intro!: announced_notice elim: announced_cong[rotated 2])
  show "s_onTimeout (tgm_env np) = Some f \<Longrightarrow> announced s0 ns m \<Longrightarrow> f m = Inr ch' \<Longrightarrow> announced s0 ns ch'"
    by (auto simp: onATTimeout_def)
  show "announced s0 ns m \<Longrightarrow> announced s0 ns (fst (changeRadioState st m))"
    by (auto simp: changeRadioState_def Let_def intro: announced_notice elim: announced_cong[rotated 2])
qed (auto simp: announced_def TGM_requestTimedCallback_def)

interpretation keep_request: driver_invariant np "\<lambda>m. request_state m = rs" for np rs
proof unfold_locales
  fix m ch' :: modem and f
  show "request_state m = rs \<Longrightarrow> chan.more ch' = chan.more m \<Longrightarrow> request_state ch' = rs"
    by (simp add: more_modem[of ch' m])
  show "s_onReaderClosed (tgm_env np) = Some f \<Longrightarrow> request_state m = rs \<Longrightarrow> f m = Inr ch' \<Longrightarrow> request_state ch' = rs"
    by (auto simp: onATReaderClosed_eq Let_def request_state_def TGM_onUnsolicitedResponse_def at_close_def split: if_splits)
  show "s_onTimeout (tgm_env np) = Some f \<Longrightarrow> request_state m = rs \<Longrightarrow> f m = Inr ch' \<Longrightarrow> request_state ch' = rs"
    by (auto simp: onATTimeout_def)
qed (auto simp: changeRadioState_def TGM_onUnsolicitedResponse_def TGM_requestTimedCallback_def Let_def request_state_def)

text \<open>The logs of the driver's calls into the library only grow.\<close>

definition appends :: "(token \<times> TGM_Errno \<times> payload) list \<Rightarrow> int list \<Rightarrow> (timed_cb \<times> int) list \<Rightarrow> modem \<Rightarrow> bool" where
  "appends cs ns ts m \<longleftrightarrow> Sublist.prefix cs (completions m) \<and> Sublist.prefix ns (notices m) \<and> Sublist.prefix ts (timed m)"

interpretation appends: driver_invariant np "appends cs ns ts" for np cs ns ts
proof unfold_locales
  fix m ch' :: modem and f
  show "appends cs ns ts m \<Longrightarrow> chan.more ch' = chan.more m \<Longrightarrow> appends cs ns ts ch'"
    using more_modem[of ch' m] by (simp add: appends_def request_state_def)
  show "s_onReaderClosed (tgm_env np) = Some f \<Longrightarrow> appends cs ns ts m \<Longrightarrow> f m = Inr ch' \<Longrightarrow> appends cs ns ts ch'"
    by (auto simp: onATReaderClosed_eq Let_def appends_def TGM_onUnsolicitedResponse_def at_close_def split: if_splits)
  show "s_onTimeout (tgm_env np) = Some f \<Longrightarrow> appends cs ns ts m \<Longrightarrow> f m = Inr ch' \<Longrightarrow> appends cs ns ts ch'"
    by (auto simp: onATTimeout_def)
qed (auto simp: appends_def changeRadioState_def TGM_onUnsolicitedResponse_def TGM_requestTimedCallback_def Let_def)

interpretation fails: driver_invariant np "\<lambda>m. pppd_fail_times m = k" for np k
proof unfold_locales
  fix m ch' :: modem and f
  show "pppd_fail_times m = k \<Longrightarrow> chan.more ch' = chan.more m \<Longrightarrow> pppd_fail_times ch' = k"
    by (cases m; cases ch'; simp)
  show "s_onReaderClosed (tgm_env np) = Some f \<Longrightarrow> pppd_fail_times m = k \<Longrightarrow> f m = Inr ch' \<Longrightarrow> pppd_fail_times ch' = k"
    by (auto simp: onATReaderClosed_eq Let_def TGM_onUnsolicitedResponse_def at_close_def split: if_splits)
  show "s_onTimeout (tgm_env np) = Some f \<Longrightarrow> pppd_fail_times m = k \<Longrightarrow> f m = Inr ch' \<Longrightarrow> pppd_fail_times ch' = k"
    by (auto simp: onATTimeout_def)
qed (auto simp: changeRadioState_def TGM_onUnsolicitedResponse_def TGM_requestTimedCallback_def Let_def)

section \<open>The recursion is bounded and safe\<close>

lemma idle_more: "sp_response m' = sp_response m \<Longrightarrow> s_responsePrefix m' = s_responsePrefix m \<Longrightarrow> s_smsPDU m' = s_smsPDU m
    \<Longrightarrow> idle m \<Longrightarrow> idle m'"
  by (simp add: idle_def)

lemma idle_change [simp]: "idle (fst (changeRadioState st m)) = idle m"
  by (simp add: changeRadioState_def Let_def idle_def TGM_onUnsolicitedResponse_def)

lemma idle_records [simp]:
  "idle (TGM_requestTimedCallback c d m) = idle m" "idle (TGM_onRequestComplete t e p m) = idle m"
  "idle (TGM_onUnsolicitedResponse a m) = idle m"
  by (simp_all add: idle_def TGM_requestTimedCallback_def TGM_onRequestComplete_def TGM_onUnsolicitedResponse_def)

text \<open>A query of the driver: either an error, or a response whose line may be used on success.\<close>

lemmas query_good = singleline.sends_query[OF tgm_env_ok _ TrueI] numeric.sends_query[OF tgm_env_ok _ TrueI]

lemmas query_ok = query_good[THEN goodO_okO]

lemma isRadioOn_good [inv_intro]: "idle m \<Longrightarrow> goodO (\<lambda>(on, m'). idle m') (isRadioOn np m)"
  unfolding isRadioOn_def
  by (auto intro!: goodO_seqO[OF query_good(1)] simp: failed_def first_line_def at_tok_nextbool_def split: prod.split option.split)

lemma onSIMReady_good [inv_intro]: "idle m \<Longrightarrow> goodO idle (onSIMReady np m)"
proof -
  assume "idle m"
  have "goodO (\<lambda>(err, out, m'). idle m') (at_send_command_full (tgm_env np) ''AT+CSMS=1'' SINGLELINE (Some ''+CSMS:'') None TGM_TIMEOUT False m)"
    by (rule goodO_mono, rule full_good) (use \<open>idle m\<close> in \<open>auto simp: prefix_given_def send_post_def\<close>)
  then show ?thesis
    unfolding onSIMReady_def at_send_command_singleline_def seqO_assoc
    by (rule goodO_seqO) (auto simp: need_intermediate_def)
qed

text \<open>The answer that breaks \<open>getSIMStatus\<close>: error code 0 passes for success, but there is no line.\<close>

definition false_success :: "ATResponse \<Rightarrow> bool" where
  "false_success r \<longleftrightarrow> success r = 0 \<and> at_get_cme_error r = CME_SUCCESS \<and> p_intermediates r = []"

lemma getSIMStatus_on:
  assumes "sState m \<noteq> TGM_STATE_OFF" "sState m \<noteq> TGM_STATE_UNAVAILABLE"
  shows "getSIMStatus setState np m =
    seqO (at_send_command_singleline (tgm_env np) ''AT+CPIN?'' ''+CPIN:'' True m) (\<lambda>(err, out, m3). sim_result err out m3)"
  using assms by (simp add: getSIMStatus_def)

text \<open>A token behind a colon is never NULL.\<close>

lemma first_token: "at_tok_start (Some l) = (0, cur) \<Longrightarrow> \<exists>s cur'. at_tok_nextstr cur = (0, Some (Some s), cur')"
proof -
  have ws: "\<exists>t. skipWhiteSpace (Some s) = Some t" for s by (induction s) auto
  have sep: "\<exists>t cur'. strsep (Some s) d = (Some t, cur')" for s d by (simp add: strsep_def split: list.split)
  assume "at_tok_start (Some l) = (0, cur)"
  then obtain s where c: "cur = Some s" by (auto simp: at_tok_start_def split: list.splits)
  obtain t where t: "skipWhiteSpace (Some s) = Some t" using ws by blast
  show ?thesis
    using sep[of "tl t" DQUOTE] sep[of t COMMA]
    by (cases t) (auto simp: at_tok_nextstr_def c nextTok_def t split: prod.splits)
qed

lemma sim_result_Undef:
  assumes "err = 0 \<longrightarrow> (\<exists>r. out = Some r \<and> (success r = 0 \<or> success r = 1 \<and> (\<exists>l. p_intermediates r = [l] \<and> Q l)))"
  shows "sim_result err out m = Inl Undef \<longleftrightarrow> err = 0 \<and> (\<exists>r. out = Some r \<and> false_success r)"
    and "sim_result err out m = Inl e \<Longrightarrow> e = Undef"
    and "sim_result err out m = Inr (x, m') \<Longrightarrow> m' = m"
proof -
  have st: "fst (at_tok_start (Some l)) = 0 \<or> fst (at_tok_start (Some l)) < 0" for l
    by (simp add: at_tok_start_def split: list.split)
  have body: "\<exists>x. sim_result 0 (Some r) m = Inr (x, m)"
    if "at_get_cme_error r \<noteq> CME_SUCCESS \<or> p_intermediates r \<noteq> []" for r
    using that st[of "hd (p_intermediates r)"] first_token[of "hd (p_intermediates r)"]
    by (cases "p_intermediates r") (fastforce simp: sim_result_def first_line_def split: prod.splits)+
  have bad: "sim_result 0 (Some r) m = Inl Undef" if "at_get_cme_error r = CME_SUCCESS" "p_intermediates r = []" for r
    using that by (simp add: sim_result_def first_line_def cme_codes)
  have all: "(err = 0 \<and> (\<exists>r. out = Some r \<and> false_success r) \<and> sim_result err out m = Inl Undef)
    \<or> (\<not> (err = 0 \<and> (\<exists>r. out = Some r \<and> false_success r)) \<and> (\<exists>x. sim_result err out m = Inr (x, m)))"
  proof (cases "err = 0")
    case True
    with assms obtain r where r: "out = Some r" "success r = 0 \<or> p_intermediates r \<noteq> []" by auto
    with True body[of r] bad[of r] show ?thesis by (auto simp: false_success_def)
  next
    case False
    then show ?thesis by (simp add: sim_result_def)
  qed
  then show "sim_result err out m = Inl Undef \<longleftrightarrow> err = 0 \<and> (\<exists>r. out = Some r \<and> false_success r)"
    and "sim_result err out m = Inl e \<Longrightarrow> e = Undef" and "sim_result err out m = Inr (x, m') \<Longrightarrow> m' = m"
    by auto
qed

lemma sim_result_ok:
  "err = 0 \<longrightarrow> (\<exists>r. out = Some r \<and> (success r = 0 \<or> success r = 1 \<and> (\<exists>l. p_intermediates r = [l] \<and> Q l))) \<Longrightarrow> idle m
    \<Longrightarrow> okO (\<lambda>(x, m'). idle m') (sim_result err out m)"
  using sim_result_Undef[of err out Q m] by (cases "sim_result err out m") auto

lemma getSIMStatus_ok:
  assumes "idle m" "\<And>m. idle m \<Longrightarrow> okO idle (setState TGM_STATE_SIM_NOT_READY m)"
  shows "okO (\<lambda>(x, m'). idle m') (getSIMStatus setState np m)"
proof -
  have "okO (\<lambda>(go, m'). idle m') (if sState m = TGM_STATE_OFF \<or> sState m = TGM_STATE_UNAVAILABLE then
             seqO (isRadioOn np m) (\<lambda>(on, m1).
               if on > 0 then seqO (setState TGM_STATE_SIM_NOT_READY m1) (\<lambda>m2. Inr (True, m2)) else Inr (False, m1))
           else Inr (True, m))"
    using assms(1) by (auto intro!: okO_seqO[OF isRadioOn_good[THEN goodO_okO]] okO_seqO[OF assms(2)])
  then show ?thesis
    unfolding getSIMStatus_def
    by (rule okO_seqO) (auto intro!: okO_seqO[OF query_ok(1)] sim_result_ok)
qed

lemma pollSIMState_ok:
  assumes "idle m" "\<And>st m. st = TGM_STATE_SIM_READY \<or> st = TGM_STATE_SIM_LOCKED_OR_ABSENT \<Longrightarrow> idle m \<Longrightarrow> okO idle (setState st m)"
  shows "okO idle (pollSIMState setState np m)"
proof (cases "sState m = TGM_STATE_SIM_NOT_READY")
  case True
  have "okO (\<lambda>(x, m'). idle m') (getSIMStatus setState np m)"
    using True assms(1) by (auto simp: getSIMStatus_on intro!: okO_seqO[OF query_ok(1)] sim_result_ok)
  with True show ?thesis
    unfolding pollSIMState_def by (auto intro!: okO_seqO assms(2))
qed (use assms in \<open>simp add: pollSIMState_def\<close>)

lemma changed_state:
  "sState (fst (changeRadioState st m)) \<noteq> sState m \<Longrightarrow>
    sState (fst (changeRadioState st m)) = st \<or> sState (fst (changeRadioState st m)) = TGM_STATE_UNAVAILABLE"
  by (auto simp: changeRadioState_def Let_def TGM_onUnsolicitedResponse_def)

lemma snd_changeRadioState [simp]: "snd (changeRadioState st m) = sState m"
  by (simp add: changeRadioState_def Let_def)

lemma setRadioState_with_alt:
  "setRadioState_with f g st m = (let m' = fst (changeRadioState st m) in
     if sState m' \<noteq> sState m \<and> sState m' = TGM_STATE_SIM_READY then f m'
     else if sState m' \<noteq> sState m \<and> sState m' = TGM_STATE_SIM_NOT_READY then g m' else Inr m')"
  by (simp add: setRadioState_with_def Let_def case_prod_beta)

lemma setRadioState_with_no_power:
  "st \<noteq> TGM_STATE_SIM_NOT_READY \<Longrightarrow> setRadioState_with f g st m = setRadioState_with f g' st m"
  using changed_state[of st m] by (auto simp: setRadioState_with_alt Let_def)

lemma pollSIMState_cong:
  assumes "\<And>st m. st = TGM_STATE_SIM_READY \<or> st = TGM_STATE_SIM_LOCKED_OR_ABSENT \<Longrightarrow> S st m = S' st m"
  shows "pollSIMState S np m = pollSIMState S' np m"
  using assms by (auto simp: pollSIMState_def getSIMStatus_on intro!: seqO_cong)

lemma fuel_one: "st \<noteq> TGM_STATE_SIM_NOT_READY \<Longrightarrow> setRadioState_fuel (Suc n) np st m = setRadioState_fuel (Suc 0) np st m"
  unfolding setRadioState_fuel.simps by (rule setRadioState_with_no_power)

lemma fuel_two: "setRadioState_fuel (Suc (Suc n)) np st m = setRadioState_fuel (Suc (Suc 0)) np st m"
proof -
  have "onRadioPowerOn (setRadioState_fuel (Suc n) np) np = onRadioPowerOn (setRadioState_fuel (Suc 0) np) np"
    unfolding onRadioPowerOn_def
    by (intro ext pollSIMState_cong fuel_one) auto
  then show ?thesis by (subst (1 2) setRadioState_fuel.simps(2)) simp
qed

lemma setRadioState_with_ok:
  assumes "idle m" "\<And>m. idle m \<Longrightarrow> okO idle (f m)"
    "\<And>m. idle m \<Longrightarrow> st = TGM_STATE_SIM_NOT_READY \<Longrightarrow> okO idle (g m)"
  shows "okO idle (setRadioState_with f g st m)"
  using assms changed_state[of st m] by (auto simp: setRadioState_with_alt Let_def)

lemma setRadioState_ok: "idle m \<Longrightarrow> okO idle (setRadioState np st m)"
proof -
  have 1: "okO idle (setRadioState_fuel (Suc 0) np st m)" if "idle m" "st \<noteq> TGM_STATE_SIM_NOT_READY" for st m
    unfolding setRadioState_fuel.simps using that
    by (intro setRadioState_with_ok) (auto intro: onSIMReady_good[THEN goodO_okO])
  assume "idle m"
  then show ?thesis
    unfolding setRadioState_def numeral_2_eq_2 setRadioState_fuel.simps(2)[of "Suc 0"]
    by (intro setRadioState_with_ok) (auto simp: onRadioPowerOn_def simp del: setRadioState_fuel.simps
        intro!: pollSIMState_ok 1 intro: onSIMReady_good[THEN goodO_okO])
qed

text \<open> C11.
  \<open>setRadioState_terminates\<close>: the recursion of \<open>setRadioState\<close> through \<open>onRadioPowerOn\<close>,
  \<open>pollSIMState\<close> and \<open>getSIMStatus\<close> nests at most two deep: more fuel changes nothing, the fuel
  does not run out, and a channel idle before is idle after, whatever the modem answers.
\<close>

theorem setRadioState_terminates:
  assumes "idle m"
  shows "okO idle (setRadioState np st m) \<and> setRadioState_fuel (n + 2) np st m = setRadioState np st m"
  using setRadioState_ok[OF assms, of np st] fuel_two[of n np st m] by (simp add: setRadioState_def numeral_2_eq_2)

text \<open>A modem in a given state with a schedule of reader events.\<close>

definition demo_modem :: "TGM_RadioState \<Rightarrow> chan_ev list \<Rightarrow> modem" where
  "demo_modem st es = \<lparr>s_fd = 3, s_unsolHandler = True, s_type = NO_RESULT, s_responsePrefix = None, s_smsPDU = None,
     sp_response = None, s_readerClosed = False, on_reader = False, close_due = False, wire = [], wr_script = [],
     unsol = [], sched = es, clock = [], sState = st, s_closed = False, dev_fd = 3, username = [], password = [],
     cachedCarrier = [Heap [], Outside 128, Outside 256], cachedManufacturer = [], cachedModel = [], pppd_process_id = 0,
     pppd_fail_times = 0, completions = [], notices = [], timed = [], properties_set = [], terminated = []\<rparr>"

lemma demo_modem_idle [simp]: "idle (demo_modem st es)"
  by (simp add: idle_def demo_modem_def)

lemma demo_modem_state [simp]: "sState (demo_modem st es) = st" "s_closed (demo_modem st es) = False"
    "completions (demo_modem st es) = []" "wire (demo_modem st es) = []" "notices (demo_modem st es) = []"
  by (simp_all add: demo_modem_def)

lemma setRadioState_terminates_witness:
  "okO idle (setRadioState False TGM_STATE_SIM_NOT_READY (demo_modem TGM_STATE_UNAVAILABLE [EvTimeout])) \<and>
   setRadioState_fuel (9 + 2) False TGM_STATE_SIM_NOT_READY (demo_modem TGM_STATE_UNAVAILABLE [EvTimeout]) =
   setRadioState False TGM_STATE_SIM_NOT_READY (demo_modem TGM_STATE_UNAVAILABLE [EvTimeout])"
  by (rule setRadioState_terminates) simp

text \<open> C39.
  \<open>cme_zero_crashes\<close>: asking a powered modem for its SIM dereferences a NULL pointer exactly when
  the answer is \<open>+CME ERROR: 0\<close> without an intermediate line: \<open>at_get_cme_error\<close> returns the code
  0 of that failure, which is \<open>CME_SUCCESS\<close>, and \<open>getSIMStatus\<close> goes on to \<open>p_intermediates->line\<close>.
\<close>

theorem cme_zero_crashes:
  assumes "idle m" "sState m \<noteq> TGM_STATE_OFF" "sState m \<noteq> TGM_STATE_UNAVAILABLE"
  shows "getSIMStatus (setRadioState np) np m = Inl Undef \<longleftrightarrow>
    (\<exists>r m'. at_send_command_singleline (tgm_env np) ''AT+CPIN?'' ''+CPIN:'' True m = Inr (0, Some r, m') \<and>
       success r = 0 \<and> at_get_cme_error r = CME_SUCCESS \<and> p_intermediates r = [])"
proof -
  note q = query_good(1)[OF assms(1), where np = np and cmd = "''AT+CPIN?''" and p = "''+CPIN:''"]
  show ?thesis
  proof (cases "at_send_command_singleline (tgm_env np) ''AT+CPIN?'' ''+CPIN:'' True m")
    case (Inl e)
    with q assms show ?thesis by (simp add: getSIMStatus_on)
  next
    case (Inr res)
    obtain err out m' where res: "res = (err, out, m')" by (cases res)
    show ?thesis
      using q Inr res assms sim_result_Undef(1)[of err out "matches SINGLELINE (Some ''+CPIN:'')" m']
      by (auto simp: getSIMStatus_on false_success_def)
  qed
qed

lemma cme_zero_crashes_witness:
  "getSIMStatus (setRadioState True) True (demo_modem TGM_STATE_SIM_NOT_READY [EvLine ''+CME ERROR: 0'', EvWakeup]) = Inl Undef"
proof -
  have "at_send_command_singleline (tgm_env True) ''AT+CPIN?'' ''+CPIN:'' True
      (demo_modem TGM_STATE_SIM_NOT_READY [EvLine ''+CME ERROR: 0'', EvWakeup]) =
    Inr (0, Some \<lparr>success = 0, finalResponse = Some ''+CME ERROR: 0'', p_intermediates = []\<rparr>,
      (demo_modem TGM_STATE_SIM_NOT_READY [])\<lparr>s_type := SINGLELINE, wire := ''AT+CPIN?'' @ [CR]\<rparr>)"
    by code_simp
  moreover have "at_get_cme_error \<lparr>success = 0, finalResponse = Some ''+CME ERROR: 0'', p_intermediates = []\<rparr> = CME_SUCCESS"
    by code_simp
  ultimately show ?thesis
    by (subst cme_zero_crashes) auto
qed

text \<open>The result of a \<open>+CPIN\<close> line whose value is one plain token.\<close>

lemma strsep_none: "d \<notin> set s \<Longrightarrow> strsep (Some s) d = (Some s, None)"
  by (simp add: strsep_def dropWhile_neq_all)

lemma cpin_token:
  assumes "COMMA \<notin> set s" "s \<noteq> []" "hd s \<noteq> DQUOTE" "\<not> isspace (hd s)"
  shows "\<exists>cur'. at_tok_nextstr (Some (CHR '' '' # s)) = (0, Some (Some s), cur')"
  using assms by (cases s) (auto simp: at_tok_nextstr_def nextTok_def isspace_def strsep_none)

text \<open> C17.
  \<open>poll_follows_sim\<close>: when the radio is on with the SIM not ready and the modem answers the poll
  with \<open>+CPIN: s\<close>, the radio state becomes SIM ready if \<open>s\<close> is \<open>READY\<close>, and the driver goes on to
  \<open>AT+CSMS=1\<close>; any other value makes it locked or absent. Either change is announced once, and no
  poll is left scheduled.
\<close>

theorem poll_follows_sim:
  assumes "sState m = TGM_STATE_SIM_NOT_READY"
    "at_send_command_singleline (tgm_env np) ''AT+CPIN?'' ''+CPIN:'' True m = Inr (0, Some r, m')"
    "sState m' = TGM_STATE_SIM_NOT_READY" "\<not> s_closed m'"
    "success r = 1" "p_intermediates r = [''+CPIN: '' @ s]"
    "COMMA \<notin> set s" "s \<noteq> []" "hd s \<noteq> DQUOTE" "\<not> isspace (hd s)"
  shows "pollSIMState (setRadioState np) np m =
    (let m1 = (\<lambda>st. m'\<lparr>sState := st, notices := notices m' @ [TGM_UNSOLICITED_RADIO_STATE_CHANGED]\<rparr>)
     in if s = ''READY'' then onSIMReady np (m1 TGM_STATE_SIM_READY) else Inr (m1 TGM_STATE_SIM_LOCKED_OR_ABSENT))"
proof -
  obtain cur' where t: "at_tok_nextstr (Some (CHR '' '' # s)) = (0, Some (Some s), cur')"
    using cpin_token[OF assms(7-10)] by blast
  have st: "at_tok_start (Some (''+CPIN: '' @ s)) = (0, Some (CHR '' '' # s))"
    by (simp add: at_tok_start_def)
  have g: "at_get_cme_error r = CME_SUCCESS" using assms(5) by (simp add: at_get_cme_error_def)
  have "getSIMStatus (setRadioState np) np m = Inr
      (if s = ''SIM PIN'' then TGM_SIM_PIN else if s = ''SIM PUK'' then TGM_SIM_PUK
       else if s = ''PH-NET PIN'' then TGM_SIM_NETWORK_PERSONALIZATION
       else if s \<noteq> ''READY'' then TGM_SIM_ABSENT else TGM_SIM_READY, m')"
    using assms(1,2,6) g t st
    by (simp add: getSIMStatus_on sim_result_def first_line_def cme_codes)
  moreover have "setRadioState np TGM_STATE_SIM_READY m' =
      onSIMReady np (m'\<lparr>sState := TGM_STATE_SIM_READY, notices := notices m' @ [TGM_UNSOLICITED_RADIO_STATE_CHANGED]\<rparr>)"
    "setRadioState np TGM_STATE_SIM_LOCKED_OR_ABSENT m' =
      Inr (m'\<lparr>sState := TGM_STATE_SIM_LOCKED_OR_ABSENT, notices := notices m' @ [TGM_UNSOLICITED_RADIO_STATE_CHANGED]\<rparr>)"
    using assms(3,4) by (simp_all add: setRadioState_def numeral_2_eq_2 setRadioState_with_def changeRadioState_def TGM_onUnsolicitedResponse_def)
  ultimately show ?thesis using assms(1) by (auto simp: pollSIMState_def sim_codes Let_def)
qed

lemma poll_follows_sim_witness:
  "pollSIMState (setRadioState True) True (demo_modem TGM_STATE_SIM_NOT_READY [EvLine ''+CPIN: SIM PIN'', EvLine ''OK'', EvWakeup]) =
    Inr ((demo_modem TGM_STATE_SIM_LOCKED_OR_ABSENT [])\<lparr>s_type := SINGLELINE, wire := ''AT+CPIN?'' @ [CR], notices := [1003]\<rparr>)"
proof -
  let ?m' = "(demo_modem TGM_STATE_SIM_NOT_READY [])\<lparr>s_type := SINGLELINE, wire := ''AT+CPIN?'' @ [CR]\<rparr>"
  have "at_send_command_singleline (tgm_env True) ''AT+CPIN?'' ''+CPIN:'' True
      (demo_modem TGM_STATE_SIM_NOT_READY [EvLine ''+CPIN: SIM PIN'', EvLine ''OK'', EvWakeup]) =
    Inr (0, Some \<lparr>success = 1, finalResponse = Some ''OK'', p_intermediates = [''+CPIN: '' @ ''SIM PIN'']\<rparr>, ?m')"
    by code_simp
  from poll_follows_sim[OF _ this] show ?thesis
    by (simp add: isspace_def TGM_UNSOLICITED_RADIO_STATE_CHANGED_def) (simp add: demo_modem_def)
qed

text \<open>The timed callbacks keep an idle channel idle.\<close>

lemma initializeCallback_ok: "idle m \<Longrightarrow> okO idle (initializeCallback np m)"
proof -
  have send: "okO (\<lambda>(e, out, m'). idle m') (at_send_command (tgm_env np) cmd False m)" if "idle m" for cmd m
    by (rule goodO_okO, rule plain.sends_idle) (use that in simp_all)
  have shake: "okO (\<lambda>(e, m'). idle m') (at_handshake (tgm_env np) m)" if "idle m" for m
    by (rule goodO_okO, rule handshake_good) (use that in simp_all)
  assume "idle m"
  then show ?thesis
    unfolding initializeCallback_def
    by (auto intro!: okO_seqO[OF setRadioState_ok] okO_seqO[OF send] okO_seqO[OF shake]
        okO_seqO[OF isRadioOn_good[THEN goodO_okO]] setRadioState_ok)
qed

lemma run_timed_ok: "idle m \<Longrightarrow> okO idle (run_timed np c m)"
  by (cases c) (auto simp: run_timed_def initializeCallback_ok intro: pollSIMState_ok setRadioState_ok)

end
