(* ===== verification/Huawei_Requests.thy ===== *)
theory Huawei_Requests
  imports Huawei_State
begin

text \<open>
  The Huawei modem driver \<open>huawei_tgm/huawei-tgm.c\<close>, part two: \<open>onRequest\<close> and the request
  handlers it calls. The data of a request is the array of strings libtgm hands over, an absent
  one for a NULL entry, and the empty list for no data. Each handler completes its token through
  \<open>TGM_onRequestComplete\<close>; a write outside one of the driver's fixed buffers is \<open>Undef\<close>.
\<close>

section \<open>Requests\<close>

text \<open>\<open>strings[i]\<close> used as a string.\<close>

definition arg :: "string option list \<Rightarrow> nat \<Rightarrow> string outcome" where
  "arg data i = (if i < length data then (case data ! i of None \<Rightarrow> Inl Undef | Some s \<Rightarrow> Inr s) else Inl Undef)"

definition requestSetupDefaultPDP :: "bool \<Rightarrow> string option list \<Rightarrow> token \<Rightarrow> modem \<Rightarrow> modem outcome" where
  "requestSetupDefaultPDP np data t m =
     seqO (arg data 0) (\<lambda>apn.
     seqO (at_send_command (tgm_env np) (''AT+CGDCONT=1,\"IP\",\"'' @ apn @ ''\",,0,0'') False m) (\<lambda>(_, _, m1).
     seqO (at_send_command (tgm_env np) ''AT+CGQREQ=1'' False m1) (\<lambda>(_, _, m2).
     seqO (at_send_command (tgm_env np) ''AT+CGQMIN=1'' False m2) (\<lambda>(_, _, m3).
     seqO (at_send_command (tgm_env np) ''AT+CGEREP=1,0'' False m3) (\<lambda>(err, _, m4).
       Inr (TGM_onRequestComplete t (if err < 0 then TGM_E_GENERIC_FAILURE else TGM_E_SUCCESS) NoData m4))))))"

definition requestEnterSIMPin :: "bool \<Rightarrow> string option list \<Rightarrow> token \<Rightarrow> modem \<Rightarrow> modem outcome" where
  "requestEnterSIMPin np data t m =
     (if length data \<noteq> 1 \<and> length data \<noteq> 2 then Inr (TGM_onRequestComplete t TGM_E_PASSWORD_INCORRECT NoData m)
      else seqO (if length data = 1 then seqO (arg data 0) (\<lambda>a. Inr (''AT+CPIN='' @ a))
                 else seqO (arg data 0) (\<lambda>a. seqO (arg data 1) (\<lambda>b. Inr (''AT+CPIN='' @ a @ '','' @ b)))) (\<lambda>cmd.
           seqO (at_send_command_singleline (tgm_env np) cmd ''+CPIN:'' True m) (\<lambda>(err, out, m1).
           seqO (failed err out) (\<lambda>bad.
             if bad \<and> err \<noteq> AT_ERROR_INVALID_RESPONSE then Inr (TGM_onRequestComplete t TGM_E_PASSWORD_INCORRECT NoData m1)
             else Inr (TGM_requestTimedCallback InitializeCallback 0 (TGM_onRequestComplete t TGM_E_SUCCESS NoData m1))))))"

definition requestDialDataNetwork :: "bool \<Rightarrow> token \<Rightarrow> modem \<Rightarrow> modem outcome" where
  "requestDialDataNetwork np t m =
     seqO (at_send_command (tgm_env np) ''ATD*99***1#'' False m) (\<lambda>(err, _, m1).
       if err < 0 then
         setRadioState np TGM_STATE_UNAVAILABLE ((TGM_onRequestComplete t TGM_E_GENERIC_FAILURE NoData m1)\<lparr>s_closed := True\<rparr>)
       else
         setRadioState np TGM_STATE_PPPD ((TGM_onRequestComplete t TGM_E_SUCCESS NoData m1)\<lparr>s_closed := True\<rparr>))"

definition requestDisconnectDataNetwork :: "token \<Rightarrow> modem \<Rightarrow> modem" where
  "requestDisconnectDataNetwork t m =
     TGM_onRequestComplete t TGM_E_SUCCESS NoData
       (if pppd_process_id m \<ge> 0 then m\<lparr>terminated := terminated m @ [pppd_process_id m]\<rparr> else m)"

text \<open>One line of the operator answer; \<open>None\<close> is the jump to \<open>error\<close>.\<close>

definition set_response :: "nat \<Rightarrow> string option \<Rightarrow> string option list \<Rightarrow> string option list outcome" where
  "set_response i v response = (if i < length response then Inr (response[i := v]) else Inl Undef)"

definition cache_carrier :: "nat \<Rightarrow> string \<Rightarrow> modem \<Rightarrow> modem outcome" where
  "cache_carrier i s m = (if i < length (cachedCarrier m) then
     (case cachedCarrier m ! i of
        Heap _ \<Rightarrow> Inr (m\<lparr>cachedCarrier := (cachedCarrier m)[i := Heap (if length s \<le> 128 then s else [])]\<rparr>)
      | Outside _ \<Rightarrow> Inl Undef) else Inl Undef)"

definition operator_line :: "nat \<Rightarrow> string \<Rightarrow> string option list \<Rightarrow> modem \<Rightarrow> (string option list option \<times> modem) outcome" where
  "operator_line i line response m =
     (case at_tok_start (Some line) of (err, c1) \<Rightarrow> if err < 0 then Inr (None, m) else
      case at_tok_nextint c1 of (err, _, c2) \<Rightarrow> if err < 0 then Inr (None, m) else
      if \<not> at_tok_hasmore c2 then seqO (set_response i None response) (\<lambda>rs. Inr (Some rs, m)) else
      case at_tok_nextint c2 of (err, _, c3) \<Rightarrow> if err < 0 then Inr (None, m) else
      if \<not> at_tok_hasmore c3 then seqO (set_response i None response) (\<lambda>rs. Inr (Some rs, m)) else
      case at_tok_nextstr c3 of (err, v, _) \<Rightarrow>
      if err < 0 then Inr (None, m) else
      (case v of Some (Some s) \<Rightarrow>
           seqO (set_response i (Some s) response) (\<lambda>rs.
           seqO (cache_carrier i s m) (\<lambda>m1.
             Inr (Some rs, m1\<lparr>properties_set := properties_set m1 @ [(''gsm.operator.alpha'', None)]\<rparr>)))
        | _ \<Rightarrow> Inl Undef))"

fun operator_loop :: "nat \<Rightarrow> string list \<Rightarrow> string option list \<Rightarrow> modem \<Rightarrow> ((nat \<times> string option list) option \<times> modem) outcome" where
  "operator_loop i [] response m = Inr (Some (i, response), m)"
| "operator_loop i (line # p_cur) response m =
     seqO (operator_line i line response m) (\<lambda>(rs, m1). case rs of
         None \<Rightarrow> Inr (None, m1)
       | Some response' \<Rightarrow> operator_loop (Suc i) p_cur response' m1)"

definition requestOperator :: "bool \<Rightarrow> token \<Rightarrow> modem \<Rightarrow> modem outcome" where
  "requestOperator np t m =
     seqO (at_send_command_multiline (tgm_env np) ''AT+COPS=3,0;+COPS?;+COPS=3,1;+COPS?;+COPS=3,2;+COPS?'' ''+COPS:'' True m)
       (\<lambda>(err, out, m1).
         if err \<noteq> 0 then Inr (TGM_onRequestComplete t TGM_E_GENERIC_FAILURE NoData m1)
         else (case out of None \<Rightarrow> Inl Undef | Some r \<Rightarrow>
           seqO (operator_loop 0 (p_intermediates r) [None, None, None] m1) (\<lambda>(res, m2).
             case res of
               Some (i, response) \<Rightarrow>
                 if i \<noteq> 3 then Inr (TGM_onRequestComplete t TGM_E_GENERIC_FAILURE NoData m2)
                 else Inr (TGM_onRequestComplete t TGM_E_SUCCESS (StrsData response) m2)
             | None \<Rightarrow> Inr (TGM_onRequestComplete t TGM_E_GENERIC_FAILURE NoData m2))))"

definition requestSignalStrength :: "bool \<Rightarrow> token \<Rightarrow> modem \<Rightarrow> modem outcome" where
  "requestSignalStrength np t m =
     (let error = (\<lambda>m'. Inr (TGM_onRequestComplete t TGM_E_GENERIC_FAILURE NoData m')) in
      seqO (at_send_command_singleline (tgm_env np) ''AT+CSQ'' ''+CSQ:'' True m) (\<lambda>(err, out, m1).
      seqO (failed err out) (\<lambda>bad.
        if bad then error (TGM_onRequestComplete t TGM_E_GENERIC_FAILURE NoData m1)
        else seqO (first_line out) (\<lambda>line.
          case at_tok_start (Some line) of (err, c1) \<Rightarrow> if err < 0 then error m1 else
          case at_tok_nextint c1 of (err, v0, c2) \<Rightarrow> if err < 0 then error m1 else
          case at_tok_nextint c2 of (err, v1, _) \<Rightarrow> if err < 0 then error m1 else
          (case (v0, v1) of (Some a, Some b) \<Rightarrow> Inr (TGM_onRequestComplete t TGM_E_SUCCESS (IntsData [a, b]) m1)
             | _ \<Rightarrow> Inl Undef)))))"

definition requestResetStack :: "bool \<Rightarrow> token \<Rightarrow> modem \<Rightarrow> modem outcome" where
  "requestResetStack np t m =
     seqO (setRadioState np TGM_STATE_UNAVAILABLE m) (\<lambda>m1. Inr (TGM_onRequestComplete t TGM_E_SUCCESS NoData m1))"

text \<open>\<open>username\<close> and \<open>password\<close> have 32 bytes each.\<close>

definition requestSetPPPDAuth :: "string option list \<Rightarrow> modem \<Rightarrow> modem outcome" where
  "requestSetPPPDAuth data m =
     (if length data = 1 then seqO (arg data 0) (\<lambda>name.
        if length name < 32 then Inr (m\<lparr>username := name\<rparr>) else Inl Undef)
      else if length data = 2 then seqO (arg data 0) (\<lambda>name. seqO (arg data 1) (\<lambda>pass.
        Inr (m\<lparr>username := if 0 < length name \<and> length name < 32 then name else [],
               password := if 0 < length pass \<and> length pass < 32 then pass else []\<rparr>)))
      else Inr m)"

text \<open>The queries that hand on the line of the response.\<close>

definition answer_line :: "token \<Rightarrow> (string \<Rightarrow> modem \<Rightarrow> modem outcome) \<Rightarrow> int \<times> ATResponse option \<times> modem \<Rightarrow> modem outcome" where
  "answer_line t use res = (case res of (err, out, m1) \<Rightarrow>
     seqO (failed err out) (\<lambda>bad.
       if bad then Inr (TGM_onRequestComplete t TGM_E_GENERIC_FAILURE NoData m1)
       else seqO (first_line out) (\<lambda>line. use line m1)))"

text \<open>\<open>cachedManufacturer\<close> and \<open>cachedModel\<close> have 128 bytes each.\<close>

definition copy_128 :: "string \<Rightarrow> string outcome" where
  "copy_128 line = (if length line \<le> 128 then (if length line < 128 then Inr line else Inl Undef) else Inr [])"

text \<open>The strings behind \<open>cachedCarrier\<close>, as the completion reads them.\<close>

fun carrier_string :: "carrier_buf \<Rightarrow> string option outcome" where
  "carrier_string (Heap s) = Inr (Some s)"
| "carrier_string (Outside _) = Inl Undef"

fun carrier_strings :: "carrier_buf list \<Rightarrow> string option list outcome" where
  "carrier_strings [] = Inr []"
| "carrier_strings (c # cs) = seqO (carrier_string c) (\<lambda>s. seqO (carrier_strings cs) (\<lambda>ss. Inr (s # ss)))"

text \<open>The cases of the switch that are written out in it.\<close>

definition queryIMEI :: "bool \<Rightarrow> token \<Rightarrow> modem \<Rightarrow> modem outcome" where
  "queryIMEI np t m =
      seqO (at_send_command_numeric (tgm_env np) ''AT+CGSN'' True m) (answer_line t (\<lambda>line m1.
        Inr ((TGM_onRequestComplete t TGM_E_SUCCESS (StrData line) m1)\<lparr>properties_set := properties_set m1 @ [(''gsm.imei'', Some line)]\<rparr>)))"

definition queryNumber :: "bool \<Rightarrow> token \<Rightarrow> modem \<Rightarrow> modem outcome" where
  "queryNumber np t m =
      seqO (at_send_command_singleline (tgm_env np) ''AT+CNUM'' ''+CNUM:'' True m) (answer_line t (\<lambda>line m1.
        Inr (TGM_onRequestComplete t TGM_E_SUCCESS (StrData line) m1)))"

definition queryManufacturer :: "bool \<Rightarrow> token \<Rightarrow> modem \<Rightarrow> modem outcome" where
  "queryManufacturer np t m =
      seqO (at_send_command_singleline (tgm_env np) ''AT+CGMI'' [] True m) (answer_line t (\<lambda>line m1.
        seqO (copy_128 line) (\<lambda>c. Inr (TGM_onRequestComplete t TGM_E_SUCCESS (StrData line) (m1\<lparr>cachedManufacturer := c\<rparr>)))))"

definition queryModemModel :: "bool \<Rightarrow> token \<Rightarrow> modem \<Rightarrow> modem outcome" where
  "queryModemModel np t m =
      seqO (at_send_command_singleline (tgm_env np) ''AT+CGMM'' [] True m) (answer_line t (\<lambda>line m1.
        seqO (copy_128 line) (\<lambda>c. Inr (TGM_onRequestComplete t TGM_E_SUCCESS (StrData line) (m1\<lparr>cachedModel := c\<rparr>)))))"

definition querySIMStatus :: "bool \<Rightarrow> token \<Rightarrow> modem \<Rightarrow> modem outcome" where
  "querySIMStatus np t m =
      seqO (getSIMStatus (setRadioState np) np m) (\<lambda>(simStatus, m1).
        Inr (TGM_onRequestComplete t TGM_E_SUCCESS (IntData simStatus) m1))"

definition queryIMSI :: "bool \<Rightarrow> token \<Rightarrow> modem \<Rightarrow> modem outcome" where
  "queryIMSI np t m =
      seqO (at_send_command_numeric (tgm_env np) ''AT+CIMI'' True m) (answer_line t (\<lambda>line m1.
        Inr (TGM_onRequestComplete t TGM_E_SUCCESS (StrData line) m1)))"

lemmas query_defs = queryIMEI_def queryNumber_def queryManufacturer_def queryModemModel_def querySIMStatus_def queryIMSI_def

text \<open>The switch at the end of \<open>onRequest\<close>.\<close>

definition handle_request :: "bool \<Rightarrow> int \<Rightarrow> string option list \<Rightarrow> token \<Rightarrow> modem \<Rightarrow> modem outcome" where
  "handle_request np request data t m =
     (if request = TGM_REQUEST_SET_PDP_CONTEXT then requestSetupDefaultPDP np data t m
      else if request = TGM_REQUEST_SET_PIN_CODE then requestEnterSIMPin np data t m
      else if request = TGM_REQUEST_DIAL_DATA_NETWORK then
        (if sState m \<noteq> TGM_STATE_SIM_READY then Inr m else requestDialDataNetwork np t m)
      else if request = TGM_REQUEST_DISCONNECT_DATA_NETWORK then
        (if sState m \<noteq> TGM_STATE_PPPD \<and> sState m \<noteq> TGM_STATE_PPPD_READY then Inr m
         else Inr (requestDisconnectDataNetwork t m))
      else if request = TGM_REQUEST_QUERY_SIGNAL_STRENGTH then requestSignalStrength np t m
      else if request = TGM_REQUEST_QUERY_IMEI then queryIMEI np t m
      else if request = TGM_REQUEST_QUERY_NUMBER then queryNumber np t m
      else if request = TGM_REQUEST_QUERY_MANUFACTURER then queryManufacturer np t m
      else if request = TGM_REQUEST_QUERY_MODEM_MODEL then queryModemModel np t m
      else if request = TGM_REQUEST_QUERY_OPERATOR then requestOperator np t m
      else if request = TGM_REQUEST_QUERY_SIM_STATUS then querySIMStatus np t m
      else if request = TGM_REQUEST_QUERY_IMSI then queryIMSI np t m
      else if request = TGM_REQUEST_QUERY_STATE then
        Inr (TGM_onRequestComplete t TGM_E_SUCCESS (StateData (sState m)) m)
      else if request = TGM_REQUEST_RESET_STACK then requestResetStack np t m
      else if request = TGM_REQUEST_SET_PPPD_AUTH then requestSetPPPDAuth data m
      else Inr m)"

definition onRequest :: "bool \<Rightarrow> int \<Rightarrow> string option list \<Rightarrow> token \<Rightarrow> modem \<Rightarrow> modem outcome" where
  "onRequest np request data t m =
     (if (sState m = TGM_STATE_OFF \<or> sState m = TGM_STATE_UNAVAILABLE)
          \<and> request \<noteq> TGM_REQUEST_QUERY_SIM_STATUS \<and> request \<noteq> TGM_REQUEST_QUERY_STATE \<and> request \<noteq> TGM_REQUEST_RESET_STACK
      then Inr (TGM_onRequestComplete t TGM_E_RADIO_NOT_AVAILABLE NoData m)
      else if (sState m = TGM_STATE_PPPD \<or> sState m = TGM_STATE_PPPD_READY)
          \<and> request \<noteq> TGM_REQUEST_QUERY_STATE \<and> request \<noteq> TGM_REQUEST_RESET_STACK \<and> request \<noteq> TGM_REQUEST_DISCONNECT_DATA_NETWORK
      then
        (if request = TGM_REQUEST_QUERY_OPERATOR then
           seqO (carrier_strings (cachedCarrier m)) (\<lambda>ss. Inr (TGM_onRequestComplete t TGM_E_SUCCESS (StrsData ss) m))
         else if request = TGM_REQUEST_QUERY_MODEM_MODEL then
           Inr (TGM_onRequestComplete t TGM_E_SUCCESS (StrData (cachedModel m)) m)
         else if request = TGM_REQUEST_QUERY_MANUFACTURER then
           Inr (TGM_onRequestComplete t TGM_E_SUCCESS (StrData (cachedManufacturer m)) m)
         else Inr (TGM_onRequestComplete t TGM_E_OP_NOT_ALLOWED_DURING_PPPD NoData m))
      else handle_request np request data t m)"

section \<open>How often a request is completed\<close>

text \<open>\<open>m'\<close> has one completion of \<open>t\<close> more than \<open>m\<close>.\<close>

definition once :: "token \<Rightarrow> modem \<Rightarrow> modem \<Rightarrow> bool" where
  "once t m m' \<longleftrightarrow> (\<exists>e p. completions m' = completions m @ [(t, e, p)])"

lemma completions_request_state: "request_state m1 = request_state m \<Longrightarrow> completions m1 = completions m"
  by (simp add: request_state_def)

lemma once_complete [simp]:
  "request_state m1 = request_state m \<Longrightarrow> once t m (TGM_onRequestComplete t e p m1)"
  by (auto simp: once_def TGM_onRequestComplete_def dest: completions_request_state)

lemma once_cong: "completions m1 = completions m2 \<Longrightarrow> once t m m1 = once t m m2"
  by (simp add: once_def)

lemma completions_simps [simp]:
  "completions (TGM_onRequestComplete t e p m) = completions m @ [(t, e, p)]"
  "completions (TGM_requestTimedCallback c d m) = completions m"
  "completions (TGM_onUnsolicitedResponse a m) = completions m"
  by (simp_all add: TGM_onRequestComplete_def TGM_requestTimedCallback_def TGM_onUnsolicitedResponse_def)

lemma request_state_closed [simp]: "request_state (m\<lparr>s_closed := b\<rparr>) = request_state m"
  by (simp add: request_state_def)

lemmas same_request = allO_seqO[OF keep_request.send_all[OF refl]] allO_seqO[OF keep_request.singleline_all[OF refl]]
  allO_seqO[OF keep_request.numeric_all[OF refl]] allO_seqO[OF keep_request.multiline_all[OF refl]]
  allO_seqO[OF keep_request.setRadioState_all[OF refl]] allO_seqO[OF keep_request.status_all[OF refl]]

lemma once_pdp: "allO (once t m) (requestSetupDefaultPDP np data t m)"
  unfolding requestSetupDefaultPDP_def
  by (rule allO_any) (auto intro!: same_request)

lemma once_pin: "allO (once t m) (requestEnterSIMPin np data t m)"
proof -
  have "allO (once t m) (seqO (at_send_command_singleline (tgm_env np) cmd ''+CPIN:'' True m) (\<lambda>(err, out, m1).
           seqO (failed err out) (\<lambda>bad.
             if bad \<and> err \<noteq> AT_ERROR_INVALID_RESPONSE then Inr (TGM_onRequestComplete t TGM_E_PASSWORD_INCORRECT NoData m1)
             else Inr (TGM_requestTimedCallback InitializeCallback 0 (TGM_onRequestComplete t TGM_E_SUCCESS NoData m1)))))" for cmd
    by (auto simp: once_def dest: completions_request_state intro!: same_request failed_all)
  note send = this
  show ?thesis
  proof (cases "length data \<noteq> 1 \<and> length data \<noteq> 2")
    case False
    then show ?thesis
      unfolding requestEnterSIMPin_def by (simp only: if_False) (rule allO_any, rule send)
  qed (simp add: requestEnterSIMPin_def)
qed

lemma once_dial: "allO (once t m) (requestDialDataNetwork np t m)"
proof -
  have "allO (once t m) (setRadioState np st (m1\<lparr>s_closed := True\<rparr>))" if "once t m m1" for st m1
  proof -
    have "allO (\<lambda>m'. request_state m' = request_state m1) (setRadioState np st (m1\<lparr>s_closed := True\<rparr>))"
      by (rule keep_request.setRadioState_all) simp
    with that show ?thesis
      by (cases "setRadioState np st (m1\<lparr>s_closed := True\<rparr>)") (auto simp: once_def dest: completions_request_state)
  qed
  then show ?thesis
    unfolding requestDialDataNetwork_def by (auto intro!: same_request)
qed

lemma operator_loop_completions:
  "completions m = cs \<Longrightarrow> allO (\<lambda>(res, m'). completions m' = cs) (operator_loop i lines response m)"
proof (induction lines arbitrary: i response m cs)
  case (Cons line lines)
  have "allO (\<lambda>(rs, m'). completions m' = cs) (operator_line i line response m)"
    using Cons.prems by (auto simp: operator_line_def set_response_def cache_carrier_def split: prod.split option.split carrier_buf.split)
  then show ?case
    by (simp, elim allO_seqO) (auto split: option.split intro: Cons.IH)
qed simp

lemma once_operator: "allO (once t m) (requestOperator np t m)"
proof -
  have "allO (once t m) (seqO (operator_loop 0 ls [None, None, None] m1) (\<lambda>(res, m2).
             case res of
               Some (i, response) \<Rightarrow>
                 if i \<noteq> 3 then Inr (TGM_onRequestComplete t TGM_E_GENERIC_FAILURE NoData m2)
                 else Inr (TGM_onRequestComplete t TGM_E_SUCCESS (StrsData response) m2)
             | None \<Rightarrow> Inr (TGM_onRequestComplete t TGM_E_GENERIC_FAILURE NoData m2)))"
    if "request_state m1 = request_state m" for ls m1
    by (rule allO_seqO[OF operator_loop_completions[OF refl]])
      (use that in \<open>auto simp: once_def dest: completions_request_state split: option.split\<close>)
  then show ?thesis
    unfolding requestOperator_def by (auto intro!: same_request split: option.split)
qed

lemma once_answer:
  assumes "request_state m1 = request_state m" "\<And>line. allO (once t m) (f line m1)"
  shows "allO (once t m) (answer_line t f (err, out, m1))"
  using assms by (auto simp: answer_line_def intro!: failed_all first_line_all)

lemma twice_signal:
  "allO (\<lambda>m'. once t m m' \<or> completions m' = completions m @ [(t, TGM_E_GENERIC_FAILURE, NoData), (t, TGM_E_GENERIC_FAILURE, NoData)])
    (requestSignalStrength np t m)"
  unfolding requestSignalStrength_def Let_def
  by (auto intro!: same_request failed_all first_line_all split: prod.split option.split dest: completions_request_state)

text \<open>The requests that are never completed.\<close>

definition unanswered :: "int \<Rightarrow> TGM_RadioState \<Rightarrow> bool" where
  "unanswered request st \<longleftrightarrow>
     st \<noteq> TGM_STATE_OFF \<and> st \<noteq> TGM_STATE_UNAVAILABLE \<and> st \<noteq> TGM_STATE_PPPD \<and> st \<noteq> TGM_STATE_PPPD_READY \<and>
     (request = TGM_REQUEST_DIAL_DATA_NETWORK \<and> st \<noteq> TGM_STATE_SIM_READY
      \<or> request = TGM_REQUEST_DISCONNECT_DATA_NETWORK \<or> request = TGM_REQUEST_SET_PPPD_AUTH
      \<or> request < 1 \<or> 16 < request \<or> request = 9)"

lemma once_copy:
  "completions m1 = completions m \<Longrightarrow> (\<And>c. completions (upd c) = completions m1)
    \<Longrightarrow> allO (once t m) (seqO (copy_128 line) (\<lambda>c. Inr (TGM_onRequestComplete t e p (upd c))))"
  by (rule allO_any) (simp add: once_def)

lemma once_queries:
  "allO (once t m) (seqO (at_send_command_numeric (tgm_env np) cmd True m) (answer_line t (\<lambda>line m1.
     Inr (TGM_onRequestComplete t e (StrData line) m1))))"
  "allO (once t m) (seqO (at_send_command_numeric (tgm_env np) cmd True m) (answer_line t (\<lambda>line m1.
     Inr ((TGM_onRequestComplete t e (StrData line) m1)\<lparr>properties_set := properties_set m1 @ [(n, Some line)]\<rparr>))))"
  "allO (once t m) (seqO (at_send_command_singleline (tgm_env np) cmd p True m) (answer_line t (\<lambda>line m1.
     Inr (TGM_onRequestComplete t e (StrData line) m1))))"
  "allO (once t m) (seqO (at_send_command_singleline (tgm_env np) cmd p True m) (answer_line t (\<lambda>line m1.
     seqO (copy_128 line) (\<lambda>c. Inr (TGM_onRequestComplete t e (StrData line) (m1\<lparr>cachedManufacturer := c\<rparr>))))))"
  "allO (once t m) (seqO (at_send_command_singleline (tgm_env np) cmd p True m) (answer_line t (\<lambda>line m1.
     seqO (copy_128 line) (\<lambda>c. Inr (TGM_onRequestComplete t e (StrData line) (m1\<lparr>cachedModel := c\<rparr>))))))"
  by (auto intro!: same_request once_answer once_copy simp: once_def dest: completions_request_state)

lemma once_status:
  "allO (once t m) (seqO (getSIMStatus (setRadioState np) np m) (\<lambda>(s, m1). Inr (TGM_onRequestComplete t e (p s) m1)))"
  "allO (once t m) (seqO (setRadioState np st m) (\<lambda>m1. Inr (TGM_onRequestComplete t e NoData m1)))"
  by (auto intro!: same_request)

lemma once_disconnect: "once t m (requestDisconnectDataNetwork t m)"
  by (simp add: once_def requestDisconnectDataNetwork_def)

lemma auth_completions: "allO (\<lambda>m'. completions m' = completions m) (requestSetPPPDAuth data m)"
  by (auto simp: requestSetPPPDAuth_def intro!: allO_any)

lemma once_carriers:
  "allO (once t m) (seqO (carrier_strings cs) (\<lambda>ss. Inr (TGM_onRequestComplete t e (StrsData ss) m)))"
  by (rule allO_any) simp

lemmas once_rules = once_pdp once_pin once_dial once_operator once_queries once_status once_disconnect once_carriers

lemma weak_once: "allO (once t m) r \<Longrightarrow> allO (\<lambda>m'. once t m m' \<or> Q m') r"
  by (cases r) auto

lemma handle_completions:
  "allO (\<lambda>m'. if request = 3 \<and> sState m \<noteq> TGM_STATE_SIM_READY
        \<or> request = 4 \<and> sState m \<noteq> TGM_STATE_PPPD \<and> sState m \<noteq> TGM_STATE_PPPD_READY \<or> request = 16
        \<or> request < 1 \<or> 16 < request \<or> request = 9
      then completions m' = completions m
      else once t m m' \<or> request = 5 \<and>
        completions m' = completions m @ [(t, TGM_E_GENERIC_FAILURE, NoData), (t, TGM_E_GENERIC_FAILURE, NoData)])
    (handle_request np request data t m)"
proof -
  have "request \<in> {1, 2, 3} \<or> request \<in> {4, 5, 6, 7} \<or> request \<in> {8, 10, 11, 12} \<or> request \<in> {13, 14, 15, 16}
    \<or> (request < 1 \<or> 16 < request \<or> request = 9)"
    by (simp, presburger)
  then consider "request \<in> {1, 2, 3}" | "request \<in> {4, 5, 6, 7}" | "request \<in> {8, 10, 11, 12}" | "request \<in> {13, 14, 15, 16}"
    | "request < 1 \<or> 16 < request \<or> request = 9"
    by blast
  then show ?thesis
    by cases (auto simp: handle_request_def query_defs request_codes requestResetStack_def
        intro!: weak_once once_rules once_disconnect auth_completions twice_signal)
qed

lemma request_completions:
  "allO (\<lambda>m'. if unanswered request (sState m) then completions m' = completions m
     else once t m m' \<or> request = TGM_REQUEST_QUERY_SIGNAL_STRENGTH \<and>
       completions m' = completions m @ [(t, TGM_E_GENERIC_FAILURE, NoData), (t, TGM_E_GENERIC_FAILURE, NoData)])
    (onRequest np request data t m)"
proof (cases "unanswered request (sState m)")
  case True
  then have "onRequest np request data t m = handle_request np request data t m"
    by (simp add: onRequest_def unanswered_def)
  with True handle_completions[where request = request and m = m and np = np and data = data and t = t] show ?thesis
    by (auto simp: unanswered_def request_codes elim!: allO_mono)
next
  case False
  show ?thesis
  proof (cases "(sState m = TGM_STATE_OFF \<or> sState m = TGM_STATE_UNAVAILABLE) \<and> request \<notin> {11, 14, 15}
      \<or> (sState m = TGM_STATE_PPPD \<or> sState m = TGM_STATE_PPPD_READY) \<and> request \<notin> {4, 14, 15}")
    case True
    then have "allO (once t m) (onRequest np request data t m)"
      by (auto simp: onRequest_def request_codes intro!: once_carriers)
    with False show ?thesis by (auto elim!: allO_mono)
  next
    case regular: False
    then have "onRequest np request data t m = handle_request np request data t m"
      by (auto simp: onRequest_def request_codes)
    moreover have "\<not> (request = 3 \<and> sState m \<noteq> TGM_STATE_SIM_READY
        \<or> request = 4 \<and> sState m \<noteq> TGM_STATE_PPPD \<and> sState m \<noteq> TGM_STATE_PPPD_READY \<or> request = 16
        \<or> request < 1 \<or> 16 < request \<or> request = 9)"
      using False regular by (auto simp: unanswered_def request_codes)
    ultimately show ?thesis
      using False handle_completions[where request = request and m = m and np = np and data = data and t = t]
      by (auto simp: request_codes elim!: allO_mono split: if_splits)
  qed
qed

text \<open> C10.
  \<open>completion_count\<close>: whenever \<open>onRequest\<close> returns, it has completed exactly its own token, and
  exactly once, but for two mistakes: the requests of \<open>unanswered\<close> (dialling before the SIM is
  ready, disconnecting without pppd, setting the pppd authentication, unknown requests) return
  without a completion, so their client waits for ever, and a failed signal strength query is
  completed twice.
\<close>

theorem completion_count:
  "allO (\<lambda>m'. if unanswered request (sState m) then completions m' = completions m
     else once t m m' \<or> request = TGM_REQUEST_QUERY_SIGNAL_STRENGTH \<and>
       completions m' = completions m @ [(t, TGM_E_GENERIC_FAILURE, NoData), (t, TGM_E_GENERIC_FAILURE, NoData)])
    (onRequest np request data t m)"
  by (rule request_completions)

section \<open>The line that pppd has\<close>

lemma setRadioState_down:
  "setRadioState np TGM_STATE_UNAVAILABLE m = Inr (fst (changeRadioState TGM_STATE_UNAVAILABLE m))"
  using changed_state[of TGM_STATE_UNAVAILABLE m]
  by (auto simp: setRadioState_def numeral_2_eq_2 setRadioState_with_alt Let_def)

lemma wire_simps [simp]:
  "wire (TGM_onRequestComplete t e p m) = wire m" "wire (fst (changeRadioState st m)) = wire m"
  "wire (requestDisconnectDataNetwork t m) = wire m"
  "sched (TGM_onRequestComplete t e p m) = sched m" "sched (fst (changeRadioState st m)) = sched m"
  "sched (requestDisconnectDataNetwork t m) = sched m"
  by (simp_all add: TGM_onRequestComplete_def changeRadioState_def Let_def TGM_onUnsolicitedResponse_def requestDisconnectDataNetwork_def)

lemma carrier_strings_cases:
  "(\<exists>ss. carrier_strings cs = Inr ss) \<or> carrier_strings cs = Inl Undef \<and> (\<exists>k. Outside k \<in> set cs)"
proof (induction cs)
  case (Cons c cs)
  then show ?case by (cases c) auto
qed simp

text \<open> C38.
  \<open>pppd_owns_the_line\<close>: once pppd has the serial line, no request writes to it or waits for the
  modem. Every request returns at once, with what was written to the line and the events of the
  modem still to come unchanged, but for the operator query when a pointer of \<open>cachedCarrier\<close> leads
  outside its block, which is undefined.
\<close>

theorem pppd_owns_the_line:
  assumes "sState m = TGM_STATE_PPPD \<or> sState m = TGM_STATE_PPPD_READY"
  shows "(\<exists>m'. onRequest np request data t m = Inr m' \<and> wire m' = wire m \<and> sched m' = sched m) \<or>
    request = TGM_REQUEST_QUERY_OPERATOR \<and> (\<exists>k. Outside k \<in> set (cachedCarrier m)) \<and> onRequest np request data t m = Inl Undef"
proof (cases "request = TGM_REQUEST_QUERY_OPERATOR")
  case False
  then show ?thesis using assms
    by (auto simp: onRequest_def handle_request_def query_defs request_codes requestResetStack_def setRadioState_down)
next
  case True
  then have "onRequest np request data t m = seqO (carrier_strings (cachedCarrier m)) (\<lambda>ss. Inr (TGM_onRequestComplete t TGM_E_SUCCESS (StrsData ss) m))"
    using assms by (auto simp: onRequest_def request_codes)
  then show ?thesis using True carrier_strings_cases[of "cachedCarrier m"] by auto
qed

lemma pppd_owns_the_line_witness:
  "\<exists>m'. onRequest True TGM_REQUEST_QUERY_SIGNAL_STRENGTH [] 1 (demo_modem TGM_STATE_PPPD_READY []) = Inr m' \<and> wire m' = []"
  using pppd_owns_the_line[of "demo_modem TGM_STATE_PPPD_READY []" True TGM_REQUEST_QUERY_SIGNAL_STRENGTH "[]" 1]
  by (auto simp: request_codes)

section \<open>Dialling\<close>

text \<open>
  \<open>dial_ignores_final_error\<close>: the request to dial looks only at the error of the channel, not at
  the final response. Whatever the modem answers, \<open>NO CARRIER\<close> and \<open>ERROR\<close> included, the request
  is completed with success and the radio state becomes PPPD.
\<close>

theorem dial_ignores_final_error:
  assumes "idle m" "sState m = TGM_STATE_SIM_READY" "\<not> on_reader m" "\<not> s_readerClosed m" "s_unsolHandler m"
    "writeline ''ATD*99***1#'' m = (0, m1)"
    "quiet evs" "isFinalResponse fin" "sched m = evs @ EvLine fin # EvWakeup # rest"
  shows "\<exists>m'. onRequest True TGM_REQUEST_DIAL_DATA_NETWORK data t m = Inr m' \<and>
    completions m' = completions m @ [(t, TGM_E_SUCCESS, NoData)] \<and> sState m' = TGM_STATE_PPPD \<and> s_closed m'"
proof -
  have w: "wait_for (tgm_env True) TGM_TIMEOUT m1 = (For_ms TGM_TIMEOUT, m1)"
    by (simp add: wait_for_def TGM_TIMEOUT_def)
  define m2 where "m2 = m1\<lparr>s_type := NO_RESULT, sched := rest, unsol := unsol m @ leftover NO_RESULT None evs\<rparr>"
  have "at_send_command (tgm_env True) ''ATD*99***1#'' False m = Inr (0, None, m2)"
    using exchange_result[OF assms(1,6,3,4,5) w _ _ assms(7,8,9), where type = NO_RESULT and pfx = None and want = False]
    by (simp add: at_send_command_def prefix_given_def m2_def)
  moreover have "chan.more m2 = chan.more m"
    using more_writeline[OF assms(6)] by (simp add: m2_def)
  ultimately show ?thesis
    using assms(2) more_modem[of m2 m]
    by (auto simp: onRequest_def handle_request_def query_defs request_codes requestDialDataNetwork_def setRadioState_def numeral_2_eq_2
        setRadioState_with_def changeRadioState_def TGM_onRequestComplete_def TGM_onUnsolicitedResponse_def
        dest: completions_request_state)
qed

lemma dial_ignores_final_error_witness:
  "\<exists>m'. onRequest True TGM_REQUEST_DIAL_DATA_NETWORK [] 4 (demo_modem TGM_STATE_SIM_READY [EvLine ''NO CARRIER'', EvWakeup]) = Inr m' \<and>
    completions m' = [(4, TGM_E_SUCCESS, NoData)] \<and> sState m' = TGM_STATE_PPPD \<and> s_closed m'"
proof -
  let ?m = "demo_modem TGM_STATE_SIM_READY [EvLine ''NO CARRIER'', EvWakeup]"
  have "isFinalResponse ''NO CARRIER''" by code_simp
  moreover have "writeline ''ATD*99***1#'' ?m = (0, ?m\<lparr>wire := ''ATD*99***1#'' @ [CR]\<rparr>)"
    by (simp add: writeline_def put_def demo_modem_def)
  ultimately show ?thesis
    using dial_ignores_final_error[of ?m _ "[]" "''NO CARRIER''" "[]" "[]" 4]
    by (simp add: quiet_def) (simp add: demo_modem_def)
qed

section \<open>Answers of the modem\<close>

text \<open>
  \<open>signal_strength_reported\<close>: a signal strength answer with two printed numbers of \<open>int\<close> size
  completes the request with these two numbers.
\<close>

theorem signal_strength_reported:
  assumes "at_send_command_singleline (tgm_env np) ''AT+CSQ'' ''+CSQ:'' True m = Inr (0, Some r, m1)"
    "success r = 1" "p_intermediates r = [''+CSQ: '' @ dec_int a @ '','' @ dec_int b]"
    "- 2147483648 \<le> a" "a \<le> 2147483647" "- 2147483648 \<le> b" "b \<le> 2147483647"
  shows "requestSignalStrength np t m = Inr (TGM_onRequestComplete t TGM_E_SUCCESS (IntsData [a, b]) m1)"
proof -
  have st: "at_tok_start (Some (''+CSQ: '' @ dec_int a @ '','' @ dec_int b)) = (0, Some ('' '' @ dec_int a @ '','' @ dec_int b))"
    by (simp add: at_tok_start_def)
  have "at_tok_nextint (Some ('' '' @ dec_int a @ '','' @ dec_int b)) = (0, Some a, Some (dec_int b))"
    using nextint_comma[of "'' ''" a "dec_int b"] assms(4,5) by (simp add: isspace_def LONG_MIN_def LONG_MAX_def)
  moreover obtain cur where "at_tok_nextint (Some (dec_int b)) = (0, Some b, cur)"
    using at_tok_nextint_end[of "[]" b] assms(6,7) by (auto simp: LONG_MIN_def LONG_MAX_def)
  ultimately show ?thesis
    using assms(1-3) st by (simp add: requestSignalStrength_def Let_def failed_def first_line_def)
qed

lemma signal_strength_reported_witness:
  "requestSignalStrength True 9 (demo_modem TGM_STATE_SIM_READY [EvLine ''+CSQ: 20,99'', EvLine ''OK'', EvWakeup]) =
    Inr (TGM_onRequestComplete 9 TGM_E_SUCCESS (IntsData [20, 99])
      ((demo_modem TGM_STATE_SIM_READY [])\<lparr>s_type := SINGLELINE, wire := ''AT+CSQ'' @ [CR]\<rparr>))"
proof -
  have d: "dec_int 20 = ''20''" "dec_int 99 = ''99''" by code_simp+
  have "at_send_command_singleline (tgm_env True) ''AT+CSQ'' ''+CSQ:'' True
      (demo_modem TGM_STATE_SIM_READY [EvLine ''+CSQ: 20,99'', EvLine ''OK'', EvWakeup]) =
    Inr (0, Some \<lparr>success = 1, finalResponse = Some ''OK'', p_intermediates = [''+CSQ: 20,99'']\<rparr>,
      (demo_modem TGM_STATE_SIM_READY [])\<lparr>s_type := SINGLELINE, wire := ''AT+CSQ'' @ [CR]\<rparr>)"
    by code_simp
  from signal_strength_reported[OF this, of 20 99 9] show ?thesis by (simp add: d)
qed

section \<open>The fixed buffers\<close>

text \<open>What \<open>TGM_Init\<close> puts into \<open>cachedCarrier\<close>; the heap block has some content \<open>c\<close>.\<close>

definition initial_carriers :: "string \<Rightarrow> carrier_buf list" where
  "initial_carriers c = [Heap c, Outside 128, Outside 256]"

text \<open>A line of the operator answer with a name.\<close>

definition cops :: "int \<Rightarrow> int \<Rightarrow> string \<Rightarrow> string" where
  "cops mode format name = ''+COPS: '' @ dec_int mode @ '','' @ dec_int format @ '',\"'' @ name @ ''\"''"

lemma operator_line_named:
  assumes "DQUOTE \<notin> set name"
  shows "operator_line i (cops a f name) response m =
    seqO (set_response i (Some name) response) (\<lambda>rs. seqO (cache_carrier i name m) (\<lambda>m1.
      Inr (Some rs, m1\<lparr>properties_set := properties_set m1 @ [(''gsm.operator.alpha'', None)]\<rparr>)))"
proof -
  have q: "''\"'' = [DQUOTE]" "'',\"'' = [COMMA, DQUOTE]" by simp_all
  have "at_tok_start (Some (cops a f name)) = (0, Some ('' '' @ dec_int a @ COMMA # dec_int f @ COMMA # DQUOTE # name @ [DQUOTE]))"
    by (simp add: at_tok_start_def cops_def)
  moreover have "\<exists>v. at_tok_nextint (Some ('' '' @ dec_int a @ COMMA # dec_int f @ COMMA # DQUOTE # name @ [DQUOTE])) =
      (0, v, Some (dec_int f @ COMMA # DQUOTE # name @ [DQUOTE]))"
    using nextint_comma[of "'' ''" a] by (simp add: isspace_def)
  moreover have "\<exists>v. at_tok_nextint (Some (dec_int f @ COMMA # DQUOTE # name @ [DQUOTE])) = (0, v, Some (DQUOTE # name @ [DQUOTE]))"
    using nextint_comma[of "[]" f] by simp
  moreover have "\<exists>cur. at_tok_nextstr (Some (DQUOTE # name @ [DQUOTE])) = (0, Some (Some name), cur)"
    using nextTok_field_end[of "[]" "Quoted name"] assms
    by (cases "nextTok (Some (DQUOTE # name @ [DQUOTE]))") (auto simp: at_tok_nextstr_def)
  moreover have "dec_int f @ COMMA # x \<noteq> []" for x by simp
  ultimately show ?thesis
    by (auto simp: operator_line_def at_tok_hasmore_def)
qed

text \<open> C40.
  \<open>operator_answer_overruns\<close>: with the carrier buffers of \<open>TGM_Init\<close>, whose second and third
  pointer are computed behind the end of the pointer array instead of behind the start of the heap
  block, the normal answer to an operator query, whose second line names the operator, makes the
  driver write outside its memory.
\<close>

theorem operator_answer_overruns:
  assumes "cachedCarrier m = initial_carriers c"
    "at_send_command_multiline (tgm_env np) ''AT+COPS=3,0;+COPS?;+COPS=3,1;+COPS?;+COPS=3,2;+COPS?'' ''+COPS:'' True m = Inr (0, Some r, m1)"
    "p_intermediates r = cops a f name # cops a' f' name' # lines"
    "DQUOTE \<notin> set name" "DQUOTE \<notin> set name'"
  shows "requestOperator np t m = Inl Undef"
proof -
  have "allO (\<lambda>(e, out, m'). request_state m' = request_state m) (at_send_command_multiline (tgm_env np)
      ''AT+COPS=3,0;+COPS?;+COPS=3,1;+COPS?;+COPS=3,2;+COPS?'' ''+COPS:'' True m)"
    by (rule keep_request.multiline_all) simp
  then have "request_state m1 = request_state m" by (simp add: assms(2))
  then have "cachedCarrier m1 = initial_carriers c" using assms(1) by (simp add: request_state_def)
  then show ?thesis
    using assms(2-5) by (simp add: requestOperator_def operator_line_named set_response_def cache_carrier_def initial_carriers_def)
qed

lemma operator_answer_overruns_witness:
  "requestOperator True 3 (demo_modem TGM_STATE_SIM_READY
    [EvLine (cops 0 0 ''Chunghwa''), EvLine (cops 0 1 ''CHT''), EvLine (cops 0 2 ''46692''), EvLine ''OK'', EvWakeup]) = Inl Undef"
proof -
  let ?es = "[EvLine (cops 0 0 ''Chunghwa''), EvLine (cops 0 1 ''CHT''), EvLine (cops 0 2 ''46692''), EvLine ''OK'', EvWakeup]"
  have "at_send_command_multiline (tgm_env True) ''AT+COPS=3,0;+COPS?;+COPS=3,1;+COPS?;+COPS=3,2;+COPS?'' ''+COPS:'' True (demo_modem TGM_STATE_SIM_READY ?es)
    = Inr (0, Some \<lparr>success = 1, finalResponse = Some ''OK'', p_intermediates = [cops 0 0 ''Chunghwa'', cops 0 1 ''CHT'', cops 0 2 ''46692'']\<rparr>,
        (demo_modem TGM_STATE_SIM_READY [])\<lparr>s_type := MULTILINE, wire := ''AT+COPS=3,0;+COPS?;+COPS=3,1;+COPS?;+COPS=3,2;+COPS?'' @ [CR]\<rparr>)"
    by code_simp
  from operator_answer_overruns[OF _ this, of "[]"] show ?thesis
    by (simp add: demo_modem_def initial_carriers_def)
qed

text \<open>
  \<open>pppd_auth_bounds\<close>: a request that sets only the user name overruns the 32 bytes of \<open>username\<close>
  exactly when the name has 32 characters or more; with a name and a password both are bounded:
  one that is empty or too long is replaced by the empty string.
\<close>

theorem pppd_auth_bounds:
  "(requestSetPPPDAuth [Some name] m = Inl Undef \<longleftrightarrow> 32 \<le> length name) \<and>
   (\<exists>m'. requestSetPPPDAuth [Some name, Some pass] m = Inr m' \<and> length (username m') < 32 \<and> length (password m') < 32 \<and>
      username m' \<in> {name, []} \<and> password m' \<in> {pass, []})"
  by (simp add: requestSetPPPDAuth_def arg_def)

text \<open>
  \<open>manufacturer_off_by_one\<close>: a manufacturer name is copied when it has at most 128 characters,
  into a buffer of 128 bytes: with exactly 128 characters the terminating NUL is written behind
  its end, every shorter name is cached whole, and a longer one clears the cache.
\<close>

theorem manufacturer_off_by_one:
  assumes "at_send_command_singleline (tgm_env np) ''AT+CGMI'' [] True m = Inr (0, Some r, m1)"
    "success r = 1" "p_intermediates r = [line]" "sState m = TGM_STATE_SIM_READY"
  shows "onRequest np TGM_REQUEST_QUERY_MANUFACTURER data t m =
    (if length line = 128 then Inl Undef
     else Inr ((TGM_onRequestComplete t TGM_E_SUCCESS (StrData line) m1)
            \<lparr>cachedManufacturer := if length line < 128 then line else []\<rparr>))"
  using assms
  by (auto simp: onRequest_def handle_request_def query_defs request_codes answer_line_def failed_def first_line_def copy_128_def
      TGM_onRequestComplete_def)

lemma manufacturer_off_by_one_witness:
  "onRequest True TGM_REQUEST_QUERY_MANUFACTURER [] 2
     (demo_modem TGM_STATE_SIM_READY [EvLine (replicate 128 CHR ''h''), EvLine ''OK'', EvWakeup]) = Inl Undef"
proof -
  let ?h = "replicate 128 CHR ''h''"
  have "at_send_command_singleline (tgm_env True) ''AT+CGMI'' [] True (demo_modem TGM_STATE_SIM_READY [EvLine ?h, EvLine ''OK'', EvWakeup])
    = Inr (0, Some \<lparr>success = 1, finalResponse = Some ''OK'', p_intermediates = [?h]\<rparr>,
        (demo_modem TGM_STATE_SIM_READY [])\<lparr>s_type := SINGLELINE, wire := ''AT+CGMI'' @ [CR]\<rparr>)"
    by code_simp
  from manufacturer_off_by_one[OF this] show ?thesis by simp
qed

section \<open>What requests keep\<close>

text \<open>
  The parts of the state a handler changes only through the channel and the radio state; its
  completions and timed callbacks are added at the end.
\<close>

definition same_core :: "modem \<Rightarrow> modem \<Rightarrow> bool" where
  "same_core m m' \<longleftrightarrow> sp_response m' = sp_response m \<and> s_responsePrefix m' = s_responsePrefix m \<and> s_smsPDU m' = s_smsPDU m
     \<and> sState m' = sState m \<and> s_closed m' = s_closed m \<and> notices m' = notices m
     \<and> pppd_fail_times m' = pppd_fail_times m
     \<and> Sublist.prefix (completions m) (completions m') \<and> Sublist.prefix (timed m) (timed m')"

lemma same_core_simps [simp]:
  "same_core m m" "same_core m (TGM_onRequestComplete t e p m)" "same_core m (TGM_requestTimedCallback c d m)"
  "same_core m (m\<lparr>properties_set := x2\<rparr>)" "same_core m (m\<lparr>cachedManufacturer := x3\<rparr>)"
  "same_core m (m\<lparr>cachedModel := x4\<rparr>)" "same_core m (m\<lparr>cachedCarrier := x5\<rparr>)" "same_core m (m\<lparr>username := x6\<rparr>)"
  "same_core m (m\<lparr>username := x6, password := x7\<rparr>)" "same_core m (requestDisconnectDataNetwork t m)"
  by (simp_all add: same_core_def TGM_onRequestComplete_def TGM_requestTimedCallback_def requestDisconnectDataNetwork_def)

lemma request_number:
  obtains "request \<in> {1, 2, 3, 4}" | "request \<in> {5, 6, 7, 8}" | "request \<in> {10, 11, 12, 13}" | "request \<in> {14, 15, 16}"
    | "(request :: int) < 1 \<or> 16 < request \<or> request = 9"
proof -
  have "request \<in> {1, 2, 3, 4} \<or> request \<in> {5, 6, 7, 8} \<or> request \<in> {10, 11, 12, 13} \<or> request \<in> {14, 15, 16}
    \<or> (request < 1 \<or> 16 < request \<or> request = 9)"
    by (simp, presburger)
  then show thesis using that by blast
qed

text \<open>The interface between the lower layers and the request handlers, for a predicate on the state.\<close>

locale request_keeper =
  fixes np :: bool and P :: "modem \<Rightarrow> bool"
  assumes core: "P m \<Longrightarrow> same_core m m' \<Longrightarrow> P m'"
    and send: "P m \<Longrightarrow> allO (\<lambda>(e, out, m'). P m') (at_send_command (tgm_env np) cmd False m)"
    and single: "P m \<Longrightarrow> allO (\<lambda>(e, out, m'). P m') (at_send_command_singleline (tgm_env np) cmd p True m)"
    and num: "P m \<Longrightarrow> allO (\<lambda>(e, out, m'). P m') (at_send_command_numeric (tgm_env np) cmd True m)"
    and multi: "P m \<Longrightarrow> allO (\<lambda>(e, out, m'). P m') (at_send_command_multiline (tgm_env np) cmd p True m)"
    and radio: "P m \<Longrightarrow> allO P (setRadioState np st m)"
    and status: "P m \<Longrightarrow> allO (\<lambda>(x, m'). P m') (getSIMStatus (setRadioState np) np m)"
    and closing: "P m \<Longrightarrow> st = TGM_STATE_UNAVAILABLE \<or> st = TGM_STATE_PPPD \<Longrightarrow> allO P (setRadioState np st (m\<lparr>s_closed := True\<rparr>))"
begin

lemma complete [simp]: "P m \<Longrightarrow> P (TGM_onRequestComplete t e p m)"
  by (erule core) simp

lemma complete_upd:
  "P m \<Longrightarrow> P ((TGM_onRequestComplete t e p m)\<lparr>properties_set := x\<rparr>)"
  by (rule core[of "TGM_onRequestComplete t e p m"]) simp_all

lemmas steps = allO_seqO[OF send] allO_seqO[OF single] allO_seqO[OF num] allO_seqO[OF multi] allO_seqO[OF radio] allO_seqO[OF status]

lemma pdp: "P m \<Longrightarrow> allO P (requestSetupDefaultPDP np data t m)"
  unfolding requestSetupDefaultPDP_def by (rule allO_any) (auto intro!: steps)

lemma pin: "P m \<Longrightarrow> allO P (requestEnterSIMPin np data t m)"
proof -
  assume "P m"
  have timer: "P (TGM_requestTimedCallback c d m')" if "P m'" for c d m' by (rule core[OF that]) simp
  have "allO P (seqO (at_send_command_singleline (tgm_env np) cmd ''+CPIN:'' True m) (\<lambda>(err, out, m1).
           seqO (failed err out) (\<lambda>bad.
             if bad \<and> err \<noteq> AT_ERROR_INVALID_RESPONSE then Inr (TGM_onRequestComplete t TGM_E_PASSWORD_INCORRECT NoData m1)
             else Inr (TGM_requestTimedCallback InitializeCallback 0 (TGM_onRequestComplete t TGM_E_SUCCESS NoData m1)))))" for cmd
    using \<open>P m\<close> by (auto intro!: steps failed_all timer)
  note cmd = this
  show ?thesis
  proof (cases "length data \<noteq> 1 \<and> length data \<noteq> 2")
    case False
    then show ?thesis unfolding requestEnterSIMPin_def by (simp only: if_False) (rule allO_any, rule cmd)
  qed (use \<open>P m\<close> in \<open>simp add: requestEnterSIMPin_def\<close>)
qed

lemma dial: "P m \<Longrightarrow> allO P (requestDialDataNetwork np t m)"
  unfolding requestDialDataNetwork_def by (auto intro!: steps closing)

lemma operator_loop_keeps: "P m \<Longrightarrow> allO (\<lambda>(res, m'). P m') (operator_loop i lines response m)"
proof (induction lines arbitrary: i response m)
  case (Cons line lines)
  have cache: "allO P (cache_carrier i s m)" for i s
    using Cons.prems core[of m "m\<lparr>cachedCarrier := x\<rparr>" for x] by (auto simp: cache_carrier_def split: carrier_buf.split)
  have props: "P (m'\<lparr>properties_set := x\<rparr>)" if "P m'" for m' x by (rule core[OF that]) simp
  have "allO (\<lambda>(rs, m'). P m') (operator_line i line response m)"
    using Cons.prems
    by (auto simp: operator_line_def set_response_def intro!: allO_seqO[OF cache] props split: prod.split option.split)
  then show ?case by (simp, elim allO_seqO) (auto split: option.split intro: Cons.IH)
qed simp

lemma oper: "P m \<Longrightarrow> allO P (requestOperator np t m)"
  unfolding requestOperator_def
  by (auto intro!: steps allO_seqO[OF operator_loop_keeps] split: option.split)

lemma signal: "P m \<Longrightarrow> allO P (requestSignalStrength np t m)"
  unfolding requestSignalStrength_def Let_def
  by (auto intro!: steps failed_all first_line_all split: prod.split option.split)

lemma reset: "P m \<Longrightarrow> allO P (requestResetStack np t m)"
  unfolding requestResetStack_def by (auto intro!: steps)

lemma auth: "P m \<Longrightarrow> allO P (requestSetPPPDAuth data m)"
  using core[of m "m\<lparr>username := x\<rparr>" for x] core[of m "m\<lparr>username := x, password := y\<rparr>" for x y]
  by (auto simp: requestSetPPPDAuth_def intro!: allO_any)

lemma answer: "P m1 \<Longrightarrow> (\<And>line. allO P (f line m1)) \<Longrightarrow> allO P (answer_line t f (err, out, m1))"
  by (auto simp: answer_line_def intro!: failed_all first_line_all)

lemma cached:
  "P m1 \<Longrightarrow> allO P (seqO (copy_128 line) (\<lambda>c. Inr (TGM_onRequestComplete t e p (m1\<lparr>cachedManufacturer := c\<rparr>))))"
  "P m1 \<Longrightarrow> allO P (seqO (copy_128 line) (\<lambda>c. Inr (TGM_onRequestComplete t e p (m1\<lparr>cachedModel := c\<rparr>))))"
  by (rule allO_any, simp, rule complete, erule core, simp)+

lemma disconnect: "P m \<Longrightarrow> P (requestDisconnectDataNetwork t m)"
  by (erule core) simp

lemma handle: "P m \<Longrightarrow> allO P (handle_request np request data t m)"
proof -
  assume "P m"
  then show ?thesis
    by (cases rule: request_number[of request]) (auto simp: handle_request_def query_defs request_codes intro!: pdp pin dial oper signal reset auth disconnect steps answer cached complete_upd)
qed

lemma onRequest_keeps: "P m \<Longrightarrow> allO P (onRequest np request data t m)"
  unfolding onRequest_def by (auto intro!: handle allO_any)

end

lemma goodO_allO: "goodO P m \<Longrightarrow> allO P m"
  by (cases m) auto

lemma okO_allO: "okO P m \<Longrightarrow> allO P m"
  by (cases m) auto

lemma setRadioState_no_call:
  "st \<noteq> TGM_STATE_SIM_READY \<Longrightarrow> st \<noteq> TGM_STATE_SIM_NOT_READY \<Longrightarrow> setRadioState np st m = Inr (fst (changeRadioState st m))"
  using changed_state[of st m] by (auto simp: setRadioState_def numeral_2_eq_2 setRadioState_with_alt Let_def)

interpretation idle_req: request_keeper np idle for np
proof unfold_locales
  fix m m' :: modem and st cmd p
  show "idle m \<Longrightarrow> same_core m m' \<Longrightarrow> idle m'" by (simp add: idle_def same_core_def)
  show "idle m \<Longrightarrow> allO (\<lambda>(e, out, m'). idle m') (at_send_command (tgm_env np) cmd False m)"
    by (rule goodO_allO, rule plain.sends_idle) simp_all
  show "idle m \<Longrightarrow> allO (\<lambda>(e, out, m'). idle m') (at_send_command_singleline (tgm_env np) cmd p True m)"
    by (rule goodO_allO, rule singleline.sends_idle) simp_all
  show "idle m \<Longrightarrow> allO (\<lambda>(e, out, m'). idle m') (at_send_command_numeric (tgm_env np) cmd True m)"
    by (rule goodO_allO, rule numeric.sends_idle) simp_all
  show "idle m \<Longrightarrow> allO (\<lambda>(e, out, m'). idle m') (at_send_command_multiline (tgm_env np) cmd p True m)"
    by (rule goodO_allO, rule multiline.sends_idle) simp_all
  show "idle m \<Longrightarrow> allO idle (setRadioState np st m)" by (rule okO_allO, rule setRadioState_ok)
  show "idle m \<Longrightarrow> allO (\<lambda>(x, m'). idle m') (getSIMStatus (setRadioState np) np m)"
    by (rule okO_allO, rule getSIMStatus_ok) (auto intro: setRadioState_ok)
  show "idle m \<Longrightarrow> st = TGM_STATE_UNAVAILABLE \<or> st = TGM_STATE_PPPD \<Longrightarrow> allO idle (setRadioState np st (m\<lparr>s_closed := True\<rparr>))"
    by (rule okO_allO, rule setRadioState_ok) (simp add: idle_def)
qed

interpretation down_req: request_keeper np down_inv for np
proof unfold_locales
  fix m m' :: modem and st
  show "down_inv m \<Longrightarrow> same_core m m' \<Longrightarrow> down_inv m'" by (simp add: down_inv_def same_core_def)
  show "down_inv m \<Longrightarrow> st = TGM_STATE_UNAVAILABLE \<or> st = TGM_STATE_PPPD \<Longrightarrow> allO down_inv (setRadioState np st (m\<lparr>s_closed := True\<rparr>))"
    by (auto simp: setRadioState_no_call changeRadioState_def Let_def down_inv_def TGM_onUnsolicitedResponse_def)
qed (rule down.send_all down.singleline_all down.numeric_all down.multiline_all down.setRadioState_all down.status_all; assumption)+

interpretation announce_req: request_keeper np "announced s0 ns" for np s0 ns
proof unfold_locales
  fix m m' :: modem and st
  show "announced s0 ns m \<Longrightarrow> same_core m m' \<Longrightarrow> announced s0 ns m'" by (simp add: announced_def same_core_def)
  show "announced s0 ns m \<Longrightarrow> st = TGM_STATE_UNAVAILABLE \<or> st = TGM_STATE_PPPD \<Longrightarrow>
      allO (announced s0 ns) (setRadioState np st (m\<lparr>s_closed := True\<rparr>))"
    by (rule announce.setRadioState_all) (simp add: announced_def)
qed (rule announce.send_all announce.singleline_all announce.numeric_all announce.multiline_all announce.setRadioState_all
      announce.status_all; assumption)+

interpretation fails_req: request_keeper np "\<lambda>m. pppd_fail_times m = k" for np k
proof unfold_locales
  fix m m' :: modem and st
  show "pppd_fail_times m = k \<Longrightarrow> same_core m m' \<Longrightarrow> pppd_fail_times m' = k" by (simp add: same_core_def)
  show "pppd_fail_times m = k \<Longrightarrow> st = TGM_STATE_UNAVAILABLE \<or> st = TGM_STATE_PPPD \<Longrightarrow>
      allO (\<lambda>m. pppd_fail_times m = k) (setRadioState np st (m\<lparr>s_closed := True\<rparr>))"
    by (rule fails.setRadioState_all) simp
qed (rule fails.send_all fails.singleline_all fails.numeric_all fails.multiline_all fails.setRadioState_all fails.status_all; assumption)+

interpretation appends_req: request_keeper np "appends cs ns ts" for np cs ns ts
proof unfold_locales
  fix m m' :: modem and st
  show "appends cs ns ts m \<Longrightarrow> same_core m m' \<Longrightarrow> appends cs ns ts m'"
    by (auto simp: appends_def same_core_def intro: prefix_order.trans)
  show "appends cs ns ts m \<Longrightarrow> st = TGM_STATE_UNAVAILABLE \<or> st = TGM_STATE_PPPD \<Longrightarrow> allO (appends cs ns ts) (setRadioState np st (m\<lparr>s_closed := True\<rparr>))"
    by (rule appends.setRadioState_all) (simp add: appends_def)
qed (rule appends.send_all appends.singleline_all appends.numeric_all appends.multiline_all appends.setRadioState_all appends.status_all; assumption)+

text \<open>The change \<open>setRadioState\<close> itself makes, and what the two functions it calls change behind it.\<close>

lemma change_announced:
  "notices (fst (changeRadioState st m)) = notices m @
     (if sState (fst (changeRadioState st m)) = sState m then [] else [TGM_UNSOLICITED_RADIO_STATE_CHANGED])"
  by (auto simp: changeRadioState_def Let_def TGM_onUnsolicitedResponse_def)

lemma later_announced:
  "allO (announced (sState (fst (changeRadioState st m))) (notices (fst (changeRadioState st m)))) (setRadioState_fuel (Suc n) np st m)"
proof -
  obtain m1 old where c: "changeRadioState st m = (m1, old)" by fastforce
  have a: "announced (sState m1) (notices m1) m1" by (simp add: announced_def)
  have "allO (announced (sState m1) (notices m1)) (onRadioPowerOn (setRadioState_fuel n np) np m1)"
    unfolding onRadioPowerOn_def by (rule announce.pollSIMState_all[OF a announce.fuel_all])
  moreover have "allO (announced (sState m1) (notices m1)) (onSIMReady np m1)" by (rule announce.onSIMReady_all[OF a])
  ultimately have "allO (announced (sState m1) (notices m1)) (if sState m1 \<noteq> old then
      (if sState m1 = TGM_STATE_SIM_READY then onSIMReady np m1
       else if sState m1 = TGM_STATE_SIM_NOT_READY then onRadioPowerOn (setRadioState_fuel n np) np m1 else Inr m1) else Inr m1)"
    using a by (simp only: if_split allO_Inr simp_thms)
  then show ?thesis by (simp only: setRadioState_fuel.simps setRadioState_with_def c prod.case fst_conv)
qed

text \<open> C18.
  \<open>state_changes_announced\<close>: \<open>setRadioState\<close> announces the change it makes with exactly one
  unsolicited response, and none when the state stays; when the SIM poll it runs behind that
  change ends in yet another state, at least one more response follows the first, at every depth
  of the recursion. A request, the initialisation and the SIM poll send the client no other
  unsolicited response, and when the radio state is another one afterwards, at least one was sent,
  even if the channel closed in the middle.
\<close>

theorem state_changes_announced:
  "notices (fst (changeRadioState st m)) = notices m @
     (if sState (fst (changeRadioState st m)) = sState m then [] else [TGM_UNSOLICITED_RADIO_STATE_CHANGED]) \<and>
   allO (announced (sState (fst (changeRadioState st m))) (notices (fst (changeRadioState st m)))) (setRadioState_fuel (Suc n) np st m) \<and>
   allO (announced (sState m) (notices m)) (onRequest np request data t m) \<and>
   allO (announced (sState m) (notices m)) (run_timed np c m)"
proof -
  have "announced (sState m) (notices m) m" by (simp add: announced_def)
  from announce_req.onRequest_keeps[OF this] announce.run_timed_all[OF this] change_announced later_announced
  show ?thesis by blast
qed

end
