(* ===== verification/Huawei_Main.thy ===== *)
theory Huawei_Main
  imports Huawei_Requests
begin

text \<open>
  The Huawei modem driver \<open>huawei_tgm/huawei-tgm.c\<close>, part three: \<open>TGM_Init\<close>, the main thread
  \<open>mainLoop\<close> with the opening of the device and the supervision of pppd, and the whole driver
  as a step relation over its threads.

  The main thread is cut at the points where it sleeps or waits, and a program counter tells
  where it is; the results of \<open>open\<close>, \<open>fork\<close> and of reading the state of the ppp interface are
  observations that a step is given.
\<close>

section \<open>Initialisation\<close>

text \<open>
  The static variables, and the five blocks from \<open>malloc\<close>, whose content is not initialised: the
  arguments are what it happens to be, read as strings. \<open>TGM_Init\<close> also starts the main thread.
\<close>

definition TGM_Init :: "string \<Rightarrow> string \<Rightarrow> string \<Rightarrow> string \<Rightarrow> string \<Rightarrow> modem" where
  "TGM_Init user pass carrier manufacturer model =
    \<lparr>s_fd = -1, s_unsolHandler = False, s_type = NO_RESULT, s_responsePrefix = None, s_smsPDU = None,
     sp_response = None, s_readerClosed = False, on_reader = False, close_due = False, wire = [], wr_script = [],
     unsol = [], sched = [], clock = [], sState = TGM_STATE_UNAVAILABLE, s_closed = False, dev_fd = -1,
     username = user, password = pass, cachedCarrier = initial_carriers carrier, cachedManufacturer = manufacturer,
     cachedModel = model, pppd_process_id = 0, pppd_fail_times = 0, completions = [], notices = [], timed = [],
     properties_set = [], terminated = []\<rparr>"

definition MAX_PPP_FAIL_LIMIT :: nat where "MAX_PPP_FAIL_LIMIT = 20"

section \<open>pppd\<close>

text \<open>\<open>operstate\<close> is what opening and reading the state file gives: \<open>None\<close> when it cannot be opened.\<close>

definition checkPPPConnection :: "string option \<Rightarrow> modem \<Rightarrow> bool \<times> modem" where
  "checkPPPConnection operstate m =
     (if pppd_process_id m < 0 then (False, m\<lparr>pppd_fail_times := MAX_PPP_FAIL_LIMIT\<rparr>)
      else case operstate of
          None \<Rightarrow> (False, m)
        | Some [] \<Rightarrow> (False, m\<lparr>pppd_fail_times := pppd_fail_times m + 1\<rparr>)
        | Some buf \<Rightarrow> (Sublist.prefix ''unknown'' (take 60 buf) \<or> Sublist.prefix ''up'' (take 60 buf), m))"

definition waitForPPPDTerminated :: "modem \<Rightarrow> modem" where
  "waitForPPPDTerminated m = m\<lparr>pppd_process_id := -1\<rparr>"

text \<open>The arguments the child of the fork starts pppd with.\<close>

definition pppd_argv :: "modem \<Rightarrow> string list" where
  "pppd_argv m =
     (let base = [''pppd'', ''/dev/ttyUSB0'', ''debug'', ''nodetach'', ''460800'', ''defaultroute'', ''usepeerdns'']
      in if length (username m) > 0 then
           (if length (password m) > 0 then base @ [''user'', username m, ''password'', password m]
            else base @ [''user'', username m])
         else base)"

datatype main_pc = Top | OpenLoop bool | AwaitClose | PppdCheck | PppdWait | Ended | Child "string list"

text \<open>
  \<open>Oper\<close> also tells whether pppd ends between the check and the test of \<open>pppd_process_id\<close>
  behind it.
\<close>

datatype observation = Opened int int | Forked int | Oper "string option" bool | NoObs

definition pppd_check :: "bool \<Rightarrow> string option \<Rightarrow> bool \<Rightarrow> modem \<Rightarrow> (main_pc \<times> modem) outcome" where
  "pppd_check np operstate dies m = (case checkPPPConnection operstate m of (pppd_success, m1) \<Rightarrow>
     let leave = (\<lambda>m'. if pppd_fail_times m' \<ge> MAX_PPP_FAIL_LIMIT
           then (let m2 = TGM_onUnsolicitedResponse TGM_UNSOLICITED_PPPD_FAILED m'
                 in (PppdWait, if pppd_process_id m2 \<ge> 0 then m2\<lparr>terminated := terminated m2 @ [pppd_process_id m2]\<rparr> else m2))
           else (PppdWait, m'))
     in if pppd_success then
          seqO (setRadioState np TGM_STATE_PPPD_READY (TGM_onUnsolicitedResponse TGM_UNSOLICITED_PPPD_CONNECTED
                  (m1\<lparr>properties_set := properties_set m1 @ [(''gsm.network.type'', Some ''UMTS'')]\<rparr>)))
            (\<lambda>m2. Inr (leave (m2\<lparr>pppd_fail_times := 0\<rparr>)))
        else (let m2 = m1\<lparr>pppd_fail_times := pppd_fail_times m1 + 1\<rparr>;
                  m3 = (if dies then waitForPPPDTerminated m2 else m2)
              in if pppd_process_id m3 < 0 then Inr (leave m3)
                 else if pppd_fail_times m3 < MAX_PPP_FAIL_LIMIT then Inr (PppdCheck, m3)
                 else Inr (leave m3)))"

section \<open>The main thread\<close>

text \<open>
  One turn of the loop that opens the device, and what follows it when that succeeds.
  \<open>s_device_path\<close> is \<open>/dev/ttyUSB0\<close>, so the branch for \<open>/dev/ttyS\<close> is not taken.
\<close>

definition open_device :: "bool \<Rightarrow> int \<Rightarrow> int \<Rightarrow> bool \<Rightarrow> modem \<Rightarrow> (main_pc \<times> modem) outcome" where
  "open_device np newfd created notifyDeviceRemoved m =
     (let m1 = m\<lparr>dev_fd := newfd\<rparr> in
      if newfd < 0 then
        seqO (setRadioState np TGM_STATE_OFF
                (if notifyDeviceRemoved then m1 else TGM_onUnsolicitedResponse TGM_UNSOLICITED_DEVICE_REMOVED m1))
          (\<lambda>m2. Inr (OpenLoop True, m2))
      else case at_open newfd True created (m1\<lparr>s_closed := False\<rparr>) of (ret, m2) \<Rightarrow>
        if ret < 0 then Inr (Ended, m2)
        else Inr (AwaitClose, TGM_requestTimedCallback InitializeCallback 0 m2))"

definition waitForClose :: "modem \<Rightarrow> modem outcome" where
  "waitForClose m = (if s_closed m then Inr m else Inl Blocked)"

text \<open>
  One step of \<open>mainLoop\<close>. A child of \<open>fork\<close> becomes pppd and leaves the program.
\<close>

fun main_step :: "bool \<Rightarrow> observation \<Rightarrow> main_pc \<times> modem \<Rightarrow> (main_pc \<times> modem) outcome" where
  "main_step np (Forked pid) (Top, m) =
     (if sState m \<noteq> TGM_STATE_PPPD then Inl Blocked
      else let m1 = m\<lparr>pppd_process_id := pid\<rparr>
           in Inr (if pid \<noteq> 0 then (PppdCheck, m1\<lparr>pppd_fail_times := 0\<rparr>) else (Child (pppd_argv m1), m1)))"
| "main_step np NoObs (Top, m) =
     (if sState m = TGM_STATE_PPPD then Inl Blocked else Inr (OpenLoop False, m\<lparr>dev_fd := -1\<rparr>))"
| "main_step np (Opened newfd created) (OpenLoop notifyDeviceRemoved, m) =
     open_device np newfd created notifyDeviceRemoved m"
| "main_step np NoObs (AwaitClose, m) = seqO (waitForClose m) (\<lambda>m1. Inr (Top, m1))"
| "main_step np (Oper operstate dies) (PppdCheck, m) = pppd_check np operstate dies m"
| "main_step np NoObs (PppdWait, m) =
     (if pppd_process_id m \<ge> 0 then Inl Blocked
      else seqO (setRadioState np TGM_STATE_UNAVAILABLE
                  (if sState m = TGM_STATE_PPPD_READY then TGM_onUnsolicitedResponse TGM_UNSOLICITED_PPPD_DISCONNECTED m else m))
             (\<lambda>m1. Inr (Top, m1)))"
| "main_step np _ (pc, m) = Inl Blocked"

section \<open>The driver\<close>

text \<open>
  The threads of the driver: the main thread, the event thread that runs requests and timed
  callbacks, the reader thread, and the thread that waits for pppd. The last rule lets the
  environment supply more of what the modem, the kernel and the clock do.
\<close>

inductive driver_step :: "bool \<Rightarrow> main_pc \<times> modem \<Rightarrow> main_pc \<times> modem \<Rightarrow> bool" for np where
  main: "main_step np obs s = Inr s' \<Longrightarrow> driver_step np s s'"
| request: "onRequest np rq data t m = Inr m' \<Longrightarrow> driver_step np (pc, m) (pc, m')"
| timer: "(c, d) \<in> set (timed m) \<Longrightarrow> run_timed np c (m\<lparr>timed := remove1 (c, d) (timed m)\<rparr>) = Inr m' \<Longrightarrow> driver_step np (pc, m) (pc, m')"
| reader: "reader_event (tgm_env np) e m = Inr m' \<Longrightarrow> driver_step np (pc, m) (pc, m')"
| reaper: "driver_step np (pc, m) (pc, waitForPPPDTerminated m)"
| environment: "driver_step np (pc, m) (pc, m\<lparr>sched := es, wr_script := ws, clock := cs\<rparr>)"

inductive_cases driver_stepE: "driver_step np (pc, m) s'"

inductive driver_reach :: "bool \<Rightarrow> main_pc \<times> modem \<Rightarrow> bool" for np where
  start: "driver_reach np (Top, TGM_Init user pass carrier manufacturer model)"
| step: "driver_reach np s \<Longrightarrow> driver_step np s s' \<Longrightarrow> driver_reach np s'"

section \<open>Invariants of the driver\<close>

definition driver_inv :: "main_pc \<times> modem \<Rightarrow> bool" where
  "driver_inv s \<longleftrightarrow> idle (snd s) \<and> down_inv (snd s) \<and> (fst s = PppdCheck \<longrightarrow> pppd_fail_times (snd s) < MAX_PPP_FAIL_LIMIT)"

lemma down_change: "down_inv m \<Longrightarrow> down_inv (fst (changeRadioState st m))"
  by (rule down.change)

lemma down_notice [simp]: "down_inv (TGM_onUnsolicitedResponse a m) = down_inv m"
  by (simp add: down_inv_def TGM_onUnsolicitedResponse_def)

lemma idle_upd:
  "idle (m\<lparr>pppd_fail_times := k\<rparr>) = idle m" "down_inv (m\<lparr>pppd_fail_times := k\<rparr>) = down_inv m"
  "idle (m\<lparr>properties_set := x\<rparr>) = idle m" "down_inv (m\<lparr>properties_set := x\<rparr>) = down_inv m"
  "idle (m\<lparr>terminated := y\<rparr>) = idle m" "down_inv (m\<lparr>terminated := y\<rparr>) = down_inv m"
  "idle (m\<lparr>pppd_process_id := p\<rparr>) = idle m" "down_inv (m\<lparr>pppd_process_id := p\<rparr>) = down_inv m"
  "idle (m\<lparr>pppd_process_id := p, pppd_fail_times := k\<rparr>) = idle m" "down_inv (m\<lparr>pppd_process_id := p, pppd_fail_times := k\<rparr>) = down_inv m"
  "idle (m\<lparr>dev_fd := f\<rparr>) = idle m" "down_inv (m\<lparr>dev_fd := f\<rparr>) = down_inv m"
  "idle (waitForPPPDTerminated m) = idle m" "down_inv (waitForPPPDTerminated m) = down_inv m"
  "down_inv (TGM_requestTimedCallback c d m) = down_inv m"
  by (simp_all add: idle_def down_inv_def waitForPPPDTerminated_def TGM_requestTimedCallback_def)

lemma pppd_check_inv:
  assumes "idle m" "down_inv m"
  shows "allO driver_inv (pppd_check np operstate dies m)"
proof -
  obtain ok m1 where c: "checkPPPConnection operstate m = (ok, m1)" by fastforce
  have i1: "idle m1" "down_inv m1"
    using c assms by (auto simp: checkPPPConnection_def idle_def down_inv_def split: if_splits option.splits list.splits)
  show ?thesis
    using i1 unfolding pppd_check_def c
    by (auto simp: driver_inv_def Let_def idle_upd setRadioState_no_call idle_change down_change)
qed

lemma open_device_inv:
  assumes "driver_inv (pc, m)"
  shows "allO driver_inv (open_device np newfd created rem m)"
proof -
  have "idle (snd (at_open fd h c m'))" for fd h c and m' :: modem by (simp add: at_open_def idle_def)
  moreover have "down_inv (snd (at_open fd h c (m'\<lparr>s_closed := False\<rparr>)))" for fd h c m'
    by (simp add: at_open_def down_inv_def)
  ultimately show ?thesis
    using assms unfolding open_device_def
    by (auto simp: driver_inv_def Let_def idle_upd setRadioState_no_call down_change split: prod.splits) (metis snd_conv)+
qed

lemma main_step_inv: "driver_inv s \<Longrightarrow> allO driver_inv (main_step np obs s)"
proof (induction np obs s rule: main_step.induct)
  case (3 np newfd created rem m)
  then show ?case unfolding main_step.simps by (rule open_device_inv)
next
  case (5 np operstate dies m)
  then have "idle m" "down_inv m" by (simp_all add: driver_inv_def)
  then show ?case unfolding main_step.simps by (rule pppd_check_inv)
qed (auto simp: driver_inv_def waitForClose_def Let_def MAX_PPP_FAIL_LIMIT_def setRadioState_no_call down_change idle_upd)

lemma driver_step_inv: "driver_step np (pc, m) s' \<Longrightarrow> driver_inv (pc, m) \<Longrightarrow> driver_inv s'"
proof (erule driver_stepE)
  fix obs
  assume "driver_inv (pc, m)" "main_step np obs (pc, m) = Inr s'"
  then show "driver_inv s'" using main_step_inv[of "(pc, m)" np obs] by simp
next
  fix rq data t m'
  assume i: "driver_inv (pc, m)" and s: "s' = (pc, m')" and r: "onRequest np rq data t m = Inr m'"
  have "idle m" "down_inv m" using i by (simp_all add: driver_inv_def)
  from idle_req.onRequest_keeps[OF this(1), of np rq data t] down_req.onRequest_keeps[OF this(2), of np rq data t]
    fails_req.onRequest_keeps[OF refl, where m = m and np = np and request = rq and data = data and t = t] r i s
  show "driver_inv s'" by (simp add: driver_inv_def)
next
  fix c d m'
  let ?m = "m\<lparr>timed := remove1 (c, d) (timed m)\<rparr>"
  assume i: "driver_inv (pc, m)" and s: "s' = (pc, m')" and r: "run_timed np c ?m = Inr m'"
  have j: "idle ?m" "down_inv ?m" "pppd_fail_times ?m = pppd_fail_times m"
    using i by (simp_all add: driver_inv_def idle_def down_inv_def)
  from okO_allO[OF run_timed_ok[OF j(1)], of np c] down.run_timed_all[OF j(2), of np c] fails.run_timed_all[OF j(3), of np c] r i s
  show "driver_inv s'" by (simp add: driver_inv_def)
next
  fix e m'
  assume i: "driver_inv (pc, m)" and s: "s' = (pc, m')" and r: "reader_event (tgm_env np) e m = Inr m'"
  have j: "idle m" "down_inv m" using i by (simp_all add: driver_inv_def)
  have "idle m'"
    using j(1) r
    by (cases e) (auto simp: idle_def processLine_def sms_unsolicited_def reader_closed_signal_def reader_closed_callback_def
        onATReaderClosed_eq Let_def at_close_def TGM_onUnsolicitedResponse_def handleUnsolicited_def split: if_splits)
  moreover have "down_inv m'" using down.event[OF j(2) r] .
  moreover have "pppd_fail_times m' = pppd_fail_times m" using fails.event[OF refl r] .
  ultimately show "driver_inv s'" using i s by (simp add: driver_inv_def)
qed (auto simp: driver_inv_def idle_def down_inv_def waitForPPPDTerminated_def)

text \<open> C2.
  \<open>driver_invariant_reachable\<close>: in every state the driver can reach, with any interleaving of
  requests, timed callbacks, events of the reader, ends of pppd and steps of the main thread, and
  whatever the modem and the kernel do, the channel is idle between commands, a closed channel
  has the radio off, unavailable or handed over to pppd, and pppd is checked again only after
  fewer than 20 failures.
\<close>

theorem driver_invariant_reachable:
  assumes "driver_reach np (pc, m)"
  shows "idle m \<and> (s_closed m \<longrightarrow> sState m \<in> {TGM_STATE_OFF, TGM_STATE_UNAVAILABLE, TGM_STATE_PPPD, TGM_STATE_PPPD_READY})
    \<and> (pc = PppdCheck \<longrightarrow> pppd_fail_times m < MAX_PPP_FAIL_LIMIT)"
proof -
  have "driver_inv s" if "driver_reach np s" for s
    using that
  proof induction
    case start
    show ?case by (simp add: driver_inv_def TGM_Init_def idle_def down_inv_def)
  next
    case (step s s')
    then show ?case using driver_step_inv[of np "fst s" "snd s" s'] by simp
  qed
  from this[OF assms] show ?thesis by (simp add: driver_inv_def down_inv_def)
qed

text \<open>The device is found and opened.\<close>

lemma driver_invariant_reachable_witness:
  "idle (TGM_requestTimedCallback InitializeCallback 0 (snd (at_open 3 True 0 (TGM_Init [] [] [] [] []\<lparr>dev_fd := 3\<rparr>))))"
proof -
  have s: "TGM_Init [] [] [] [] []\<lparr>dev_fd := -1\<rparr> = TGM_Init [] [] [] [] []" by (simp add: TGM_Init_def)
  have "driver_step True (Top, TGM_Init [] [] [] [] []) (OpenLoop False, TGM_Init [] [] [] [] [])"
    by (rule driver_step.main[of _ NoObs]) (simp add: s TGM_Init_def)
  then have "driver_reach True (OpenLoop False, TGM_Init [] [] [] [] [])"
    using driver_reach.start driver_reach.step by blast
  moreover have "driver_step True (OpenLoop False, TGM_Init [] [] [] [] [])
      (AwaitClose, TGM_requestTimedCallback InitializeCallback 0 (snd (at_open 3 True 0 (TGM_Init [] [] [] [] []\<lparr>dev_fd := 3\<rparr>))))"
    by (rule driver_step.main[of _ "Opened 3 0"]) (simp add: open_device_def at_open_def TGM_Init_def)
  ultimately have "driver_reach True (AwaitClose, TGM_requestTimedCallback InitializeCallback 0 (snd (at_open 3 True 0 (TGM_Init [] [] [] [] []\<lparr>dev_fd := 3\<rparr>))))"
    using driver_reach.step by blast
  from driver_invariant_reachable[OF this] show ?thesis by simp
qed

section \<open>Supervision of pppd\<close>

text \<open>The main thread over a sequence of observations, while it checks.\<close>

fun pppd_run :: "bool \<Rightarrow> (string option \<times> bool) list \<Rightarrow> main_pc \<times> modem \<Rightarrow> (main_pc \<times> modem) outcome" where
  "pppd_run np [] s = Inr s"
| "pppd_run np ((operstate, dies) # os) s =
     (if fst s = PppdCheck then seqO (main_step np (Oper operstate dies) s) (pppd_run np os) else Inr s)"

text \<open>What the client is told by the end of the checks, when pppd ended in the last one or not.\<close>

definition pppd_reported :: "bool \<Rightarrow> modem \<Rightarrow> modem \<Rightarrow> bool" where
  "pppd_reported dies m m' \<longleftrightarrow> (\<exists>new. notices m' = notices m @ new \<and>
     (TGM_UNSOLICITED_PPPD_CONNECTED \<in> set new \<or> TGM_UNSOLICITED_PPPD_FAILED \<in> set new \<or> dies \<and> pppd_process_id m' < 0))"

lemma pppd_check_cases:
  assumes "pppd_fail_times m < MAX_PPP_FAIL_LIMIT"
  shows "\<exists>pc' m'. pppd_check np operstate dies m = Inr (pc', m') \<and>
    (pc' = PppdCheck \<and> pppd_fail_times m < pppd_fail_times m' \<and> pppd_fail_times m' < MAX_PPP_FAIL_LIMIT \<and> notices m' = notices m
     \<or> pc' = PppdWait \<and> pppd_reported dies m m')"
proof -
  obtain ok m1 where c: "checkPPPConnection operstate m = (ok, m1)" by fastforce
  have f: "pppd_fail_times m1 \<ge> pppd_fail_times m" "notices m1 = notices m"
    using c assms by (auto simp: checkPPPConnection_def split: if_splits option.splits list.splits)
  have d: "\<not> ok \<and> pppd_process_id m1 < 0 \<longrightarrow> pppd_fail_times m1 = MAX_PPP_FAIL_LIMIT"
    using c by (auto simp: checkPPPConnection_def split: if_splits option.splits list.splits)
  show ?thesis
    using f d assms
    by (auto simp: pppd_check_def c Let_def setRadioState_no_call waitForPPPDTerminated_def changeRadioState_def
        TGM_onUnsolicitedResponse_def MAX_PPP_FAIL_LIMIT_def pppd_reported_def)
qed

lemma pppd_run_ends:
  "pppd_fail_times m < MAX_PPP_FAIL_LIMIT \<Longrightarrow> MAX_PPP_FAIL_LIMIT \<le> pppd_fail_times m + length os \<Longrightarrow>
    \<exists>k m'. k + pppd_fail_times m < MAX_PPP_FAIL_LIMIT \<and> pppd_run np os (PppdCheck, m) = Inr (PppdWait, m') \<and>
      pppd_run np (take (Suc k) os) (PppdCheck, m) = Inr (PppdWait, m') \<and>
      (\<forall>j \<in> {..k}. \<exists>m1. pppd_run np (take j os) (PppdCheck, m) = Inr (PppdCheck, m1)) \<and> pppd_reported (snd (os ! k)) m m'"
proof (induction os arbitrary: m)
  case (Cons obs os)
  obtain operstate dies where o: "obs = (operstate, dies)" by (cases obs)
  obtain pc' m1 where c: "pppd_check np operstate dies m = Inr (pc', m1)"
    and d: "pc' = PppdCheck \<and> pppd_fail_times m < pppd_fail_times m1 \<and> pppd_fail_times m1 < MAX_PPP_FAIL_LIMIT \<and> notices m1 = notices m
     \<or> pc' = PppdWait \<and> pppd_reported dies m m1"
    using pppd_check_cases[OF Cons.prems(1)] by blast
  show ?case
  proof (cases "pc' = PppdCheck")
    case True
    then have "pppd_fail_times m1 < MAX_PPP_FAIL_LIMIT" "MAX_PPP_FAIL_LIMIT \<le> pppd_fail_times m1 + length os"
      using d Cons.prems(2) by auto
    from Cons.IH[OF this] obtain k m' where k: "k + pppd_fail_times m1 < MAX_PPP_FAIL_LIMIT" "pppd_run np os (PppdCheck, m1) = Inr (PppdWait, m')"
      "pppd_run np (take (Suc k) os) (PppdCheck, m1) = Inr (PppdWait, m')"
      "\<forall>j \<in> {..k}. \<exists>m2. pppd_run np (take j os) (PppdCheck, m1) = Inr (PppdCheck, m2)" "pppd_reported (snd (os ! k)) m1 m'" by blast
    have "\<exists>m2. pppd_run np (take j (obs # os)) (PppdCheck, m) = Inr (PppdCheck, m2)" if "j \<in> {..Suc k}" for j
      using that k(4) True c by (cases j) (auto simp: o)
    moreover have "pppd_reported (snd (os ! k)) m m'" using k(5) d True by (simp add: pppd_reported_def)
    ultimately show ?thesis using k(1-3) d True by (intro exI[of _ "Suc k"] exI[of _ m']) (auto simp: o c)
  next
    case False
    then have "pc' = PppdWait" "pppd_reported dies m m1" using d by auto
    moreover have "pppd_run np os (PppdWait, m1) = Inr (PppdWait, m1)" by (cases os) auto
    ultimately show ?thesis using Cons.prems(1) by (intro exI[of _ 0] exI[of _ m1]) (auto simp: o c)
  qed
qed simp

text \<open> C13.
  \<open>pppd_attempts_bounded\<close>: once pppd is started, the main thread checks the connection at most 20
  times, whatever it sees, and then waits for the end of pppd. By then it has told the client that
  pppd is connected or that it failed, unless pppd ended within the very last check, between the
  look at the interface and the test of \<open>pppd_process_id\<close>: then neither is told.
\<close>

theorem pppd_attempts_bounded:
  assumes "pppd_fail_times m = 0" "20 \<le> length os"
  shows "\<exists>k m' new. k < 20 \<and> pppd_run np os (PppdCheck, m) = Inr (PppdWait, m') \<and>
    pppd_run np (take (Suc k) os) (PppdCheck, m) = Inr (PppdWait, m') \<and> (\<exists>m1. pppd_run np (take k os) (PppdCheck, m) = Inr (PppdCheck, m1)) \<and>
    notices m' = notices m @ new \<and>
    (TGM_UNSOLICITED_PPPD_CONNECTED \<in> set new \<or> TGM_UNSOLICITED_PPPD_FAILED \<in> set new \<or> snd (os ! k) \<and> pppd_process_id m' < 0)"
proof -
  have "pppd_fail_times m < MAX_PPP_FAIL_LIMIT" "MAX_PPP_FAIL_LIMIT \<le> pppd_fail_times m + length os" using assms by (simp_all add: MAX_PPP_FAIL_LIMIT_def)
  from pppd_run_ends[OF this, of np] show ?thesis by (fastforce simp: pppd_reported_def assms(1) MAX_PPP_FAIL_LIMIT_def)
qed

lemma pppd_attempts_bounded_witness:
  "\<exists>m' new. pppd_run True (replicate 20 (Some ''down'', False)) (PppdCheck, demo_modem TGM_STATE_PPPD []) = Inr (PppdWait, m') \<and>
    notices m' = new \<and> (TGM_UNSOLICITED_PPPD_CONNECTED \<in> set new \<or> TGM_UNSOLICITED_PPPD_FAILED \<in> set new)"
  using pppd_attempts_bounded[of "demo_modem TGM_STATE_PPPD []" "replicate 20 (Some ''down'', False)" True] by (auto simp: demo_modem_def)

end
