(* ===== verification/Tgm_Event.thy ===== *)
theory Tgm_Event
  imports Tgm_Prelude
begin

text \<open>
  The event loop \<open>libtgm/tgm_event.cpp\<close>: two circular doubly linked lists of events on a heap
  (the timers and the pending events), the table of watched file descriptors, and the loop around
  \<open>select\<close>. The first part translates the pointer code; the second shows that it implements
  operations on lists of events (interface \<open>event_lists\<close>), and what that means for the timers:
  insertion in the order of their times, and the move of the expired ones to the pending list.
\<close>

section \<open>Times\<close>

datatype timeval = Timeval (tv_sec: int) (tv_usec: int)

text \<open>The macro \<open>timercmp\<close> with the operators \<open><\<close> and, in its other order, \<open>>\<close>.\<close>

definition timercmp_less :: "timeval \<Rightarrow> timeval \<Rightarrow> bool" where
  "timercmp_less a b \<longleftrightarrow> (if tv_sec a = tv_sec b then tv_usec a < tv_usec b else tv_sec a < tv_sec b)"

text \<open>It is the order of the type.\<close>

instantiation timeval :: linorder
begin

definition less_timeval :: "timeval \<Rightarrow> timeval \<Rightarrow> bool" where
  "less_timeval = timercmp_less"

definition less_eq_timeval :: "timeval \<Rightarrow> timeval \<Rightarrow> bool" where
  "a \<le> b \<longleftrightarrow> \<not> timercmp_less b (a::timeval)"

instance
  by standard (auto simp: less_timeval_def less_eq_timeval_def timercmp_less_def timeval.expand split: if_splits)

end

lemmas timeval_less = less_timeval_def timercmp_less_def

definition timeradd :: "timeval \<Rightarrow> timeval \<Rightarrow> timeval" where
  "timeradd a b = (let s = tv_sec a + tv_sec b; u = tv_usec a + tv_usec b
     in if u \<ge> 1000000 then Timeval (s + 1) (u - 1000000) else Timeval s u)"

definition timersub :: "timeval \<Rightarrow> timeval \<Rightarrow> timeval" where
  "timersub a b = (let s = tv_sec a - tv_sec b; u = tv_usec a - tv_usec b
     in if u < 0 then Timeval (s - 1) (u + 1000000) else Timeval s u)"

section \<open>State\<close>

text \<open>An address; \<open>None\<close> is NULL. The two list heads are events at fixed addresses.\<close>

type_synonym addr = nat

record tgm_event =
  ev_next :: "addr option"
  ev_prev :: "addr option"
  ev_fd :: int
  ev_index :: int
  ev_persist :: bool
  ev_timeout :: timeval
  ev_func :: nat
  ev_param :: nat

definition timer_list :: addr where "timer_list = 0"
definition pending_list :: addr where "pending_list = 1"
definition MAX_FD_EVENTS :: nat where "MAX_FD_EVENTS = 8"

text \<open>\<open>locked\<close> is the state of \<open>listMutex\<close>, \<open>fired\<close> the callbacks that were run.\<close>

record loop =
  heap :: "addr \<Rightarrow> tgm_event option"
  readFds :: "int list"
  nfds :: int
  watch_table :: "addr option list"
  locked :: bool
  fired :: "(nat \<times> int \<times> nat) list"

definition load :: "addr option \<Rightarrow> 'a loop_scheme \<Rightarrow> tgm_event outcome" where
  "load p s = (case p of None \<Rightarrow> Inl Undef | Some a \<Rightarrow> (case heap s a of None \<Rightarrow> Inl Undef | Some e \<Rightarrow> Inr e))"

definition store :: "addr option \<Rightarrow> (tgm_event \<Rightarrow> tgm_event) \<Rightarrow> 'a loop_scheme \<Rightarrow> 'a loop_scheme outcome" where
  "store p f s = (case p of None \<Rightarrow> Inl Undef | Some a \<Rightarrow> (case heap s a of None \<Rightarrow> Inl Undef
     | Some e \<Rightarrow> Inr (s\<lparr>heap := (heap s)(a \<mapsto> f e)\<rparr>)))"

text \<open>\<open>pthread_mutex_lock\<close> on a mutex that is held does not return.\<close>

definition mutex_acquire :: "'a loop_scheme \<Rightarrow> 'a loop_scheme outcome" where
  "mutex_acquire s = (if locked s then Inl Blocked else Inr (s\<lparr>locked := True\<rparr>))"

definition mutex_release :: "'a loop_scheme \<Rightarrow> 'a loop_scheme" where
  "mutex_release s = s\<lparr>locked := False\<rparr>"

section \<open>Lists\<close>

definition empty_event :: tgm_event where
  "empty_event = \<lparr>ev_next = None, ev_prev = None, ev_fd = 0, ev_index = 0, ev_persist = False, ev_timeout = Timeval 0 0,
     ev_func = 0, ev_param = 0\<rparr>"

definition init_list :: "addr \<Rightarrow> 'a loop_scheme \<Rightarrow> 'a loop_scheme" where
  "init_list l s = s\<lparr>heap := (heap s)(l \<mapsto> empty_event\<lparr>ev_next := Some l, ev_prev := Some l, ev_fd := -1\<rparr>)\<rparr>"

definition addToList :: "addr \<Rightarrow> addr \<Rightarrow> 'a loop_scheme \<Rightarrow> 'a loop_scheme outcome" where
  "addToList ev l s =
     seqO (store (Some ev) (\<lambda>e. e\<lparr>ev_next := Some l\<rparr>) s) (\<lambda>s1.
     seqO (load (Some l) s1) (\<lambda>le.
     seqO (store (Some ev) (\<lambda>e. e\<lparr>ev_prev := ev_prev le\<rparr>) s1) (\<lambda>s2.
     seqO (load (Some ev) s2) (\<lambda>ee.
     seqO (store (ev_prev ee) (\<lambda>e. e\<lparr>ev_next := Some ev\<rparr>) s2) (\<lambda>s3.
       store (Some l) (\<lambda>e. e\<lparr>ev_prev := Some ev\<rparr>) s3)))))"

definition removeFromList :: "addr \<Rightarrow> 'a loop_scheme \<Rightarrow> 'a loop_scheme outcome" where
  "removeFromList ev s =
     seqO (load (Some ev) s) (\<lambda>e0.
     seqO (store (ev_next e0) (\<lambda>e. e\<lparr>ev_prev := ev_prev e0\<rparr>) s) (\<lambda>s1.
     seqO (load (Some ev) s1) (\<lambda>e1.
     seqO (store (ev_prev e1) (\<lambda>e. e\<lparr>ev_next := ev_next e1\<rparr>) s1) (\<lambda>s2.
       store (Some ev) (\<lambda>e. e\<lparr>ev_next := None, ev_prev := None\<rparr>) s2))))"

section \<open>Watched descriptors\<close>

text \<open>The highest descriptor in the table, at least 0.\<close>

fun max_fd :: "addr option list \<Rightarrow> int \<Rightarrow> 'a loop_scheme \<Rightarrow> int outcome" where
  "max_fd [] n s = Inr n"
| "max_fd (None # ws) n s = max_fd ws n s"
| "max_fd (Some a # ws) n s = seqO (load (Some a) s) (\<lambda>rev. max_fd ws (if ev_fd rev > n then ev_fd rev else n) s)"

definition removeWatch :: "addr \<Rightarrow> nat \<Rightarrow> 'a loop_scheme \<Rightarrow> 'a loop_scheme outcome" where
  "removeWatch ev index s =
     (let s1 = s\<lparr>watch_table := (watch_table s)[index := None]\<rparr> in
      seqO (store (Some ev) (\<lambda>e. e\<lparr>ev_index := -1\<rparr>) s1) (\<lambda>s2.
      seqO (load (Some ev) s2) (\<lambda>e.
        let s3 = s2\<lparr>readFds := removeAll (ev_fd e) (readFds s2)\<rparr> in
        if ev_fd e + 1 = nfds s3
        then seqO (max_fd (watch_table s3) 0 s3) (\<lambda>n. Inr (s3\<lparr>nfds := n + 1\<rparr>))
        else Inr s3)))"

section \<open>The operations\<close>

definition tgm_event_init :: "'a loop_scheme \<Rightarrow> 'a loop_scheme" where
  "tgm_event_init s = (init_list pending_list (init_list timer_list (s\<lparr>locked := False, readFds := []\<rparr>)))
     \<lparr>watch_table := replicate MAX_FD_EVENTS None\<rparr>"

definition tgm_event_set :: "addr \<Rightarrow> int \<Rightarrow> bool \<Rightarrow> nat \<Rightarrow> nat \<Rightarrow> 'a loop_scheme \<Rightarrow> 'a loop_scheme" where
  "tgm_event_set ev fd persist func param s =
     s\<lparr>heap := (heap s)(ev \<mapsto> empty_event\<lparr>ev_fd := fd, ev_index := -1, ev_persist := persist, ev_func := func, ev_param := param\<rparr>)\<rparr>"

text \<open>The loop of \<open>tgm_event_add\<close> from entry \<open>i\<close> on; a full table leaves everything as it is.\<close>

fun add_watch :: "addr \<Rightarrow> nat \<Rightarrow> addr option list \<Rightarrow> 'a loop_scheme \<Rightarrow> 'a loop_scheme outcome" where
  "add_watch ev i [] s = Inr s"
| "add_watch ev i (w # ws) s =
     (if w = None then
        seqO (store (Some ev) (\<lambda>e. e\<lparr>ev_index := int i\<rparr>) (s\<lparr>watch_table := (watch_table s)[i := Some ev]\<rparr>)) (\<lambda>s1.
        seqO (load (Some ev) s1) (\<lambda>e.
          Inr (s1\<lparr>readFds := List.insert (ev_fd e) (readFds s1), nfds := if ev_fd e \<ge> nfds s1 then ev_fd e + 1 else nfds s1\<rparr>)))
      else add_watch ev (Suc i) ws s)"

definition tgm_event_add :: "addr \<Rightarrow> 'a loop_scheme \<Rightarrow> 'a loop_scheme outcome" where
  "tgm_event_add ev s =
     seqO (mutex_acquire s) (\<lambda>s1. seqO (add_watch ev 0 (watch_table s1) s1) (\<lambda>s2. Inr (mutex_release s2)))"

text \<open>The search for the place of a new timer; \<open>n\<close> bounds the steps.\<close>

fun find_place :: "nat \<Rightarrow> timeval \<Rightarrow> addr \<Rightarrow> 'a loop_scheme \<Rightarrow> addr outcome" where
  "find_place 0 t l s = Inl Deep"
| "find_place (Suc n) t l s =
     seqO (load (Some l) s) (\<lambda>e.
       if ev_timeout e < t \<and> l \<noteq> timer_list then
         (case ev_next e of None \<Rightarrow> Inl Undef | Some l' \<Rightarrow> find_place n t l' s)
       else Inr l)"

definition tgm_timer_add :: "nat \<Rightarrow> timeval \<Rightarrow> addr \<Rightarrow> timeval option \<Rightarrow> 'a loop_scheme \<Rightarrow> 'a loop_scheme outcome" where
  "tgm_timer_add n now ev tv s =
     seqO (mutex_acquire s) (\<lambda>s1.
     seqO (case tv of None \<Rightarrow> Inr s1
           | Some d \<Rightarrow>
               seqO (load (Some timer_list) s1) (\<lambda>head.
               seqO (store (Some ev) (\<lambda>e. e\<lparr>ev_fd := -1, ev_timeout := timeradd now d\<rparr>) s1) (\<lambda>s2.
                 case ev_next head of None \<Rightarrow> Inl Undef
                 | Some first \<Rightarrow> seqO (find_place n (timeradd now d) first s2) (\<lambda>l. addToList ev l s2))))
       (\<lambda>s3. Inr (mutex_release s3)))"

text \<open>The early return leaves the mutex locked.\<close>

definition tgm_event_del :: "addr \<Rightarrow> 'a loop_scheme \<Rightarrow> 'a loop_scheme outcome" where
  "tgm_event_del ev s =
     seqO (mutex_acquire s) (\<lambda>s1.
     seqO (load (Some ev) s1) (\<lambda>e.
       if ev_index e < 0 \<or> ev_index e \<ge> int MAX_FD_EVENTS then Inr s1
       else seqO (removeWatch ev (nat (ev_index e)) s1) (\<lambda>s2. Inr (mutex_release s2))))"

section \<open>The loop\<close>

fun expire :: "nat \<Rightarrow> timeval \<Rightarrow> addr \<Rightarrow> 'a loop_scheme \<Rightarrow> 'a loop_scheme outcome" where
  "expire 0 now tev s = Inl Deep"
| "expire (Suc n) now tev s =
     (if tev = timer_list then Inr s
      else seqO (load (Some tev) s) (\<lambda>e.
        if now > ev_timeout e then
          seqO (removeFromList tev s) (\<lambda>s1. seqO (addToList tev pending_list s1) (\<lambda>s2.
            case ev_next e of None \<Rightarrow> Inl Undef | Some next' \<Rightarrow> expire n now next' s2))
        else Inr s))"

definition processTimeouts :: "nat \<Rightarrow> timeval \<Rightarrow> 'a loop_scheme \<Rightarrow> 'a loop_scheme outcome" where
  "processTimeouts n now s =
     seqO (mutex_acquire s) (\<lambda>s1. seqO (load (Some timer_list) s1) (\<lambda>head.
       case ev_next head of None \<Rightarrow> Inl Undef
       | Some tev \<Rightarrow> seqO (expire n now tev s1) (\<lambda>s2. Inr (mutex_release s2))))"

text \<open>\<open>rfds\<close> are the ready descriptors; \<open>k\<close> is the number of entries still to be looked at.\<close>

fun readies :: "int list \<Rightarrow> nat \<Rightarrow> nat \<Rightarrow> int \<Rightarrow> 'a loop_scheme \<Rightarrow> 'a loop_scheme outcome" where
  "readies rfds i 0 n s = Inr s"
| "readies rfds i (Suc k) n s =
     (if n > 0 then
        (case watch_table s ! i of None \<Rightarrow> readies rfds (Suc i) k n s
         | Some a \<Rightarrow>
             seqO (load (Some a) s) (\<lambda>rev.
               if ev_fd rev \<in> set rfds then
                 seqO (addToList a pending_list s) (\<lambda>s1.
                 seqO (if \<not> ev_persist rev then removeWatch a i s1 else Inr s1) (\<lambda>s2.
                   readies rfds (Suc i) k (n - 1) s2))
               else readies rfds (Suc i) k n s))
      else Inr s)"

definition processReadReadies :: "int list \<Rightarrow> int \<Rightarrow> 'a loop_scheme \<Rightarrow> 'a loop_scheme outcome" where
  "processReadReadies rfds n s =
     seqO (mutex_acquire s) (\<lambda>s1. seqO (readies rfds 0 MAX_FD_EVENTS n s1) (\<lambda>s2. Inr (mutex_release s2)))"

text \<open>The callback \<open>cb\<close> is given the event's descriptor and parameter; it may use the operations above.\<close>

fun fire :: "(tgm_event \<Rightarrow> 'a loop_scheme \<Rightarrow> 'a loop_scheme outcome) \<Rightarrow> nat \<Rightarrow> addr \<Rightarrow> 'a loop_scheme \<Rightarrow> 'a loop_scheme outcome" where
  "fire cb 0 ev s = Inl Deep"
| "fire cb (Suc n) ev s =
     (if ev = pending_list then Inr s
      else seqO (load (Some ev) s) (\<lambda>e. seqO (removeFromList ev s) (\<lambda>s1. seqO (load (Some ev) s1) (\<lambda>e1.
        seqO (cb e1 (s1\<lparr>fired := fired s1 @ [(ev_func e1, ev_fd e1, ev_param e1)]\<rparr>)) (\<lambda>s2.
          case ev_next e of None \<Rightarrow> Inl Undef | Some next' \<Rightarrow> fire cb n next' s2)))))"

definition firePending :: "(tgm_event \<Rightarrow> 'a loop_scheme \<Rightarrow> 'a loop_scheme outcome) \<Rightarrow> nat \<Rightarrow> 'a loop_scheme \<Rightarrow> 'a loop_scheme outcome" where
  "firePending cb n s = seqO (load (Some pending_list) s) (\<lambda>head.
     case ev_next head of None \<Rightarrow> Inl Undef | Some ev \<Rightarrow> fire cb n ev s)"

text \<open>\<open>None\<close> stands for the result -1, no timer.\<close>

definition calcNextTimeout :: "timeval \<Rightarrow> 'a loop_scheme \<Rightarrow> timeval option outcome" where
  "calcNextTimeout now s = seqO (load (Some timer_list) s) (\<lambda>head.
     if ev_next head = Some timer_list then Inr None
     else seqO (load (ev_next head) s) (\<lambda>tev.
       Inr (Some (if ev_timeout tev > now then timersub (ev_timeout tev) now else Timeval 0 0))))"

text \<open>
  One round of \<open>tgm_event_loop\<close> after \<open>select\<close> returned \<open>n\<close> with the ready descriptors; \<open>None\<close>
  is the end of the loop, and an interrupted \<open>select\<close> goes on to the next round.
\<close>

definition loop_round :: "(tgm_event \<Rightarrow> 'a loop_scheme \<Rightarrow> 'a loop_scheme outcome) \<Rightarrow> nat \<Rightarrow> bool \<Rightarrow> int \<Rightarrow> int list \<Rightarrow> timeval \<Rightarrow> 'a loop_scheme \<Rightarrow> 'a loop_scheme option outcome" where
  "loop_round cb k eintr n rfds now s =
     (if n < 0 then Inr (if eintr then Some s else None)
      else seqO (processTimeouts k now s) (\<lambda>s1.
           seqO (processReadReadies rfds n s1) (\<lambda>s2.
           seqO (firePending cb k s2) (\<lambda>s3. Inr (Some s3)))))"

section \<open>Linked lists\<close>

subsection \<open>Sequences of links\<close>

fun links :: "(addr \<Rightarrow> addr option) \<Rightarrow> (addr \<Rightarrow> addr option) \<Rightarrow> addr list \<Rightarrow> bool" where
  "links N P (a # b # r) \<longleftrightarrow> N a = Some b \<and> P b = Some a \<and> links N P (b # r)"
| "links N P _ \<longleftrightarrow> True"

lemma links_split: "links N P (us @ a # vs) \<longleftrightarrow> links N P (us @ [a]) \<and> links N P (a # vs)"
proof (induction us)
  case (Cons u us)
  then show ?case by (cases us) auto
qed simp

lemma links_upd:
  "a \<notin> set (butlast L) \<Longrightarrow> b \<notin> set (tl L) \<Longrightarrow> links (N(a := v)) (P(b := w)) L = links N P L"
proof (induction N P L rule: links.induct)
  case (1 N P x y r)
  then show ?case by (cases r) auto
qed auto

lemma links_updI:
  "links N P L \<Longrightarrow> a \<notin> set (butlast L) \<Longrightarrow> b \<notin> set (tl L) \<Longrightarrow> links (N(a := v)) (P(b := w)) L"
  using links_upd by blast

lemma links_out: "links N P L \<Longrightarrow> a \<notin> set L \<Longrightarrow> links (N(a := v)) (P(a := w)) L"
  by (rule links_updI) (auto dest: in_set_butlastD intro: list.set_sel(2) simp: tl_def split: list.splits)

lemma links_add:
  assumes "links N P (us @ p # q # vs)" "distinct (us @ [p])" "distinct (q # vs)" "q \<notin> set (tl (us @ [p]))" "p \<notin> set (butlast (q # vs))"
    "ev \<notin> set (us @ p # q # vs)"
  shows "links (N(ev := Some q, p := Some ev)) (P(ev := Some p, q := Some ev)) (us @ p # ev # q # vs)"
proof -
  have "links N P (us @ [p])" "links N P (q # vs)"
    using assms(1) links_split[of N P us p "q # vs"] by auto
  then have "links (N(ev := Some q, p := Some ev)) (P(ev := Some p, q := Some ev)) (us @ [p])"
    "links (N(ev := Some q, p := Some ev)) (P(ev := Some p, q := Some ev)) (q # vs)"
    using assms(2-) by (auto intro!: links_updI links_out)
  moreover have "ev \<noteq> p" "ev \<noteq> q" using assms(6) by auto
  ultimately show ?thesis by (subst links_split) simp
qed

lemma links_remove:
  assumes "links N P (us @ p # ev # q # vs)" "distinct (us @ [p])" "distinct (q # vs)" "q \<notin> set (tl (us @ [p]))" "p \<notin> set (butlast (q # vs))"
    "ev \<notin> set (us @ p # q # vs)"
  shows "links (N(p := Some q, ev := None)) (P(q := Some p, ev := None)) (us @ p # q # vs)"
proof -
  have "links N P (us @ [p])" "links N P (q # vs)"
    using assms(1) links_split[of N P us p "ev # q # vs"] by auto
  then have "links (N(p := Some q, ev := None)) (P(q := Some p, ev := None)) (us @ [p])"
    "links (N(p := Some q, ev := None)) (P(q := Some p, ev := None)) (q # vs)"
    using assms(2-) by (auto intro!: links_updI links_out)
  moreover have "ev \<noteq> p" "ev \<noteq> q" using assms(6) by auto
  ultimately show ?thesis by (subst links_split) simp
qed

subsection \<open>The pointer operations\<close>

definition nxt :: "'a loop_scheme \<Rightarrow> addr \<Rightarrow> addr option" where
  "nxt s a = Option.bind (heap s a) ev_next"

definition prv :: "'a loop_scheme \<Rightarrow> addr \<Rightarrow> addr option" where
  "prv s a = Option.bind (heap s a) ev_prev"

text \<open>Everything but the links of the heap is the same.\<close>

definition event_data :: "'a loop_scheme \<Rightarrow> addr \<Rightarrow> tgm_event option" where
  "event_data s a = map_option (\<lambda>e. e\<lparr>ev_next := None, ev_prev := None\<rparr>) (heap s a)"

definition same_data :: "'a loop_scheme \<Rightarrow> 'a loop_scheme \<Rightarrow> bool" where
  "same_data s s' \<longleftrightarrow> s' = s\<lparr>heap := heap s'\<rparr> \<and> event_data s' = event_data s"

lemma same_data_refl [simp]: "same_data s s"
  by (simp add: same_data_def)

lemma same_data_trans: "same_data s s' \<Longrightarrow> same_data s' s'' \<Longrightarrow> same_data s s''"
  unfolding same_data_def by (metis loop.update_convs(1) loop.surjective)

lemma same_data_alloc: "same_data s s' \<Longrightarrow> heap s' a = None \<longleftrightarrow> heap s a = None"
  unfolding same_data_def event_data_def by (metis option.map_disc_iff)

lemma nxt_alloc: "nxt s a = Some b \<Longrightarrow> heap s a \<noteq> None"
  by (cases "heap s a") (auto simp: nxt_def)

lemma prv_alloc: "prv s a = Some b \<Longrightarrow> heap s a \<noteq> None"
  by (cases "heap s a") (auto simp: prv_def)

text \<open>A store that changes only links.\<close>

lemma store_links:
  assumes "heap s a = Some e" "(f e)\<lparr>ev_next := None, ev_prev := None\<rparr> = e\<lparr>ev_next := None, ev_prev := None\<rparr>"
  shows "\<exists>s'. store (Some a) f s = Inr s' \<and> same_data s s' \<and> heap s' a = Some (f e) \<and>
    nxt s' = (nxt s)(a := ev_next (f e)) \<and> prv s' = (prv s)(a := ev_prev (f e))"
  using assms by (auto simp: store_def same_data_def event_data_def nxt_def prv_def fun_eq_iff)

lemma load_Some: "heap s a = Some e \<Longrightarrow> load (Some a) s = Inr e"
  by (simp add: load_def)

lemma alloc_links: "heap s a = Some e \<Longrightarrow> ev_next e = nxt s a \<and> ev_prev e = prv s a"
  by (simp add: nxt_def prv_def)

lemma addToList_effect:
  assumes "heap s ev \<noteq> None" "prv s l = Some p" "heap s p \<noteq> None" "ev \<noteq> l" "ev \<noteq> p"
  shows "\<exists>s'. addToList ev l s = Inr s' \<and> same_data s s' \<and>
    nxt s' = (nxt s)(ev := Some l, p := Some ev) \<and> prv s' = (prv s)(ev := Some p, l := Some ev)"
proof -
  obtain e where e: "heap s ev = Some e" using assms(1) by blast
  obtain s1 where 1: "store (Some ev) (\<lambda>e. e\<lparr>ev_next := Some l\<rparr>) s = Inr s1" "same_data s s1"
    "heap s1 ev = Some (e\<lparr>ev_next := Some l\<rparr>)" "nxt s1 = (nxt s)(ev := Some l)" "prv s1 = prv s"
    using store_links[OF e, of "\<lambda>e. e\<lparr>ev_next := Some l\<rparr>"] alloc_links[OF e] by (auto simp: fun_upd_idem)
  obtain le where le: "heap s1 l = Some le" using same_data_alloc[OF 1(2), of l] prv_alloc[OF assms(2)] by auto
  have lp: "ev_prev le = Some p" using alloc_links[OF le] 1(5) assms(2) by simp
  obtain s2 where 2: "store (Some ev) (\<lambda>e. e\<lparr>ev_prev := ev_prev le\<rparr>) s1 = Inr s2" "same_data s1 s2"
    "heap s2 ev = Some (e\<lparr>ev_next := Some l, ev_prev := Some p\<rparr>)" "nxt s2 = nxt s1" "prv s2 = (prv s1)(ev := Some p)"
    using store_links[OF 1(3), of "\<lambda>e. e\<lparr>ev_prev := ev_prev le\<rparr>"] alloc_links[OF 1(3)] lp by (auto simp: fun_upd_idem)
  obtain pe where pe: "heap s2 p = Some pe" using same_data_alloc[OF 1(2), of p] same_data_alloc[OF 2(2), of p] assms(3) by auto
  obtain s3 where 3: "store (Some p) (\<lambda>e. e\<lparr>ev_next := Some ev\<rparr>) s2 = Inr s3" "same_data s2 s3"
    "nxt s3 = (nxt s2)(p := Some ev)" "prv s3 = prv s2"
    using store_links[OF pe, of "\<lambda>e. e\<lparr>ev_next := Some ev\<rparr>"] alloc_links[OF pe] by (auto simp: fun_upd_idem)
  obtain le3 where le3: "heap s3 l = Some le3"
    using same_data_alloc[OF 2(2), of l] same_data_alloc[OF 3(2), of l] le by auto
  obtain s4 where 4: "store (Some l) (\<lambda>e. e\<lparr>ev_prev := Some ev\<rparr>) s3 = Inr s4" "same_data s3 s4"
    "nxt s4 = nxt s3" "prv s4 = (prv s3)(l := Some ev)"
    using store_links[OF le3, of "\<lambda>e. e\<lparr>ev_prev := Some ev\<rparr>"] alloc_links[OF le3] by (auto simp: fun_upd_idem)
  have "addToList ev l s = Inr s4"
    by (simp add: addToList_def 1 load_Some[OF le] 2 load_Some[OF 2(3)] 3 4)
  with 1 2 3 4 show ?thesis by (auto intro: same_data_trans)
qed

lemma removeFromList_effect:
  assumes "nxt s ev = Some q" "prv s ev = Some p" "heap s p \<noteq> None" "heap s q \<noteq> None" "ev \<noteq> q" "ev \<noteq> p"
  shows "\<exists>s'. removeFromList ev s = Inr s' \<and> same_data s s' \<and>
    nxt s' = (nxt s)(p := Some q, ev := None) \<and> prv s' = (prv s)(q := Some p, ev := None)"
proof -
  obtain e where e: "heap s ev = Some e" "ev_next e = Some q" "ev_prev e = Some p"
    using assms(1,2) nxt_alloc[OF assms(1)] alloc_links by fastforce
  obtain qe where qe: "heap s q = Some qe" using assms(4) by blast
  obtain s1 where 1: "store (Some q) (\<lambda>x. x\<lparr>ev_prev := Some p\<rparr>) s = Inr s1" "same_data s s1"
    "nxt s1 = nxt s" "prv s1 = (prv s)(q := Some p)"
    using store_links[OF qe, of "\<lambda>x. x\<lparr>ev_prev := Some p\<rparr>"] alloc_links[OF qe] e by (auto simp: fun_upd_idem)
  obtain e1 where e1: "heap s1 ev = Some e1" "ev_next e1 = Some q" "ev_prev e1 = Some p"
    using same_data_alloc[OF 1(2), of ev] e(1) alloc_links[of s1 ev] 1(3,4) assms(1,2,5) by fastforce
  obtain pe where pe: "heap s1 p = Some pe" using same_data_alloc[OF 1(2), of p] assms(3) by auto
  obtain s2 where 2: "store (Some p) (\<lambda>x. x\<lparr>ev_next := Some q\<rparr>) s1 = Inr s2" "same_data s1 s2"
    "nxt s2 = (nxt s1)(p := Some q)" "prv s2 = prv s1"
    using store_links[OF pe, of "\<lambda>x. x\<lparr>ev_next := Some q\<rparr>"] alloc_links[OF pe] e1 by (auto simp: fun_upd_idem)
  obtain e2 where e2: "heap s2 ev = Some e2" using same_data_alloc[OF 2(2), of ev] e1(1) by auto
  obtain s3 where 3: "store (Some ev) (\<lambda>x. x\<lparr>ev_next := None, ev_prev := None\<rparr>) s2 = Inr s3" "same_data s2 s3"
    "nxt s3 = (nxt s2)(ev := None)" "prv s3 = (prv s2)(ev := None)"
    using store_links[OF e2, of "\<lambda>x. x\<lparr>ev_next := None, ev_prev := None\<rparr>"] by auto
  have "removeFromList ev s = Inr s3"
    by (simp add: removeFromList_def load_Some[OF e(1)] e 1 load_Some[OF e1(1)] e1 2 3)
  with 1 2 3 show ?thesis by (auto intro: same_data_trans)
qed

subsection \<open>Circular lists\<close>

text \<open>The events between the head \<open>l\<close> and back to it, in order.\<close>

definition dl :: "'a loop_scheme \<Rightarrow> addr \<Rightarrow> addr list \<Rightarrow> bool" where
  "dl s l xs \<longleftrightarrow> distinct (l # xs) \<and> links (nxt s) (prv s) (l # xs @ [l])"

lemma links_hd: "links N P (a # b # r) \<Longrightarrow> N a = Some b \<and> P b = Some a"
  by simp

lemma links_mid: "links N P (us @ p # q # vs) \<Longrightarrow> N p = Some q \<and> P q = Some p"
  using links_split[of N P us p "q # vs"] by simp

lemma links_alloc: "links (nxt s) (prv s) (xs @ [l]) \<Longrightarrow> a \<in> set xs \<Longrightarrow> heap s a \<noteq> None"
proof (induction xs)
  case (Cons x xs)
  then show ?case by (cases xs) (auto dest: nxt_alloc)
qed simp

lemma dl_distinct: "dl s l xs \<Longrightarrow> distinct (l # xs)"
  by (simp add: dl_def)

lemma dl_alloc: "dl s l xs \<Longrightarrow> a \<in> insert l (set xs) \<Longrightarrow> heap s a \<noteq> None"
  using links_alloc[of s "l # xs" l] by (auto simp: dl_def)

lemma dl_hd: "dl s l xs \<Longrightarrow> nxt s l = Some (hd (xs @ [l]))"
  by (cases xs) (auto simp: dl_def)

lemma dl_next: "dl s l (as @ a # bs) \<Longrightarrow> nxt s a = Some (hd (bs @ [l]))"
  using links_mid[of "nxt s" "prv s" "l # as" a "hd (bs @ [l])" "tl (bs @ [l])"]
  by (cases bs) (auto simp: dl_def)

lemma dl_prev: "dl s l (as @ bs) \<Longrightarrow> prv s (hd (bs @ [l])) = Some (last (l # as))"
  using links_mid[of "nxt s" "prv s" "butlast (l # as)" "last (l # as)" "hd (bs @ [l])" "tl (bs @ [l])"]
  by (cases bs; cases as rule: rev_cases) (auto simp: dl_def)

lemma dl_empty_unique: "dl s l [] \<Longrightarrow> nxt s l = Some l"
  using dl_hd[of s l "[]"] by simp

text \<open>A list is kept by updates of the links of other events.\<close>

lemma links_other:
  assumes "links N P L" "\<And>a. a \<in> set L \<Longrightarrow> N' a = N a \<and> P' a = P a"
  shows "links N' P' L"
  using assms by (induction N P L rule: links.induct) auto

lemma dl_frame:
  assumes "dl s l xs" "\<And>a. a \<in> insert l (set xs) \<Longrightarrow> nxt s' a = nxt s a \<and> prv s' a = prv s a"
  shows "dl s' l xs"
  using assms links_other[of "nxt s" "prv s" "l # xs @ [l]" "nxt s'" "prv s'"] by (simp add: dl_def)

text \<open>A ring cut at some point: \<open>p\<close> is the event before it, \<open>q\<close> the one after it.\<close>

lemma ring_cut:
  assumes "distinct (l # as @ bs)"
  obtains us p q vs where "l # as = us @ [p]" "bs @ [l] = q # vs" "q = hd (bs @ [l])" "distinct (us @ [p])" "distinct (q # vs)"
    "q \<notin> set (tl (us @ [p]))" "p \<notin> set (butlast (q # vs))" "p \<in> insert l (set as)" "q \<in> insert l (set bs)"
proof -
  define p where "p = last (l # as)"
  define q where "q = hd (bs @ [l])"
  have u: "l # as = butlast (l # as) @ [p]" unfolding p_def by (metis append_butlast_last_id list.distinct(1))
  have v: "bs @ [l] = q # tl (bs @ [l])" unfolding q_def by (cases bs) auto
  have mem: "p \<in> insert l (set as)" "q \<in> insert l (set bs)" unfolding p_def q_def by (auto, cases bs, auto)
  have "distinct (butlast (l # as) @ [p])" "q \<notin> set (tl (butlast (l # as) @ [p]))"
    using assms mem unfolding u[symmetric] by auto
  moreover have "distinct (q # tl (bs @ [l]))" "p \<notin> set (butlast (q # tl (bs @ [l])))"
    using assms mem unfolding v[symmetric] by auto
  ultimately show thesis using that u v mem q_def by blast
qed

lemma dl_add:
  assumes dl: "dl s l (as @ bs)" and ev: "heap s ev \<noteq> None" "ev \<notin> insert l (set (as @ bs))"
  shows "\<exists>s'. addToList ev (hd (bs @ [l])) s = Inr s' \<and> same_data s s' \<and> dl s' l (as @ ev # bs) \<and>
    (\<forall>l' ys. dl s l' ys \<longrightarrow> insert l' (set ys) \<inter> insert ev (insert l (set (as @ bs))) = {} \<longrightarrow> dl s' l' ys)"
proof -
  have d: "distinct (l # as @ bs)" using dl by (simp add: dl_def)
  then have d': "distinct (l # as @ bs)" by simp
  obtain us p q vs where u: "l # as = us @ [p]" and v: "bs @ [l] = q # vs" and q: "q = hd (bs @ [l])"
    and us: "distinct (us @ [p])" and vs: "distinct (q # vs)" and us': "q \<notin> set (tl (us @ [p]))" and vs': "p \<notin> set (butlast (q # vs))"
    and mem: "p \<in> insert l (set as)" "q \<in> insert l (set bs)"
    by (rule ring_cut[OF d'])
  have L: "l # (as @ bs) @ [l] = us @ p # q # vs" using u v by (metis append.assoc append_Cons append_Nil)
  have L': "l # (as @ ev # bs) @ [l] = us @ p # ev # q # vs" using u v by (metis append.assoc append_Cons append_Nil)
  have out: "ev \<notin> set (us @ p # q # vs)" using ev(2) unfolding L[symmetric] by auto
  have lk: "links (nxt s) (prv s) (us @ p # q # vs)" using dl unfolding dl_def L by simp
  obtain s' where s': "addToList ev q s = Inr s'" "same_data s s'"
    "nxt s' = (nxt s)(ev := Some q, p := Some ev)" "prv s' = (prv s)(ev := Some p, q := Some ev)"
    using addToList_effect[OF ev(1), of q p] links_mid[OF lk] nxt_alloc[of s p q] out by auto
  have "dl s' l (as @ ev # bs)"
    using links_add[OF lk us vs us' vs' out] d ev(2) unfolding dl_def s'(3,4) L'[symmetric] by auto
  moreover have "dl s' l' ys" if "dl s l' ys" "insert l' (set ys) \<inter> insert ev (insert l (set (as @ bs))) = {}" for l' ys
    by (rule dl_frame[OF that(1)]) (use that(2) mem in \<open>auto simp: s'(3,4)\<close>)
  ultimately show ?thesis using s'(1,2) unfolding q by blast
qed

lemma dl_remove:
  assumes dl: "dl s l (as @ ev # bs)"
  shows "\<exists>s'. removeFromList ev s = Inr s' \<and> same_data s s' \<and> dl s' l (as @ bs) \<and>
    (\<forall>l' ys. dl s l' ys \<longrightarrow> insert l' (set ys) \<inter> insert l (set (as @ ev # bs)) = {} \<longrightarrow> dl s' l' ys)"
proof -
  have d: "distinct (l # as @ ev # bs)" using dl by (simp add: dl_def)
  then have d': "distinct (l # as @ bs)" by simp
  obtain us p q vs where u: "l # as = us @ [p]" and v: "bs @ [l] = q # vs" and q: "q = hd (bs @ [l])"
    and us: "distinct (us @ [p])" and vs: "distinct (q # vs)" and us': "q \<notin> set (tl (us @ [p]))" and vs': "p \<notin> set (butlast (q # vs))"
    and mem: "p \<in> insert l (set as)" "q \<in> insert l (set bs)"
    by (rule ring_cut[OF d'])
  have L: "l # (as @ bs) @ [l] = us @ p # q # vs" using u v by (metis append.assoc append_Cons append_Nil)
  have L': "l # (as @ ev # bs) @ [l] = us @ p # ev # q # vs" using u v by (metis append.assoc append_Cons append_Nil)
  have out: "ev \<notin> set (us @ p # q # vs)" using d unfolding L[symmetric] by auto
  have lk: "links (nxt s) (prv s) (us @ p # ev # q # vs)" using dl unfolding dl_def L' by simp
  have near: "nxt s ev = Some q" "prv s ev = Some p" "nxt s p \<noteq> None" "prv s q \<noteq> None"
    using links_mid[OF lk] links_mid[of "nxt s" "prv s" "us @ [p]" ev q vs] lk by auto
  obtain s' where s': "removeFromList ev s = Inr s'" "same_data s s'"
    "nxt s' = (nxt s)(p := Some q, ev := None)" "prv s' = (prv s)(q := Some p, ev := None)"
    using removeFromList_effect[OF near(1,2)] near(3,4) nxt_alloc[of s p] prv_alloc[of s q] out by auto
  have "dl s' l (as @ bs)"
    using links_remove[OF lk us vs us' vs' out] d unfolding dl_def s'(3,4) L[symmetric] by auto
  moreover have "dl s' l' ys" if "dl s l' ys" "insert l' (set ys) \<inter> insert l (set (as @ ev # bs)) = {}" for l' ys
    by (rule dl_frame[OF that(1)]) (use that(2) mem in \<open>auto simp: s'(3,4)\<close>)
  ultimately show ?thesis using s'(1,2) by blast
qed

subsection \<open>The interface of the lists\<close>

text \<open>
  What the loop relies on: an event is put before a given one or taken out, and the lists with
  other events stay as they are.
\<close>

definition apart :: "addr \<Rightarrow> addr list \<Rightarrow> addr \<Rightarrow> addr list \<Rightarrow> bool" where
  "apart l xs k ys \<longleftrightarrow> insert l (set xs) \<inter> insert k (set ys) = {}"

lemma apart_sym: "apart l xs k ys \<Longrightarrow> apart k ys l xs"
  by (auto simp: apart_def)

locale event_lists =
  fixes lists :: "'s \<Rightarrow> addr \<Rightarrow> addr list \<Rightarrow> bool"
    and live :: "'s \<Rightarrow> addr \<Rightarrow> bool"
    and same :: "'s \<Rightarrow> 's \<Rightarrow> bool"
    and add :: "addr \<Rightarrow> addr \<Rightarrow> 's \<Rightarrow> 's outcome"
    and del :: "addr \<Rightarrow> 's \<Rightarrow> 's outcome"
  assumes add: "lists s l (as @ bs) \<Longrightarrow> live s ev \<Longrightarrow> ev \<notin> insert l (set (as @ bs)) \<Longrightarrow>
      \<exists>s'. add ev (hd (bs @ [l])) s = Inr s' \<and> same s s' \<and> lists s' l (as @ ev # bs) \<and>
        (\<forall>l' ys. lists s l' ys \<longrightarrow> insert l' (set ys) \<inter> insert ev (insert l (set (as @ bs))) = {} \<longrightarrow> lists s' l' ys)"
    and del: "lists s l (as @ ev # bs) \<Longrightarrow>
      \<exists>s'. del ev s = Inr s' \<and> same s s' \<and> lists s' l (as @ bs) \<and>
        (\<forall>l' ys. lists s l' ys \<longrightarrow> insert l' (set ys) \<inter> insert l (set (as @ ev # bs)) = {} \<longrightarrow> lists s' l' ys)"
    and distinct: "lists s l xs \<Longrightarrow> distinct (l # xs)"
    and live: "lists s l xs \<Longrightarrow> a \<in> insert l (set xs) \<Longrightarrow> live s a"
    and same_trans: "same s s' \<Longrightarrow> same s' s'' \<Longrightarrow> same s s''"
    and same_live: "same s s' \<Longrightarrow> live s' a = live s a"
begin

lemma insert_at:
  assumes "lists s l (as @ bs)" "lists s k ys" "apart l (as @ bs) k ys" "live s ev"
    "ev \<notin> insert l (set (as @ bs))" "ev \<notin> insert k (set ys)"
  shows "\<exists>s'. add ev (hd (bs @ [l])) s = Inr s' \<and> same s s' \<and> lists s' l (as @ ev # bs) \<and> lists s' k ys \<and> apart l (as @ ev # bs) k ys"
proof -
  obtain s' where s': "add ev (hd (bs @ [l])) s = Inr s'" "same s s'" "lists s' l (as @ ev # bs)"
    "\<And>l' zs. lists s l' zs \<Longrightarrow> insert l' (set zs) \<inter> insert ev (insert l (set (as @ bs))) = {} \<Longrightarrow> lists s' l' zs"
    using add[OF assms(1,4,5)] by blast
  have "lists s' k ys" by (rule s'(4)[OF assms(2)]) (use assms(3,6) in \<open>auto simp: apart_def\<close>)
  moreover have "apart l (as @ ev # bs) k ys" using assms(3,6) by (auto simp: apart_def)
  ultimately show ?thesis using s'(1-3) by blast
qed

lemma append_at:
  assumes "lists s l xs" "lists s k ys" "apart l xs k ys" "live s ev" "ev \<notin> insert l (set xs)" "ev \<notin> insert k (set ys)"
  shows "\<exists>s'. add ev l s = Inr s' \<and> same s s' \<and> lists s' l (xs @ [ev]) \<and> lists s' k ys \<and> apart l (xs @ [ev]) k ys"
  using insert_at[of s l xs "[]" k ys ev] assms by auto

lemma take_first:
  assumes "lists s l (a # xs)" "lists s k ys" "apart l (a # xs) k ys"
  shows "\<exists>s'. del a s = Inr s' \<and> same s s' \<and> lists s' l xs \<and> lists s' k ys \<and> apart l xs k ys \<and>
    live s' a \<and> a \<notin> insert l (set xs) \<and> a \<notin> insert k (set ys)"
proof -
  obtain s' where s': "del a s = Inr s'" "same s s'" "lists s' l xs"
    "\<And>l' zs. lists s l' zs \<Longrightarrow> insert l' (set zs) \<inter> insert l (set (a # xs)) = {} \<Longrightarrow> lists s' l' zs"
    using del[of s l "[]" a xs] assms(1) by auto
  have "lists s' k ys" by (rule s'(4)[OF assms(2)]) (use assms(3) in \<open>auto simp: apart_def\<close>)
  moreover have "live s' a" using same_live[OF s'(2)] live[OF assms(1), of a] by auto
  moreover have "a \<notin> insert l (set xs)" using distinct[OF assms(1)] by auto
  moreover have "apart l xs k ys" "a \<notin> insert k (set ys)" using assms(3) by (auto simp: apart_def)
  ultimately show ?thesis using s'(1-3) by blast
qed

text \<open>The first event of a list moves to the end of another one.\<close>

lemma move:
  assumes "lists s l (a # xs)" "lists s k ys" "apart l (a # xs) k ys"
  shows "\<exists>s1 s2. del a s = Inr s1 \<and> add a k s1 = Inr s2 \<and> same s s2 \<and>
    lists s2 l xs \<and> lists s2 k (ys @ [a]) \<and> apart l xs k (ys @ [a])"
proof -
  obtain s1 where 1: "del a s = Inr s1" "same s s1" "lists s1 l xs" "lists s1 k ys" "apart l xs k ys"
    "live s1 a" "a \<notin> insert l (set xs)" "a \<notin> insert k (set ys)"
    using take_first[OF assms] by blast
  obtain s2 where 2: "add a k s1 = Inr s2" "same s1 s2" "lists s2 k (ys @ [a])" "lists s2 l xs" "apart k (ys @ [a]) l xs"
    using append_at[OF 1(4,3) apart_sym[OF 1(5)] 1(6,8,7)] by blast
  then show ?thesis using 1(1) same_trans[OF 1(2) 2(2)] apart_sym[OF 2(5)] by blast
qed

end

lemma same_data_live: "same_data s s' \<Longrightarrow> (heap s' a \<noteq> None) = (heap s a \<noteq> None)"
  by (simp add: same_data_alloc)

interpretation rings: event_lists dl "\<lambda>s a. heap s a \<noteq> None" same_data addToList removeFromList
  by (unfold_locales; (rule dl_add dl_remove dl_distinct dl_alloc same_data_live same_data_trans)?; assumption)

section \<open>Timers\<close>

text \<open>The two lists of the loop, and what is known of an event apart from its links.\<close>

definition rings_are :: "'a loop_scheme \<Rightarrow> addr list \<Rightarrow> addr list \<Rightarrow> bool" where
  "rings_are s ts ps \<longleftrightarrow> dl s timer_list ts \<and> dl s pending_list ps \<and> apart timer_list ts pending_list ps"

definition timeout_of :: "'a loop_scheme \<Rightarrow> addr \<Rightarrow> timeval" where
  "timeout_of s a = ev_timeout (the (heap s a))"

definition timers_sorted :: "'a loop_scheme \<Rightarrow> addr list \<Rightarrow> bool" where
  "timers_sorted s ts \<longleftrightarrow> sorted (map (timeout_of s) ts)"

text \<open>The place of a timer with time \<open>t\<close> in the list: before the first one that is not earlier.\<close>

definition place :: "(addr \<Rightarrow> timeval) \<Rightarrow> timeval \<Rightarrow> addr \<Rightarrow> addr list \<Rightarrow> addr list" where
  "place f t ev ts = takeWhile (\<lambda>a. f a < t) ts @ ev # dropWhile (\<lambda>a. f a < t) ts"

lemma same_data_timeout: "same_data s s' \<Longrightarrow> heap s a \<noteq> None \<Longrightarrow> timeout_of s' a = timeout_of s a"
proof -
  assume h: "same_data s s'" "heap s a \<noteq> None"
  then obtain e e' where e: "heap s a = Some e" "heap s' a = Some e'" using same_data_alloc[OF h(1), of a] by auto
  have "event_data s' a = event_data s a" using h(1) by (simp add: same_data_def)
  then have "e'\<lparr>ev_next := None, ev_prev := None\<rparr> = e\<lparr>ev_next := None, ev_prev := None\<rparr>" using e by (simp add: event_data_def)
  then show ?thesis using e by (metis option.sel tgm_event.ext_inject tgm_event.surjective tgm_event.update_convs(1,2) timeout_of_def)
qed

lemma place_sorted: "sorted (map f ts) \<Longrightarrow> f ev = t \<Longrightarrow> sorted (map f (place f t ev ts))"
proof (induction ts)
  case (Cons a ts)
  have "f x \<le> t" if "x \<in> set (takeWhile (\<lambda>a. f a < t) ts)" for x using set_takeWhileD[OF that] by auto
  moreover have "f a \<le> f x" if "x \<in> set ts" for x using Cons.prems(1) that by auto
  moreover from this have "t \<le> f x" if "\<not> f a < t" "x \<in> set ts" for x using that by (meson leI order_trans)
  ultimately show ?case using Cons by (auto simp: place_def dest: set_takeWhileD set_dropWhileD)
qed (simp add: place_def)

lemma rings_cong: "nxt s' = nxt s \<Longrightarrow> prv s' = prv s \<Longrightarrow> rings_are s' = rings_are s"
  by (intro ext) (simp add: rings_are_def dl_def)

lemma same_data_fields:
  "same_data s s' \<Longrightarrow> readFds s' = readFds s \<and> nfds s' = nfds s \<and> watch_table s' = watch_table s \<and> locked s' = locked s \<and>
    fired s' = fired s \<and> loop.more s' = loop.more s"
  by (cases s; cases s') (simp add: same_data_def)

lemma links_lock [simp]: "nxt (s\<lparr>locked := b\<rparr>) = nxt s" "prv (s\<lparr>locked := b\<rparr>) = prv s" "timeout_of (s\<lparr>locked := b\<rparr>) = timeout_of s"
  by (auto simp: nxt_def prv_def timeout_of_def fun_eq_iff)

lemma rings_lock [simp]: "rings_are (s\<lparr>locked := b\<rparr>) = rings_are s"
  by (rule rings_cong) simp_all

lemma rings_timers: "rings_are s ts ps \<Longrightarrow> dl s timer_list ts"
  by (simp add: rings_are_def)

text \<open>Loading the head of a list, or one of its events.\<close>

lemma load_in_list:
  assumes "dl s l (us @ bs)" "k = last (l # us)"
  shows "\<exists>e. heap s k = Some e \<and> ev_next e = Some (hd (bs @ [l])) \<and> ev_timeout e = timeout_of s k"
proof -
  have "nxt s k = Some (hd (bs @ [l]))"
    using assms dl_hd[of s l bs] dl_next[of s l "butlast us" "last us" bs] by (cases us rule: rev_cases) auto
  then show ?thesis using nxt_alloc[of s k] by (auto simp: nxt_def timeout_of_def)
qed

lemma find_place_finds:
  assumes "dl s timer_list (us @ bs)" "length bs < n"
  shows "find_place n t (hd (bs @ [timer_list])) s = Inr (hd (dropWhile (\<lambda>a. timeout_of s a < t) bs @ [timer_list]))"
  using assms
proof (induction bs arbitrary: us n)
  case Nil
  then show ?case
    using dl_alloc[of s timer_list us timer_list] by (cases n) (auto simp: load_def)
next
  case (Cons b bs)
  obtain e where e: "heap s b = Some e" "ev_next e = Some (hd (bs @ [timer_list]))" "ev_timeout e = timeout_of s b"
    using load_in_list[of s timer_list "us @ [b]" bs b] Cons.prems(1) by auto
  have "b \<noteq> timer_list" using dl_distinct[OF Cons.prems(1)] by auto
  moreover obtain m where "n = Suc m" "length bs < m" using Cons.prems(2) by (cases n) auto
  ultimately show ?case using Cons.IH[of "us @ [b]" m] Cons.prems(1) e by (simp add: load_def)
qed

text \<open>A store that keeps the links.\<close>

lemma store_keeps:
  assumes "heap s a = Some e" "ev_next (f e) = ev_next e" "ev_prev (f e) = ev_prev e"
  shows "\<exists>s'. store (Some a) f s = Inr s' \<and> s' = s\<lparr>heap := (heap s)(a \<mapsto> f e)\<rparr> \<and> nxt s' = nxt s \<and> prv s' = prv s"
  using assms by (auto simp: store_def nxt_def prv_def fun_eq_iff)

lemma timer_added:
  fixes now d :: timeval
  assumes r: "rings_are s ts ps" and n: "length ts < n" and lk: "\<not> locked s" and ev: "heap s ev = Some e"
    "ev \<notin> {timer_list, pending_list} \<union> set ts \<union> set ps"
  defines "t \<equiv> timeradd now d"
  shows "\<exists>s'. tgm_timer_add n now ev (Some d) s = Inr s' \<and> rings_are s' (place (timeout_of s) t ev ts) ps \<and>
    timeout_of s' ev = t \<and> (\<forall>a. heap s a \<noteq> None \<longrightarrow> a \<noteq> ev \<longrightarrow> timeout_of s' a = timeout_of s a) \<and>
    s' = s\<lparr>heap := heap s'\<rparr> \<and>
    (\<forall>a. event_data s' a = (if a = ev then Some (e\<lparr>ev_next := None, ev_prev := None, ev_fd := -1, ev_timeout := t\<rparr>) else event_data s a))"
proof -
  define s1 where "s1 = s\<lparr>locked := True\<rparr>"
  define as where "as = takeWhile (\<lambda>a. timeout_of s a < t) ts"
  define bs where "bs = dropWhile (\<lambda>a. timeout_of s a < t) ts"
  have ts: "ts = as @ bs" by (simp add: as_def bs_def)
  obtain s2 where 2: "store (Some ev) (\<lambda>e. e\<lparr>ev_fd := -1, ev_timeout := t\<rparr>) s1 = Inr s2"
    "s2 = s1\<lparr>heap := (heap s1)(ev \<mapsto> e\<lparr>ev_fd := -1, ev_timeout := t\<rparr>)\<rparr>" "nxt s2 = nxt s1" "prv s2 = prv s1"
    using store_keeps[of s1 ev e "\<lambda>e. e\<lparr>ev_fd := -1, ev_timeout := t\<rparr>"] ev(1) by (auto simp: s1_def)
  have r2: "rings_are s2 ts ps" using r rings_cong[OF 2(3,4)] by (simp add: s1_def)
  have to: "timeout_of s2 a = (if a = ev then t else timeout_of s a)" for a
    by (simp add: 2(2) s1_def timeout_of_def)
  have "\<And>a. a \<in> set ts \<Longrightarrow> timeout_of s2 a = timeout_of s a" using ev(2) to by auto
  then have bs: "dropWhile (\<lambda>a. timeout_of s2 a < t) ts = bs" unfolding bs_def by (intro dropWhile_cong) auto
  obtain s3 where 3: "addToList ev (hd (bs @ [timer_list])) s2 = Inr s3" "same_data s2 s3"
    "dl s3 timer_list (as @ ev # bs)" "dl s3 pending_list ps" "apart timer_list (as @ ev # bs) pending_list ps"
    using rings.insert_at[of s2 timer_list as bs pending_list ps ev] r2 ev ts by (auto simp: rings_are_def 2(2) s1_def)
  obtain hd_e where h: "heap s1 timer_list = Some hd_e" "ev_next hd_e = Some (hd (ts @ [timer_list]))"
    using load_in_list[of s1 timer_list "[]" ts timer_list] r by (auto simp: rings_are_def s1_def dl_def)
  have "find_place n t (hd (ts @ [timer_list])) s2 = Inr (hd (bs @ [timer_list]))"
    using rings_timers[OF r2] n bs find_place_finds[of s2 "[]" ts n t] by simp
  then have "tgm_timer_add n now ev (Some d) s = Inr (mutex_release s3)"
    using h 2(1) 3(1) lk by (simp add: tgm_timer_add_def mutex_acquire_def s1_def[symmetric] load_def t_def[symmetric])
  moreover have "rings_are (mutex_release s3) (place (timeout_of s) t ev ts) ps"
    using 3 by (simp add: rings_are_def mutex_release_def place_def as_def bs_def dl_def)
  moreover have "timeout_of (mutex_release s3) a = timeout_of s2 a" if "heap s2 a \<noteq> None" for a
    using same_data_timeout[OF 3(2) that] by (simp add: mutex_release_def)
  moreover have "mutex_release s3 = s\<lparr>heap := heap (mutex_release s3)\<rparr>"
    using same_data_fields[OF 3(2)] 2(2) lk by (intro loop.equality) (simp_all add: mutex_release_def s1_def)
  moreover have "event_data (mutex_release s3) a =
      (if a = ev then Some (e\<lparr>ev_next := None, ev_prev := None, ev_fd := -1, ev_timeout := t\<rparr>) else event_data s a)" for a
  proof -
    have "event_data (mutex_release s3) a = event_data s2 a"
      using 3(2) by (simp add: same_data_def mutex_release_def event_data_def fun_eq_iff)
    then show ?thesis by (simp add: 2(2) s1_def event_data_def)
  qed
  moreover have "heap s2 a \<noteq> None" if "heap s a \<noteq> None" for a using that by (simp add: 2(2) s1_def)
  moreover have "heap s2 ev \<noteq> None" by (simp add: 2(2))
  ultimately show ?thesis unfolding to by (intro exI[of _ "mutex_release s3"] conjI allI impI) simp_all
qed

text \<open>The expired timers are a prefix of the list; the walk moves exactly them, in their order.\<close>

lemma expire_moves:
  assumes "rings_are s ts ps" "length ts < n"
  shows "\<exists>s'. expire n now (hd (ts @ [timer_list])) s = Inr s' \<and> same_data s s' \<and>
    rings_are s' (dropWhile (\<lambda>a. timeout_of s a < now) ts) (ps @ takeWhile (\<lambda>a. timeout_of s a < now) ts)"
  using assms
proof (induction ts arbitrary: s ps n)
  case Nil
  then show ?case by (cases n) auto
next
  case (Cons a ts)
  obtain m where n: "n = Suc m" "length ts < m" using Cons.prems(2) by (cases n) auto
  have r: "dl s timer_list (a # ts)" "dl s pending_list ps" "apart timer_list (a # ts) pending_list ps"
    using Cons.prems(1) by (simp_all add: rings_are_def)
  have a: "a \<noteq> timer_list" using dl_distinct[OF r(1)] by auto
  obtain e where e: "heap s a = Some e" "ev_next e = Some (hd (ts @ [timer_list]))" "ev_timeout e = timeout_of s a"
    using load_in_list[of s timer_list "[a]" ts a] r(1) by auto
  show ?case
  proof (cases "timeout_of s a < now")
    case True
    obtain s1 s2 where m: "removeFromList a s = Inr s1" "addToList a pending_list s1 = Inr s2" "same_data s s2"
      "dl s2 timer_list ts" "dl s2 pending_list (ps @ [a])" "apart timer_list ts pending_list (ps @ [a])"
      using rings.move[OF r] by blast
    have "rings_are s2 ts (ps @ [a])" using m(4-6) by (simp add: rings_are_def)
    then obtain s' where s': "expire m now (hd (ts @ [timer_list])) s2 = Inr s'" "same_data s2 s'"
      "rings_are s' (dropWhile (\<lambda>a. timeout_of s2 a < now) ts) ((ps @ [a]) @ takeWhile (\<lambda>a. timeout_of s2 a < now) ts)"
      using Cons.IH n(2) by blast
    have "timeout_of s2 b = timeout_of s b" if "b \<in> set ts" for b
      using same_data_timeout[OF m(3)] dl_alloc[OF r(1), of b] that by simp
    then have "dropWhile (\<lambda>a. timeout_of s2 a < now) ts = dropWhile (\<lambda>a. timeout_of s a < now) ts"
      "takeWhile (\<lambda>a. timeout_of s2 a < now) ts = takeWhile (\<lambda>a. timeout_of s a < now) ts"
      by (auto intro: dropWhile_cong takeWhile_cong)
    with s' show ?thesis using n a e m(1,2) True same_data_trans[OF m(3) s'(2)] by (simp add: load_def)
  next
    case False
    then show ?thesis using n a e Cons.prems(1) by (simp add: load_def)
  qed
qed

lemma same_data_lock [simp]: "same_data (s\<lparr>locked := True\<rparr>) s' \<Longrightarrow> \<not> locked s \<Longrightarrow> same_data s (s'\<lparr>locked := False\<rparr>)"
  by (cases s; cases s') (auto simp: same_data_def event_data_def fun_eq_iff)

lemma timeouts_processed:
  assumes "rings_are s ts ps" "length ts < n" "\<not> locked s"
  shows "\<exists>s'. processTimeouts n now s = Inr s' \<and> same_data s s' \<and>
    rings_are s' (dropWhile (\<lambda>a. timeout_of s a < now) ts) (ps @ takeWhile (\<lambda>a. timeout_of s a < now) ts)"
proof -
  define s1 where "s1 = s\<lparr>locked := True\<rparr>"
  have r: "rings_are s1 ts ps" using assms(1) by (simp add: s1_def)
  obtain h where h: "heap s1 timer_list = Some h" "ev_next h = Some (hd (ts @ [timer_list]))"
    using load_in_list[of s1 timer_list "[]" ts timer_list] rings_timers[OF r] by auto
  obtain s2 where s2: "expire n now (hd (ts @ [timer_list])) s1 = Inr s2" "same_data s1 s2"
    "rings_are s2 (dropWhile (\<lambda>a. timeout_of s1 a < now) ts) (ps @ takeWhile (\<lambda>a. timeout_of s1 a < now) ts)"
    using expire_moves[OF r assms(2)] by blast
  have "processTimeouts n now s = Inr (mutex_release s2)"
    using h s2(1) assms(3) by (simp add: processTimeouts_def mutex_acquire_def s1_def[symmetric] load_def)
  moreover have "same_data s (mutex_release s2)" using s2(2) assms(3) by (simp add: mutex_release_def s1_def)
  ultimately show ?thesis using s2(3) by (simp add: s1_def mutex_release_def)
qed

lemma sorted_split:
  "sorted (map f xs) \<Longrightarrow> takeWhile (\<lambda>a. f a < t) xs = filter (\<lambda>a. f a < t) xs \<and> dropWhile (\<lambda>a. f a < t) xs = filter (\<lambda>a. \<not> f a < t) xs"
  for f :: "'a \<Rightarrow> 'b::linorder"
proof (induction xs)
  case (Cons a xs)
  then have "f a \<le> f x" if "x \<in> set xs" for x using that by auto
  then have "filter (\<lambda>a. f a < t) xs = []" "filter (\<lambda>a. \<not> f a < t) xs = xs" if "\<not> f a < t"
    using that by (auto simp: filter_empty_conv filter_id_conv dest: order_le_less_trans)
  then show ?case using Cons by auto
qed simp

subsection \<open>The time to wait\<close>

text \<open>A time with its microseconds below a second.\<close>

definition normal_time :: "timeval \<Rightarrow> bool" where
  "normal_time t \<longleftrightarrow> 0 \<le> tv_usec t \<and> tv_usec t < 1000000"

lemma timeradd_timersub: "normal_time a \<Longrightarrow> normal_time b \<Longrightarrow> timeradd b (timersub a b) = a"
  by (cases a; cases b) (auto simp: timeradd_def timersub_def normal_time_def Let_def)

lemma timeradd_normal: "normal_time a \<Longrightarrow> normal_time b \<Longrightarrow> normal_time (timeradd a b)"
  by (auto simp: timeradd_def normal_time_def Let_def)

lemma next_timeout:
  assumes "rings_are s ts ps"
  shows "calcNextTimeout now s = Inr (case ts of [] \<Rightarrow> None
    | a # _ \<Rightarrow> Some (if timeout_of s a > now then timersub (timeout_of s a) now else Timeval 0 0))"
proof (cases ts)
  case Nil
  then show ?thesis using load_in_list[of s timer_list "[]" "[]" timer_list] assms by (auto simp: rings_are_def calcNextTimeout_def load_def)
next
  case (Cons a as)
  have d: "dl s timer_list (a # as)" using assms Cons by (simp add: rings_are_def)
  show ?thesis
    using load_in_list[of s timer_list "[]" "a # as" timer_list] load_in_list[of s timer_list "[a]" as a] d dl_distinct[OF d] Cons
    by (auto simp: calcNextTimeout_def load_def)
qed

end
