(* ===== verification/Tgm_Loop.thy ===== *)
theory Tgm_Loop
  imports Tgm_Event
begin

text \<open>
  What the event loop of \<open>Tgm_Event\<close> guarantees: the table of watched descriptors and its
  invariant, the choice of the ready events, the firing of the pending ones for any client that
  meets the interface \<open>event_client\<close>, a whole round, the invariant of all reachable states, and the
  properties.
\<close>

section \<open>The watched descriptors\<close>

fun somes :: "'a option list \<Rightarrow> 'a list" where
  "somes [] = []"
| "somes (None # xs) = somes xs"
| "somes (Some x # xs) = x # somes xs"

lemma somes_append [simp]: "somes (xs @ ys) = somes xs @ somes ys"
  by (induction xs rule: somes.induct) auto

lemma set_somes: "x \<in> set (somes xs) \<longleftrightarrow> Some x \<in> set xs"
  by (induction xs rule: somes.induct) auto

definition watched :: "'a loop_scheme \<Rightarrow> addr list" where
  "watched s = somes (watch_table s)"

definition fd_of :: "'a loop_scheme \<Rightarrow> addr \<Rightarrow> int" where
  "fd_of s a = ev_fd (the (heap s a))"

text \<open>
  The table, the events' indices, the descriptors given to \<open>select\<close> and their bound agree.
\<close>

definition watch_inv :: "'a loop_scheme \<Rightarrow> bool" where
  "watch_inv s \<longleftrightarrow> length (watch_table s) = MAX_FD_EVENTS \<and>
     (\<forall>i < MAX_FD_EVENTS. \<forall>a. watch_table s ! i = Some a \<longrightarrow>
        (\<exists>e. heap s a = Some e \<and> ev_index e = int i \<and> ev_fd e < nfds s)) \<and>
     distinct (map (fd_of s) (watched s)) \<and> set (readFds s) = fd_of s ` set (watched s)"

text \<open>What an event is apart from its links and its place in the table.\<close>

definition event_core :: "'a loop_scheme \<Rightarrow> addr \<Rightarrow> (int \<times> bool \<times> timeval \<times> nat \<times> nat) option" where
  "event_core s a = map_option (\<lambda>e. (ev_fd e, ev_persist e, ev_timeout e, ev_func e, ev_param e)) (heap s a)"

lemma same_core:
  assumes "event_core s' a = event_core s a"
  shows "heap s' a = None \<longleftrightarrow> heap s a = None" "heap s a \<noteq> None \<Longrightarrow> fd_of s' a = fd_of s a"
    "heap s a \<noteq> None \<Longrightarrow> timeout_of s' a = timeout_of s a"
  using assms by (auto simp: event_core_def fd_of_def timeout_of_def split: option.splits)

lemma same_data_core: "same_data s s' \<Longrightarrow> event_core s' = event_core s"
proof
  fix a assume "same_data s s'"
  then have "event_data s' a = event_data s a" by (simp add: same_data_def)
  then show "event_core s' a = event_core s a"
    by (cases "heap s a"; cases "heap s' a") (auto simp: event_data_def event_core_def tgm_event.defs dest!: arg_cong[of _ _ "\<lambda>e. (ev_fd e, ev_persist e, ev_timeout e, ev_func e, ev_param e)"])
qed

lemma same_data_index: "same_data s s' \<Longrightarrow> map_option ev_index (heap s' a) = map_option ev_index (heap s a)"
proof -
  assume "same_data s s'"
  then have "event_data s' a = event_data s a" by (simp add: same_data_def)
  then show ?thesis
    by (cases "heap s a"; cases "heap s' a") (auto simp: event_data_def dest!: arg_cong[of _ _ ev_index])
qed

lemma watched_nth:
  assumes "watch_inv s" "a \<in> set (watched s)"
  obtains i e where "i < MAX_FD_EVENTS" "watch_table s ! i = Some a" "heap s a = Some e" "ev_index e = int i" "ev_fd e < nfds s"
proof -
  have "Some a \<in> set (watch_table s)" using assms(2) by (simp add: watched_def set_somes)
  then obtain i where "i < length (watch_table s)" "watch_table s ! i = Some a" by (auto simp: in_set_conv_nth)
  moreover from this obtain e where "heap s a = Some e" "ev_index e = int i" "ev_fd e < nfds s"
    using assms(1) unfolding watch_inv_def by metis
  ultimately show thesis using that assms(1) by (simp add: watch_inv_def)
qed

lemma watched_alloc: "watch_inv s \<Longrightarrow> a \<in> set (watched s) \<Longrightarrow> \<exists>e. heap s a = Some e"
  by (metis watched_nth)

lemma nth_watched: "watch_inv s \<Longrightarrow> i < MAX_FD_EVENTS \<Longrightarrow> watch_table s ! i = Some a \<Longrightarrow> a \<in> set (watched s)"
  unfolding watched_def set_somes watch_inv_def by (metis nth_mem)

text \<open>The invariant depends only on the table, the descriptors, the events' descriptors and their indices.\<close>

lemma watch_inv_cong:
  assumes "watch_inv s" "watch_table s' = watch_table s" "readFds s' = readFds s" "nfds s' = nfds s"
    "\<And>a. a \<in> set (watched s) \<Longrightarrow> map_option (\<lambda>e. (ev_fd e, ev_index e)) (heap s' a) = map_option (\<lambda>e. (ev_fd e, ev_index e)) (heap s a)"
  shows "watch_inv s'"
proof -
  have w: "watched s' = watched s" by (simp add: watched_def assms(2))
  have fd: "fd_of s' a = fd_of s a" if a: "a \<in> set (watched s)" for a
  proof -
    obtain e where "heap s a = Some e" using watched_alloc[OF assms(1) a] by blast
    then show ?thesis using assms(5)[OF a] by (auto simp: fd_of_def)
  qed
  then have "map (fd_of s') (watched s') = map (fd_of s) (watched s)" "fd_of s' ` set (watched s') = fd_of s ` set (watched s)"
    by (auto simp: w)
  moreover have "\<exists>e. heap s' a = Some e \<and> ev_index e = int i \<and> ev_fd e < nfds s'"
    if i: "i < MAX_FD_EVENTS" "watch_table s' ! i = Some a" for i a
  proof -
    obtain e where e: "heap s a = Some e" "ev_index e = int i" "ev_fd e < nfds s"
      using assms(1,2) i unfolding watch_inv_def by metis
    have "a \<in> set (watched s)" using nth_watched[OF assms(1)] i assms(2) by auto
    then show ?thesis using e assms(4) assms(5)[of a] by auto
  qed
  ultimately show ?thesis using assms(1-3) by (auto simp: watch_inv_def)
qed

lemma watched_fd: "watch_inv s \<Longrightarrow> a \<in> set (watched s) \<Longrightarrow> fd_of s a < nfds s"
  by (erule watched_nth) (auto simp: fd_of_def)

lemma max_fd_bound:
  "(\<And>a. a \<in> set (somes ws) \<Longrightarrow> heap s a \<noteq> None) \<Longrightarrow>
    \<exists>m. max_fd ws n s = Inr m \<and> n \<le> m \<and> (\<forall>a\<in>set (somes ws). fd_of s a \<le> m)"
proof (induction ws n s rule: max_fd.induct)
  case (3 a ws n s)
  obtain e where e: "heap s a = Some e" using "3.prems"[of a] by auto
  then have e': "load (Some a) s = Inr e" by (simp add: load_def)
  show ?case using "3.IH"[OF e'] "3.prems" e by (auto simp: e' fd_of_def)
qed auto

lemma somes_clear:
  assumes "i < length w" "w ! i = Some a"
  obtains us vs where "somes w = us @ a # vs" "somes (w[i := None]) = us @ vs"
proof
  show "somes w = somes (take i w) @ a # somes (drop (Suc i) w)"
    using id_take_nth_drop[OF assms(1)] assms(2) by (metis somes.simps(3) somes_append)
  show "somes (w[i := None]) = somes (take i w) @ somes (drop (Suc i) w)"
    by (simp add: upd_conv_take_nth_drop[OF assms(1)])
qed

lemma removeWatch_effect:
  assumes inv: "watch_inv s" and i: "i < MAX_FD_EVENTS" "watch_table s ! i = Some a"
  shows "\<exists>s'. removeWatch a i s = Inr s' \<and> watch_inv s' \<and> nxt s' = nxt s \<and> prv s' = prv s \<and> event_core s' = event_core s \<and>
    watch_table s' = (watch_table s)[i := None] \<and> locked s' = locked s \<and> fired s' = fired s \<and> loop.more s' = loop.more s \<and>
    (\<forall>b. b \<noteq> a \<longrightarrow> heap s' b = heap s b) \<and> map_option ev_index (heap s' a) = Some (-1)"
proof -
  obtain e where e: "heap s a = Some e" "ev_index e = int i" "ev_fd e < nfds s"
    using inv i unfolding watch_inv_def by metis
  have len: "length (watch_table s) = MAX_FD_EVENTS" using inv by (simp add: watch_inv_def)
  obtain us vs where w: "watched s = us @ a # vs" "somes ((watch_table s)[i := None]) = us @ vs"
    using somes_clear[of i "watch_table s" a] i len unfolding watched_def by metis
  define s2 where "s2 = s\<lparr>watch_table := (watch_table s)[i := None], heap := (heap s)(a \<mapsto> e\<lparr>ev_index := -1\<rparr>),
    readFds := removeAll (ev_fd e) (readFds s)\<rparr>"
  have fd: "fd_of s2 b = fd_of s b" for b using e(1) by (simp add: s2_def fd_of_def)
  have d: "distinct (map (fd_of s) (us @ a # vs))" and r: "set (readFds s) = fd_of s ` set (us @ a # vs)"
    using inv w by (auto simp: watch_inv_def)
  have al: "heap s2 b \<noteq> None" if b: "b \<in> set (us @ vs)" for b
    using watched_alloc[OF inv, of b] b w(1) by (auto simp: s2_def)
  have wt: "somes (watch_table s2) = us @ vs" using w(2) by (simp add: s2_def)
  obtain m where m: "max_fd (watch_table s2) 0 s2 = Inr m" "0 \<le> m" "\<And>b. b \<in> set (us @ vs) \<Longrightarrow> fd_of s b \<le> m"
    using max_fd_bound[of "watch_table s2" s2 0] al unfolding wt fd by blast
  define n where "n = (if ev_fd e + 1 = nfds s then m + 1 else nfds s)"
  define s' where "s' = s2\<lparr>nfds := n\<rparr>"
  have eq: "removeWatch a i s = Inr s'"
    using e m(1) by (auto simp: removeWatch_def store_def load_def Let_def s2_def[symmetric] s'_def n_def)
      (simp_all add: s2_def)
  have "fd_of s b < n" if "b \<in> set (us @ vs)" for b
    using m(3)[OF that] watched_fd[OF inv, of b] w(1) that by (auto simp: n_def)
  then have bnd: "\<exists>x. heap s' b = Some x \<and> ev_index x = int j \<and> ev_fd x < n"
    if j: "j < MAX_FD_EVENTS" "(watch_table s)[i := None] ! j = Some b" for j b
  proof -
    have "b \<in> set (us @ vs)"
      using j len w(2) set_somes[of b "(watch_table s)[i := None]"] nth_mem[of j "(watch_table s)[i := None]"] by auto
    have ji: "j \<noteq> i" using j i len by auto
    then obtain x where x: "heap s b = Some x" "ev_index x = int j"
      using inv j unfolding watch_inv_def by (metis nth_list_update_neq)
    moreover have "b \<noteq> a" using x e(1,2) ji by auto
    ultimately show ?thesis using \<open>\<And>b. b \<in> set (us @ vs) \<Longrightarrow> fd_of s b < n\<close>[OF \<open>b \<in> set (us @ vs)\<close>]
      by (simp add: s'_def s2_def fd_of_def)
  qed
  have "ev_fd e = fd_of s a" using e(1) by (simp add: fd_of_def)
  then have "set (removeAll (ev_fd e) (readFds s)) = fd_of s ` set (us @ vs)" using d r by (auto simp: image_iff)
  moreover have "fd_of s' = fd_of s" "watched s' = us @ vs" using fd w(2) by (auto simp: s'_def watched_def s2_def fd_of_def)
  moreover have "watch_table s' = (watch_table s)[i := None]" "nfds s' = n" "readFds s' = removeAll (ev_fd e) (readFds s)"
    by (simp_all add: s'_def s2_def)
  ultimately have "watch_inv s'" unfolding watch_inv_def using bnd d len by auto
  then show ?thesis unfolding eq
    by (intro exI[of _ s']) (auto simp: s'_def s2_def nxt_def prv_def event_core_def fun_eq_iff e(1))
qed

text \<open>\<open>tgm_event_add\<close> takes the first free entry.\<close>

lemma add_watch_first:
  "add_watch ev i ws s = (if None \<in> set ws then
     let j = i + length (takeWhile (\<lambda>w. w \<noteq> None) ws) in
     seqO (store (Some ev) (\<lambda>e. e\<lparr>ev_index := int j\<rparr>) (s\<lparr>watch_table := (watch_table s)[j := Some ev]\<rparr>)) (\<lambda>s1.
     seqO (load (Some ev) s1) (\<lambda>e.
       Inr (s1\<lparr>readFds := List.insert (ev_fd e) (readFds s1), nfds := if ev_fd e \<ge> nfds s1 then ev_fd e + 1 else nfds s1\<rparr>)))
   else Inr s)"
proof (induction ev i ws s rule: add_watch.induct)
  case (2 ev i w ws s)
  then show ?case by (cases w) (simp_all add: Let_def)
qed simp

lemma takeWhile_shorter: "x \<in> set xs \<Longrightarrow> \<not> P x \<Longrightarrow> length (takeWhile P xs) < length xs"
  by (induction xs) auto

lemma somes_set:
  assumes "i < length w" "w ! i = None"
  obtains us vs where "somes w = us @ vs" "somes (w[i := Some a]) = us @ a # vs"
proof
  show "somes w = somes (take i w) @ somes (drop (Suc i) w)"
    using id_take_nth_drop[OF assms(1)] assms(2) by (metis somes.simps(2) somes_append)
  show "somes (w[i := Some a]) = somes (take i w) @ a # somes (drop (Suc i) w)"
    by (simp add: upd_conv_take_nth_drop[OF assms(1)])
qed

lemma event_added:
  assumes inv: "watch_inv s" and lk: "\<not> locked s" and e: "heap s ev = Some e" "ev \<notin> set (watched s)" "ev_fd e \<notin> set (readFds s)"
    and free: "None \<in> set (watch_table s)"
  shows "\<exists>s'. tgm_event_add ev s = Inr s' \<and> watch_inv s' \<and> nxt s' = nxt s \<and> prv s' = prv s \<and> event_core s' = event_core s \<and>
    set (watched s') = insert ev (set (watched s)) \<and> locked s' = locked s \<and> fired s' = fired s \<and> loop.more s' = loop.more s"
proof -
  define i where "i = length (takeWhile (\<lambda>w. w \<noteq> None) (watch_table s))"
  have i: "i < length (watch_table s)" "watch_table s ! i = None"
    using free nth_length_takeWhile[of "\<lambda>w. w \<noteq> None" "watch_table s"] takeWhile_shorter[of None "watch_table s" "\<lambda>w. w \<noteq> None"]
    by (auto simp: i_def)
  have len: "length (watch_table s) = MAX_FD_EVENTS" using inv by (simp add: watch_inv_def)
  obtain us vs where w: "watched s = us @ vs" "somes ((watch_table s)[i := Some ev]) = us @ ev # vs"
    using somes_set[OF i, of ev] unfolding watched_def by metis
  define n where "n = (if ev_fd e \<ge> nfds s then ev_fd e + 1 else nfds s)"
  define s' where "s' = s\<lparr>watch_table := (watch_table s)[i := Some ev], heap := (heap s)(ev \<mapsto> e\<lparr>ev_index := int i\<rparr>),
    readFds := List.insert (ev_fd e) (readFds s), nfds := n\<rparr>"
  have eq: "tgm_event_add ev s = Inr s'"
    using e(1) lk free by (cases s) (simp add: tgm_event_add_def mutex_acquire_def mutex_release_def add_watch_first i_def
      store_def load_def Let_def s'_def n_def)
  have fds: "fd_of s' = fd_of s" "watched s' = us @ ev # vs" "fd_of s ev = ev_fd e"
    using e(1) w(2) by (auto simp: s'_def fd_of_def watched_def)
  have "\<exists>x. heap s' b = Some x \<and> ev_index x = int j \<and> ev_fd x < n"
    if j: "j < MAX_FD_EVENTS" "(watch_table s)[i := Some ev] ! j = Some b" for j b
  proof (cases "j = i")
    case True
    then show ?thesis using j i by (auto simp: s'_def n_def)
  next
    case False
    then have b: "watch_table s ! j = Some b" using j by simp
    then obtain x where "heap s b = Some x" "ev_index x = int j" "ev_fd x < nfds s"
      using inv j(1) unfolding watch_inv_def by metis
    then show ?thesis using nth_watched[OF inv j(1) b] e(2) by (auto simp: s'_def n_def)
  qed
  moreover have "distinct (map (fd_of s) (us @ vs))" "set (readFds s) = fd_of s ` set (us @ vs)"
    using inv w(1) by (simp_all add: watch_inv_def)
  moreover have "watch_table s' = (watch_table s)[i := Some ev]" "nfds s' = n" "readFds s' = List.insert (ev_fd e) (readFds s)"
    by (simp_all add: s'_def)
  ultimately have "watch_inv s'" unfolding watch_inv_def fds using e(3) len fds(3) by auto
  moreover have "set (watched s') = insert ev (set (watched s))" by (auto simp: fds(2) w(1))
  moreover have "nxt s' = nxt s" "prv s' = prv s" "event_core s' = event_core s" "locked s' = locked s" "fired s' = fired s" "loop.more s' = loop.more s"
    by (auto simp: s'_def nxt_def prv_def event_core_def fun_eq_iff e(1))
  ultimately show ?thesis unfolding eq by blast
qed

lemma event_dropped: "\<not> locked s \<Longrightarrow> None \<notin> set (watch_table s) \<Longrightarrow> tgm_event_add ev s = Inr s"
  by (cases s) (simp add: tgm_event_add_def mutex_acquire_def mutex_release_def add_watch_first)

section \<open>Ready descriptors\<close>

definition persistent :: "'a loop_scheme \<Rightarrow> addr \<Rightarrow> bool" where
  "persistent s a = ev_persist (the (heap s a))"

lemma core_persistent: "event_core s' = event_core s \<Longrightarrow> heap s a \<noteq> None \<Longrightarrow> persistent s' a = persistent s a"
  by (drule fun_cong[of _ _ a]) (auto simp: event_core_def persistent_def split: option.splits)

lemma watch_inv_same_data:
  assumes "same_data s s'" "watch_inv s"
  shows "watch_inv s'"
proof (rule watch_inv_cong[OF assms(2)])
  fix a
  have "event_data s' a = event_data s a" using assms(1) by (simp add: same_data_def)
  then show "map_option (\<lambda>e. (ev_fd e, ev_index e)) (heap s' a) = map_option (\<lambda>e. (ev_fd e, ev_index e)) (heap s a)"
    by (cases "heap s a"; cases "heap s' a") (auto simp: event_data_def dest!: arg_cong[of _ _ "\<lambda>e. (ev_fd e, ev_index e)"])
qed (use same_data_fields[OF assms(1)] in auto)

lemma watched_distinct: "watch_inv s \<Longrightarrow> distinct (watched s)"
  by (simp add: watch_inv_def distinct_map)

text \<open>One ready descriptor: its event is pending, and no longer watched unless it is persistent.\<close>

lemma one_ready:
  assumes inv: "watch_inv s" and r: "rings_are s ts ps" and i: "i < MAX_FD_EVENTS" "watch_table s ! i = Some a"
    and new: "a \<notin> {timer_list, pending_list} \<union> set ts \<union> set ps" and e: "heap s a = Some e"
  shows "\<exists>s1 s2. addToList a pending_list s = Inr s1 \<and> (if \<not> ev_persist e then removeWatch a i s1 else Inr s1) = Inr s2 \<and>
    watch_inv s2 \<and> rings_are s2 ts (ps @ [a]) \<and> event_core s2 = event_core s \<and>
    drop (Suc i) (watch_table s2) = drop (Suc i) (watch_table s) \<and>
    set (watched s2) = (if persistent s a then set (watched s) else set (watched s) - {a}) \<and> locked s2 = locked s \<and> fired s2 = fired s \<and> loop.more s2 = loop.more s"
proof -
  obtain s1 where 1: "addToList a pending_list s = Inr s1" "same_data s s1" "dl s1 pending_list (ps @ [a])" "dl s1 timer_list ts"
    "apart pending_list (ps @ [a]) timer_list ts"
    using rings.append_at[of s pending_list ps timer_list ts a] r new e apart_sym by (auto simp: rings_are_def)
  have r1: "rings_are s1 ts (ps @ [a])" using 1(3-5) apart_sym by (simp add: rings_are_def)
  have inv1: "watch_inv s1" by (rule watch_inv_same_data[OF 1(2) inv])
  have w1: "watch_table s1 = watch_table s" "watched s1 = watched s" "locked s1 = locked s" "fired s1 = fired s" "loop.more s1 = loop.more s"
    using same_data_fields[OF 1(2)] by (simp_all add: watched_def)
  have p: "persistent s a = ev_persist e" using e by (simp add: persistent_def)
  show ?thesis
  proof (cases "ev_persist e")
    case True
    then show ?thesis using 1(1) r1 inv1 w1 p same_data_core[OF 1(2)] by auto
  next
    case False
    obtain s2 where 2: "removeWatch a i s1 = Inr s2" "watch_inv s2" "nxt s2 = nxt s1" "prv s2 = prv s1" "event_core s2 = event_core s1"
      "watch_table s2 = (watch_table s1)[i := None]" "locked s2 = locked s1" "fired s2 = fired s1" "loop.more s2 = loop.more s1"
      using removeWatch_effect[OF inv1 i(1)] i(2) w1(1) by auto
    have len: "i < length (watch_table s)" using inv i(1) by (simp add: watch_inv_def)
    obtain us vs where "watched s = us @ a # vs" "watched s2 = us @ vs"
      using somes_clear[OF len i(2)] unfolding watched_def 2(6) w1(1) by metis
    then have "set (watched s2) = set (watched s) - {a}" using watched_distinct[OF inv] by auto
    moreover have "rings_are s2 ts (ps @ [a])" using r1 rings_cong[OF 2(3,4)] by simp
    ultimately show ?thesis using 1(1) 2 w1 p False same_data_core[OF 1(2)] by auto
  qed
qed

lemma somes_drop:
  "i < length w \<Longrightarrow> somes (drop i w) = (case w ! i of None \<Rightarrow> somes (drop (Suc i) w) | Some a \<Rightarrow> a # somes (drop (Suc i) w))"
  by (simp add: Cons_nth_drop_Suc[symmetric] split: option.split)

text \<open>The events chosen from the table, in its order.\<close>

definition chosen :: "int list \<Rightarrow> int \<Rightarrow> 'a loop_scheme \<Rightarrow> addr list \<Rightarrow> addr list" where
  "chosen rfds n s as = take (nat n) (filter (\<lambda>a. fd_of s a \<in> set rfds) as)"

lemma chosen_none: "n \<le> 0 \<Longrightarrow> chosen rfds n s as = []" "chosen rfds n s [] = []"
  by (auto simp: chosen_def)

lemma chosen_Cons:
  "n > 0 \<Longrightarrow> chosen rfds n s (a # as) = (if fd_of s a \<in> set rfds then a # chosen rfds (n - 1) s as else chosen rfds n s as)"
proof -
  assume "n > 0"
  then have "nat n = Suc (nat (n - 1))" by simp
  then show ?thesis by (simp add: chosen_def)
qed

lemma chosen_subset: "set (chosen rfds n s as) \<subseteq> set as"
  by (auto simp: chosen_def dest: in_set_takeD)

lemma chosen_core:
  assumes "event_core s' = event_core s" "\<And>a. a \<in> set as \<Longrightarrow> heap s a \<noteq> None"
  shows "chosen rfds n s' as = chosen rfds n s as"
proof -
  have "fd_of s' a = fd_of s a" if "a \<in> set as" for a using same_core(2)[of s' a s] assms that by simp
  then have "filter (\<lambda>a. fd_of s' a \<in> set rfds) as = filter (\<lambda>a. fd_of s a \<in> set rfds) as" by (intro filter_cong) auto
  then show ?thesis by (simp add: chosen_def)
qed

lemma watched_drop: "a \<in> set (somes (drop i (watch_table s))) \<Longrightarrow> a \<in> set (watched s)"
  by (auto simp: set_somes watched_def dest: in_set_dropD)

lemma watched_rest:
  assumes "watch_inv s" "i < length (watch_table s)" "watch_table s ! i = Some a" "b \<in> set (somes (drop (Suc i) (watch_table s)))"
  shows "b \<in> set (watched s) \<and> b \<noteq> a"
proof -
  have "distinct (somes (take i (watch_table s) @ drop i (watch_table s)))" using watched_distinct[OF assms(1)] by (simp add: watched_def)
  then show ?thesis using assms(3,4) somes_drop[OF assms(2)] watched_drop[OF assms(4)] unfolding somes_append by auto
qed

lemma readies_chosen:
  assumes "watch_inv s" "rings_are s ts ps" "i + k = MAX_FD_EVENTS"
    "\<forall>a \<in> set (somes (drop i (watch_table s))). a \<notin> {timer_list, pending_list} \<union> set ts \<union> set ps"
  shows "\<exists>s'. readies rfds i k n s = Inr s' \<and> watch_inv s' \<and> event_core s' = event_core s \<and> locked s' = locked s \<and> fired s' = fired s \<and> loop.more s' = loop.more s \<and>
    rings_are s' ts (ps @ chosen rfds n s (somes (drop i (watch_table s)))) \<and>
    set (watched s') = {a \<in> set (watched s). a \<in> set (chosen rfds n s (somes (drop i (watch_table s)))) \<longrightarrow> persistent s a}"
  using assms
proof (induction k arbitrary: i n s ps)
  case 0
  have "drop i (watch_table s) = []" using "0.prems"(1,3) by (simp add: watch_inv_def)
  then show ?case using "0.prems" by (simp add: chosen_none)
next
  case (Suc k)
  have i: "i < MAX_FD_EVENTS" "i < length (watch_table s)" using Suc.prems(1,3) by (simp_all add: watch_inv_def)
  have rest: "\<forall>a \<in> set (somes (drop (Suc i) (watch_table s))). a \<notin> {timer_list, pending_list} \<union> set ts \<union> set ps"
    using Suc.prems(4) somes_drop[OF i(2)] by (auto split: option.splits)
  have IH: "\<exists>s'. readies rfds (Suc i) k n s = Inr s' \<and> watch_inv s' \<and> event_core s' = event_core s \<and> locked s' = locked s \<and> fired s' = fired s \<and> loop.more s' = loop.more s \<and>
    rings_are s' ts (ps @ chosen rfds n s (somes (drop (Suc i) (watch_table s)))) \<and>
    set (watched s') = {a \<in> set (watched s). a \<in> set (chosen rfds n s (somes (drop (Suc i) (watch_table s)))) \<longrightarrow> persistent s a}"
    using Suc.IH[OF Suc.prems(1,2) _ rest] Suc.prems(3) by simp
  show ?case
  proof (cases "n > 0")
    case False
    then show ?thesis using Suc.prems by (simp add: chosen_none)
  next
    case n: True
    show ?thesis
    proof (cases "watch_table s ! i")
      case None
      then show ?thesis using IH n somes_drop[OF i(2)] by simp
    next
      case (Some a)
      obtain e where e: "heap s a = Some e" using Suc.prems(1) i(1) Some unfolding watch_inv_def by metis
      then have ld: "load (Some a) s = Inr e" "fd_of s a = ev_fd e" by (simp_all add: load_def fd_of_def)
      have dr: "somes (drop i (watch_table s)) = a # somes (drop (Suc i) (watch_table s))" using somes_drop[OF i(2)] Some by simp
      show ?thesis
      proof (cases "ev_fd e \<in> set rfds")
        case False
        then show ?thesis using IH n Some ld by (simp add: dr chosen_Cons)
      next
        case ready: True
        have new: "a \<notin> {timer_list, pending_list} \<union> set ts \<union> set ps" using Suc.prems(4) dr by simp
        obtain s1 s2 where 2: "addToList a pending_list s = Inr s1" "(if \<not> ev_persist e then removeWatch a i s1 else Inr s1) = Inr s2"
          "watch_inv s2" "rings_are s2 ts (ps @ [a])" "event_core s2 = event_core s"
          "drop (Suc i) (watch_table s2) = drop (Suc i) (watch_table s)"
          "set (watched s2) = (if persistent s a then set (watched s) else set (watched s) - {a})" "locked s2 = locked s" "fired s2 = fired s" "loop.more s2 = loop.more s"
          using one_ready[OF Suc.prems(1,2) i(1) Some new e] by blast
        define as where "as = somes (drop (Suc i) (watch_table s))"
        have sub: "b \<in> set (watched s)" "b \<noteq> a" if "b \<in> set as" for b
          using watched_rest[OF Suc.prems(1) i(2) Some, of b] that by (simp_all add: as_def)
        have al: "heap s b \<noteq> None" if "b \<in> set (watched s)" for b using watched_alloc[OF Suc.prems(1) that] by auto
        have ch: "chosen rfds (n - 1) s2 as = chosen rfds (n - 1) s as"
          by (rule chosen_core[OF 2(5)]) (use sub(1) al in blast)
        have pers: "persistent s2 b = persistent s b" if "b \<in> set (watched s)" for b by (rule core_persistent[OF 2(5) al[OF that]])
        have "\<forall>b \<in> set as. b \<notin> {timer_list, pending_list} \<union> set ts \<union> set (ps @ [a])"
          using rest sub(2) by (auto simp: as_def)
        then obtain s' where s': "readies rfds (Suc i) k (n - 1) s2 = Inr s'" "watch_inv s'" "event_core s' = event_core s2"
          "locked s' = locked s2" "fired s' = fired s2" "loop.more s' = loop.more s2" "rings_are s' ts ((ps @ [a]) @ chosen rfds (n - 1) s as)"
          "set (watched s') = {b \<in> set (watched s2). b \<in> set (chosen rfds (n - 1) s as) \<longrightarrow> persistent s2 b}"
          using Suc.IH[OF 2(3,4), of "Suc i" "n - 1"] Suc.prems(3) 2(6) as_def ch by auto
        have "set (watched s') = {b \<in> set (watched s). b \<in> set (a # chosen rfds (n - 1) s as) \<longrightarrow> persistent s b}"
          using s'(8) 2(7) pers sub(2) chosen_subset[of rfds "n - 1" s as] by auto
        then show ?thesis using s' 2 n Some ld ready by (simp add: dr chosen_Cons as_def)
      qed
    qed
  qed
qed

text \<open>The lock and the record of the calls are no part of the lists and the table.\<close>

lemma frame_lock [simp]:
  "fd_of (s\<lparr>locked := b\<rparr>) = fd_of s" "event_core (s\<lparr>locked := b\<rparr>) = event_core s" "watched (s\<lparr>locked := b\<rparr>) = watched s"
  "persistent (s\<lparr>locked := b\<rparr>) = persistent s"
  by (auto simp: fd_of_def event_core_def watched_def persistent_def fun_eq_iff)

lemma frame_fired [simp]:
  "nxt (s\<lparr>fired := f\<rparr>) = nxt s" "prv (s\<lparr>fired := f\<rparr>) = prv s" "timeout_of (s\<lparr>fired := f\<rparr>) = timeout_of s"
  "fd_of (s\<lparr>fired := f\<rparr>) = fd_of s" "event_core (s\<lparr>fired := f\<rparr>) = event_core s" "watched (s\<lparr>fired := f\<rparr>) = watched s"
  by (auto simp: fd_of_def event_core_def watched_def nxt_def prv_def timeout_of_def fun_eq_iff)

lemma frame_inv [simp]:
  "watch_inv (s\<lparr>locked := b\<rparr>) = watch_inv s" "chosen rfds n (s\<lparr>locked := b\<rparr>) as = chosen rfds n s as"
  "watch_inv (s\<lparr>fired := f\<rparr>) = watch_inv s" "rings_are (s\<lparr>fired := f\<rparr>) ts ps = rings_are s ts ps"
  by (simp_all add: watch_inv_def chosen_def rings_are_def dl_def)

lemma readies_processed:
  assumes "watch_inv s" "rings_are s ts ps" "\<not> locked s" "set (watched s) \<inter> ({timer_list, pending_list} \<union> set ts \<union> set ps) = {}"
  shows "\<exists>s'. processReadReadies rfds n s = Inr s' \<and> watch_inv s' \<and> event_core s' = event_core s \<and> \<not> locked s' \<and> fired s' = fired s \<and> loop.more s' = loop.more s \<and>
    rings_are s' ts (ps @ chosen rfds n s (watched s)) \<and>
    set (watched s') = {a \<in> set (watched s). a \<in> set (chosen rfds n s (watched s)) \<longrightarrow> persistent s a}"
proof -
  obtain s' where s': "readies rfds 0 MAX_FD_EVENTS n (s\<lparr>locked := True\<rparr>) = Inr s'" "watch_inv s'"
    "event_core s' = event_core s" "fired s' = fired s" "loop.more s' = loop.more s" "rings_are s' ts (ps @ chosen rfds n s (watched s))"
    "set (watched s') = {a \<in> set (watched s). a \<in> set (chosen rfds n s (watched s)) \<longrightarrow> persistent s a}"
    using readies_chosen[of "s\<lparr>locked := True\<rparr>" ts ps 0 MAX_FD_EVENTS rfds n] assms by (auto simp: watched_def[symmetric])
  then show ?thesis using assms(3)
    by (intro exI[of _ "mutex_release s'"]) (simp add: processReadReadies_def mutex_acquire_def mutex_release_def)
qed

section \<open>Firing\<close>

text \<open>
  Between the operations the lock is free, the timers are sorted and no watched event is linked
  in the timer list; \<open>ts\<close> are the timers and \<open>ps\<close> the pending events.
\<close>

definition loop_inv :: "'a loop_scheme \<Rightarrow> addr list \<Rightarrow> addr list \<Rightarrow> bool" where
  "loop_inv s ts ps \<longleftrightarrow> rings_are s ts ps \<and> timers_sorted s ts \<and> watch_inv s \<and> \<not> locked s \<and>
     set (watched s) \<inter> ({timer_list, pending_list} \<union> set ts) = {}"

definition call_of :: "'a loop_scheme \<Rightarrow> addr \<Rightarrow> nat \<times> int \<times> nat" where
  "call_of s a = (let e = the (heap s a) in (ev_func e, ev_fd e, ev_param e))"

lemma core_call: "event_core s' a = event_core s a \<Longrightarrow> heap s a \<noteq> None \<Longrightarrow> call_of s' a = call_of s a"
  by (auto simp: event_core_def call_of_def Let_def split: option.splits)

lemma rings_alloc: "rings_are s ts ps \<Longrightarrow> a \<in> {timer_list, pending_list} \<union> set ts \<union> set ps \<Longrightarrow> heap s a \<noteq> None"
  using dl_alloc[of s timer_list ts a] dl_alloc[of s pending_list ps a] by (auto simp: rings_are_def)

lemma sorted_cong: "(\<And>a. a \<in> set ts \<Longrightarrow> timeout_of s' a = timeout_of s a) \<Longrightarrow> timers_sorted s' ts = timers_sorted s ts"
  unfolding timers_sorted_def by (metis map_cong)

lemma loop_inv_same:
  assumes "loop_inv s ts ps" "same_data s s'" "rings_are s' ts' ps'" "timers_sorted s ts'" "set ts' \<subseteq> set ts"
  shows "loop_inv s' ts' ps'"
proof -
  have "timers_sorted s' ts' = timers_sorted s ts'"
    by (rule sorted_cong, rule same_data_timeout[OF assms(2)]) (use assms(1,5) rings_alloc[of s] in \<open>auto simp: loop_inv_def\<close>)
  then show ?thesis using assms watch_inv_same_data[OF assms(2)] same_data_fields[OF assms(2)]
    by (auto simp: loop_inv_def watched_def)
qed

section \<open>A round of the loop\<close>

definition expired :: "'a loop_scheme \<Rightarrow> timeval \<Rightarrow> addr list \<Rightarrow> addr list" where
  "expired s now ts = filter (\<lambda>a. timeout_of s a < now) ts"

lemma timeouts_inv:
  assumes "loop_inv s ts ps" "length ts < n"
  shows "\<exists>s'. processTimeouts n now s = Inr s' \<and> same_data s s' \<and>
    loop_inv s' (filter (\<lambda>a. \<not> timeout_of s a < now) ts) (ps @ expired s now ts)"
proof -
  have sd: "sorted (map (timeout_of s) ts)" "rings_are s ts ps" "\<not> locked s"
    using assms(1) by (simp_all add: loop_inv_def timers_sorted_def)
  obtain s' where s': "processTimeouts n now s = Inr s'" "same_data s s'"
    "rings_are s' (filter (\<lambda>a. \<not> timeout_of s a < now) ts) (ps @ expired s now ts)"
    using timeouts_processed[OF sd(2) assms(2) sd(3), of now] sorted_split[OF sd(1)] by (auto simp: expired_def)
  moreover have "loop_inv s' (filter (\<lambda>a. \<not> timeout_of s a < now) ts) (ps @ expired s now ts)"
    by (rule loop_inv_same[OF assms(1) s'(2,3)]) (use sd(1) in \<open>auto simp: timers_sorted_def sorted_filter\<close>)
  ultimately show ?thesis by blast
qed

lemma readies_inv:
  assumes "loop_inv s ts ps" "set (watched s) \<inter> set ps = {}"
  shows "\<exists>s'. processReadReadies rfds n s = Inr s' \<and> loop_inv s' ts (ps @ chosen rfds n s (watched s)) \<and>
    event_core s' = event_core s \<and> fired s' = fired s \<and> loop.more s' = loop.more s \<and>
    set (watched s') = {a \<in> set (watched s). a \<in> set (chosen rfds n s (watched s)) \<longrightarrow> persistent s a}"
proof -
  have c: "watch_inv s" "rings_are s ts ps" "\<not> locked s" "set (watched s) \<inter> ({timer_list, pending_list} \<union> set ts \<union> set ps) = {}"
    using assms by (auto simp: loop_inv_def)
  obtain s' where s': "processReadReadies rfds n s = Inr s'" "watch_inv s'" "event_core s' = event_core s" "\<not> locked s'" "fired s' = fired s"
    "rings_are s' ts (ps @ chosen rfds n s (watched s))" "loop.more s' = loop.more s"
    "set (watched s') = {a \<in> set (watched s). a \<in> set (chosen rfds n s (watched s)) \<longrightarrow> persistent s a}"
    using readies_processed[OF c, of rfds n] by auto
  have "timers_sorted s' ts = timers_sorted s ts"
    by (rule sorted_cong, rule same_core(3)[OF fun_cong[OF s'(3)]]) (use assms(1) rings_alloc[of s] in \<open>auto simp: loop_inv_def\<close>)
  then show ?thesis using s' assms by (auto simp: loop_inv_def)
qed

lemma length_somes: "length (somes xs) \<le> length xs"
  by (induction xs rule: somes.induct) auto

lemma length_chosen: "length (chosen rfds n s as) \<le> length as"
  using length_filter_le[of "\<lambda>a. fd_of s a \<in> set rfds" as] unfolding chosen_def length_take by (rule min.coboundedI1)

section \<open>The interface of the callbacks\<close>

text \<open>
  What the loop relies on in the callback \<open>cb\<close> of its clients: \<open>K s ts ps\<close> is the clients' own
  invariant when \<open>ts\<close> are the timers and the events \<open>ps\<close> are pending, and \<open>E\<close> are the ways a callback may fail to return.
  The callback of an event that was taken off the pending list may use the operations of this
  file, but leaves the other pending events alone.
\<close>

locale event_client =
  fixes cb :: "tgm_event \<Rightarrow> 'a loop_scheme \<Rightarrow> 'a loop_scheme outcome"
    and K :: "'a loop_scheme \<Rightarrow> addr list \<Rightarrow> addr list \<Rightarrow> bool"
    and E :: "stop set"
  assumes call: "loop_inv s ts ps \<Longrightarrow> K s ts (a # ps) \<Longrightarrow> heap s a = Some e \<Longrightarrow> a \<notin> {timer_list, pending_list} \<union> set ts \<union> set ps \<Longrightarrow>
      outO E (\<lambda>s'. (\<exists>ts'. loop_inv s' ts' ps \<and> K s' ts' ps) \<and> fired s' = fired s \<and> (\<forall>b \<in> set ps. event_core s' b = event_core s b)) (cb e s)"
    and same: "K s ts ps \<Longrightarrow> same_data s s' \<Longrightarrow> K s' ts ps"
    and log: "K s ts ps \<Longrightarrow> K (s\<lparr>fired := f\<rparr>) ts ps"
    and due: "loop_inv s ts [] \<Longrightarrow> K s ts [] \<Longrightarrow> K s (filter (\<lambda>a. \<not> timeout_of s a < now) ts) (expired s now ts)"
    and ready: "loop_inv s ts ps \<Longrightarrow> K s ts ps \<Longrightarrow> set (watched s) \<inter> set ps = {} \<Longrightarrow> processReadReadies rfds n s = Inr s' \<Longrightarrow>
      K s' ts (ps @ chosen rfds n s (watched s))"
begin

lemma fire_one:
  assumes "loop_inv s ts (a # ps)" "K s ts (a # ps)"
  shows "\<exists>e e1 s1. heap s a = Some e \<and> ev_next e = Some (hd (ps @ [pending_list])) \<and> removeFromList a s = Inr s1 \<and> heap s1 a = Some e1 \<and>
    a \<noteq> pending_list \<and> same_data s s1 \<and> (ev_func e1, ev_fd e1, ev_param e1) = call_of s a \<and>
    outO E (\<lambda>s2. (\<exists>ts2. loop_inv s2 ts2 ps \<and> K s2 ts2 ps) \<and> fired s2 = fired s @ [call_of s a] \<and> (\<forall>b \<in> set ps. event_core s2 b = event_core s b))
      (cb e1 (s1\<lparr>fired := fired s1 @ [call_of s a]\<rparr>))"
proof -
  have r: "dl s pending_list (a # ps)" "dl s timer_list ts" "apart pending_list (a # ps) timer_list ts"
    using assms(1) apart_sym by (simp_all add: loop_inv_def rings_are_def)
  have a: "a \<noteq> pending_list" using dl_distinct[OF r(1)] by auto
  obtain e where e: "heap s a = Some e" "ev_next e = Some (hd (ps @ [pending_list]))"
    using load_in_list[of s pending_list "[a]" ps a] r(1) by auto
  obtain s1 where 1: "removeFromList a s = Inr s1" "same_data s s1" "dl s1 pending_list ps" "dl s1 timer_list ts" "apart pending_list ps timer_list ts"
    "a \<notin> insert pending_list (set ps)" "a \<notin> insert timer_list (set ts)"
    using rings.take_first[OF r] by blast
  obtain e1 where e1: "heap s1 a = Some e1" using same_data_alloc[OF 1(2), of a] e(1) by auto
  define s1' where "s1' = s1\<lparr>fired := fired s1 @ [call_of s a]\<rparr>"
  have core: "event_core s1' b = event_core s b" for b using fun_cong[OF same_data_core[OF 1(2)], of b] by (simp add: s1'_def)
  have "loop_inv s1 ts ps" by (rule loop_inv_same[OF assms(1) 1(2)]) (use 1 assms(1) apart_sym in \<open>auto simp: rings_are_def loop_inv_def\<close>)
  then have inv: "loop_inv s1' ts ps" unfolding s1'_def by (simp add: loop_inv_def timers_sorted_def)
  have "outO E (\<lambda>s2. (\<exists>ts2. loop_inv s2 ts2 ps \<and> K s2 ts2 ps) \<and> fired s2 = fired s1' \<and> (\<forall>b \<in> set ps. event_core s2 b = event_core s1' b)) (cb e1 s1')"
    by (rule call[OF inv]) (use log[OF same[OF assms(2) 1(2)]] e1 1(6,7) in \<open>auto simp: s1'_def\<close>)
  moreover have "fired s1' = fired s @ [call_of s a]" using same_data_fields[OF 1(2)] by (simp add: s1'_def)
  moreover have "(ev_func e1, ev_fd e1, ev_param e1) = call_of s a"
    using core_call[of s1 a s] e1 e(1) fun_cong[OF same_data_core[OF 1(2)], of a] by (simp add: call_of_def Let_def)
  ultimately show ?thesis using e e1 1(1,2) a same_data_core[OF 1(2)] unfolding core s1'_def by auto
qed

lemma fire_all:
  assumes "loop_inv s ts ps" "K s ts ps" "length ps < n"
  shows "outO E (\<lambda>s'. (\<exists>ts'. loop_inv s' ts' [] \<and> K s' ts' []) \<and> fired s' = fired s @ map (call_of s) ps) (fire cb n (hd (ps @ [pending_list])) s)"
  using assms
proof (induction ps arbitrary: s ts n)
  case Nil
  then show ?case by (cases n) auto
next
  case (Cons a ps)
  obtain m where n: "n = Suc m" "length ps < m" using Cons.prems(3) by (cases n) auto
  obtain e e1 s1 where 1: "heap s a = Some e" "ev_next e = Some (hd (ps @ [pending_list]))" "removeFromList a s = Inr s1" "heap s1 a = Some e1"
    "a \<noteq> pending_list" "same_data s s1" "(ev_func e1, ev_fd e1, ev_param e1) = call_of s a"
    "outO E (\<lambda>s2. (\<exists>ts2. loop_inv s2 ts2 ps \<and> K s2 ts2 ps) \<and> fired s2 = fired s @ [call_of s a] \<and> (\<forall>b \<in> set ps. event_core s2 b = event_core s b))
      (cb e1 (s1\<lparr>fired := fired s1 @ [call_of s a]\<rparr>))"
    using fire_one[OF Cons.prems(1,2)] by blast
  have al: "heap s b \<noteq> None" if "b \<in> set ps" for b using rings_alloc[of s ts "a # ps" b] Cons.prems(1) that by (simp add: loop_inv_def)
  have step: "outO E (\<lambda>s'. (\<exists>ts'. loop_inv s' ts' [] \<and> K s' ts' []) \<and> fired s' = fired s @ map (call_of s) (a # ps)) (fire cb m (hd (ps @ [pending_list])) s2)"
    if s2: "loop_inv s2 ts2 ps" "K s2 ts2 ps" "fired s2 = fired s @ [call_of s a]" "\<forall>b \<in> set ps. event_core s2 b = event_core s b" for s2 ts2
  proof -
    have "map (call_of s2) ps = map (call_of s) ps" using core_call[of s2 _ s] s2(4) al by (intro map_cong) auto
    then show ?thesis using Cons.IH[OF s2(1,2) n(2)] s2(3) by (simp del: map_eq_conv)
  qed
  have "fire cb n (hd ((a # ps) @ [pending_list])) s = seqO (cb e1 (s1\<lparr>fired := fired s1 @ [call_of s a]\<rparr>)) (fire cb m (hd (ps @ [pending_list])))"
    using n(1) 1(1-5) 1(7) by (simp add: load_def)
  then show ?case using outO_seqO[OF 1(8), of "\<lambda>s'. (\<exists>ts'. loop_inv s' ts' [] \<and> K s' ts' []) \<and> fired s' = fired s @ map (call_of s) (a # ps)"] step by auto
qed

lemma firePending_all:
  assumes "loop_inv s ts ps" "K s ts ps" "length ps < n"
  shows "outO E (\<lambda>s'. (\<exists>ts'. loop_inv s' ts' [] \<and> K s' ts' []) \<and> fired s' = fired s @ map (call_of s) ps) (firePending cb n s)"
proof -
  have "dl s pending_list ps" using assms(1) by (simp add: loop_inv_def rings_are_def)
  then obtain e where "heap s pending_list = Some e" "ev_next e = Some (hd (ps @ [pending_list]))"
    using load_in_list[of s pending_list "[]" ps pending_list] by auto
  then show ?thesis using fire_all[OF assms] by (simp add: firePending_def load_def)
qed

lemma round_inv:
  assumes inv: "loop_inv s ts []" and K: "K s ts []" and k: "length ts + MAX_FD_EVENTS < k" and n: "n \<ge> 0"
  shows "outO E (\<lambda>r. \<exists>s'. r = Some s' \<and> (\<exists>ts'. loop_inv s' ts' [] \<and> K s' ts' []) \<and>
      fired s' = fired s @ map (call_of s) (expired s now ts @ chosen rfds n s (watched s))) (loop_round cb k eintr n rfds now s)"
proof -
  obtain s1 where 1: "processTimeouts k now s = Inr s1" "same_data s s1"
    "loop_inv s1 (filter (\<lambda>a. \<not> timeout_of s a < now) ts) (expired s now ts)"
    using timeouts_inv[OF inv, of k now] k by auto
  have w: "watched s1 = watched s" "fired s1 = fired s" using same_data_fields[OF 1(2)] by (simp_all add: watched_def)
  have core1: "event_core s1 = event_core s" by (rule same_data_core[OF 1(2)])
  have wi: "watch_inv s" using inv by (simp add: loop_inv_def)
  have al: "heap s a \<noteq> None" if "a \<in> set ts \<union> set (watched s)" for a
    using that watched_alloc[OF wi, of a] rings_alloc[of s ts "[]" a] inv by (auto simp: loop_inv_def)
  have ch: "chosen rfds n s1 (watched s) = chosen rfds n s (watched s)" by (rule chosen_core[OF core1]) (use al in blast)
  have "set (watched s1) \<inter> set (expired s now ts) = {}" using inv w by (auto simp: loop_inv_def expired_def)
  then obtain s2 where 2: "processReadReadies rfds n s1 = Inr s2"
    "loop_inv s2 (filter (\<lambda>a. \<not> timeout_of s a < now) ts) (expired s now ts @ chosen rfds n s (watched s))"
    "event_core s2 = event_core s1" "fired s2 = fired s1"
    using readies_inv[OF 1(3), of rfds n] unfolding w(1) ch by blast
  have K1: "K s1 (filter (\<lambda>a. \<not> timeout_of s a < now) ts) (expired s now ts)" by (rule same[OF due[OF inv K] 1(2)])
  have K2: "K s2 (filter (\<lambda>a. \<not> timeout_of s a < now) ts) (expired s now ts @ chosen rfds n s (watched s))"
    using ready[OF 1(3) K1 \<open>set (watched s1) \<inter> set (expired s now ts) = {}\<close> 2(1)] unfolding w(1) ch .
  have "length (chosen rfds n s (watched s)) \<le> MAX_FD_EVENTS"
    using length_chosen[of rfds n s "watched s"] length_somes[of "watch_table s"] wi by (simp add: watched_def watch_inv_def)
  then have "length (expired s now ts @ chosen rfds n s (watched s)) < k"
    using k length_filter_le[of "\<lambda>a. timeout_of s a < now" ts] unfolding expired_def length_append by linarith
  then have 3: "outO E (\<lambda>s'. (\<exists>ts'. loop_inv s' ts' [] \<and> K s' ts' []) \<and>
      fired s' = fired s2 @ map (call_of s2) (expired s now ts @ chosen rfds n s (watched s))) (firePending cb k s2)"
    by (rule firePending_all[OF 2(2) K2])
  have "call_of s2 a = call_of s a" if "a \<in> set (expired s now ts @ chosen rfds n s (watched s))" for a
  proof (rule core_call)
    show "event_core s2 a = event_core s a" using 2(3) core1 by simp
    show "heap s a \<noteq> None" using that al chosen_subset[of rfds n s "watched s"] by (auto simp: expired_def)
  qed
  then have "map (call_of s2) (expired s now ts @ chosen rfds n s (watched s)) = map (call_of s) (expired s now ts @ chosen rfds n s (watched s))"
    by (intro map_cong) auto
  then have "outO E (\<lambda>s'. (\<exists>ts'. loop_inv s' ts' [] \<and> K s' ts' []) \<and>
      fired s' = fired s @ map (call_of s) (expired s now ts @ chosen rfds n s (watched s))) (firePending cb k s2)"
    using 3 w(2) 2(4) by (simp del: map_eq_conv map_append)
  then show ?thesis using 1(1) 2(1) n by (auto simp: loop_round_def elim: outO_mono intro!: outO_seqO)
qed

end

text \<open>A callback without an invariant of its own that always returns.\<close>

definition callback_ok :: "(tgm_event \<Rightarrow> 'a loop_scheme \<Rightarrow> 'a loop_scheme outcome) \<Rightarrow> bool" where
  "callback_ok cb \<longleftrightarrow> (\<forall>e s ts ps. loop_inv s ts ps \<longrightarrow> (\<exists>s' ts'. cb e s = Inr s' \<and> loop_inv s' ts' ps \<and> fired s' = fired s \<and>
     (\<forall>a \<in> set ps. event_core s' a = event_core s a)))"

lemma callback_client: "callback_ok cb \<Longrightarrow> event_client cb (\<lambda>_ _ _. True) {}"
  by (unfold_locales, unfold outO_none callback_ok_def) (blast | simp)+

lemma round_ok:
  assumes "callback_ok cb" "loop_inv s ts []" "length ts + MAX_FD_EVENTS < k" "n \<ge> 0"
  shows "\<exists>s' ts'. loop_round cb k eintr n rfds now s = Inr (Some s') \<and> loop_inv s' ts' [] \<and>
    fired s' = fired s @ map (call_of s) (expired s now ts @ chosen rfds n s (watched s))"
  using event_client.round_inv[OF callback_client[OF assms(1)] assms(2) _ assms(3,4), where eintr = eintr and rfds = rfds and now = now] unfolding outO_none by blast

section \<open>The operations keep the invariant\<close>

lemma links_unique:
  "links N P (a # xs @ [l]) \<Longrightarrow> links N P (a # ys @ [l]) \<Longrightarrow> l \<notin> set xs \<Longrightarrow> l \<notin> set ys \<Longrightarrow> xs = ys"
proof (induction xs arbitrary: a ys)
  case Nil
  then show ?case by (cases ys) auto
next
  case (Cons x xs)
  then show ?case by (cases ys) auto
qed

lemma dl_unique: "dl s l xs \<Longrightarrow> dl s l ys \<Longrightarrow> xs = ys"
  unfolding dl_def by (auto intro: links_unique)

lemma listed_next: "rings_are s ts ps \<Longrightarrow> a \<in> {timer_list, pending_list} \<union> set ts \<union> set ps \<Longrightarrow> nxt s a \<noteq> None"
proof -
  have "nxt s a \<noteq> None" if "dl s l xs" "a \<in> insert l (set xs)" for l xs
    using that dl_hd[OF that(1)] dl_next[of s l _ a] by (auto simp: in_set_conv_decomp)
  then show "rings_are s ts ps \<Longrightarrow> a \<in> {timer_list, pending_list} \<union> set ts \<union> set ps \<Longrightarrow> nxt s a \<noteq> None"
    by (auto simp: rings_are_def)
qed

lemma unlinked: "loop_inv s ts ps \<Longrightarrow> nxt s a = None \<Longrightarrow> a \<notin> {timer_list, pending_list} \<union> set ts \<union> set ps"
  using listed_next[of s ts ps a] by (auto simp: loop_inv_def)

lemma somes_replicate [simp]: "somes (replicate n None) = []"
  by (induction n) auto

lemma init_inv: "loop_inv (tgm_event_init s) [] []"
proof -
  have "rings_are (tgm_event_init s) [] []"
    by (simp add: rings_are_def dl_def apart_def tgm_event_init_def init_list_def nxt_def prv_def timer_list_def pending_list_def empty_event_def)
  moreover have "watch_inv (tgm_event_init s)" "watched (tgm_event_init s) = []"
    by (simp_all add: watch_inv_def watched_def tgm_event_init_def init_list_def)
  ultimately show ?thesis by (simp add: loop_inv_def timers_sorted_def) (simp add: tgm_event_init_def init_list_def)
qed

lemma heap_update_inv:
  assumes "loop_inv s ts ps" and out: "ev \<notin> {timer_list, pending_list} \<union> set ts \<union> set ps" and "ev \<notin> set (watched s)"
  shows "loop_inv (s\<lparr>heap := (heap s)(ev := v)\<rparr>) ts ps"
proof -
  define s' where "s' = s\<lparr>heap := (heap s)(ev := v)\<rparr>"
  have other: "heap s' a = heap s a" if "a \<noteq> ev" for a using that by (simp add: s'_def)
  have np: "nxt s' a = nxt s a \<and> prv s' a = prv s a" if "a \<noteq> ev" for a using other[OF that] by (simp add: nxt_def prv_def)
  have neq: "a \<noteq> ev" if "a \<in> {timer_list, pending_list} \<union> set ts \<union> set ps" for a using out that by blast
  have dls: "dl s timer_list ts" "dl s pending_list ps" using assms(1) by (simp_all add: loop_inv_def rings_are_def)
  have "dl s' timer_list ts" by (rule dl_frame[OF dls(1)], rule np, rule neq) auto
  moreover have "dl s' pending_list ps" by (rule dl_frame[OF dls(2)], rule np, rule neq) auto
  ultimately have "rings_are s' ts ps" using assms(1) by (simp add: loop_inv_def rings_are_def)
  moreover have "timers_sorted s' ts = timers_sorted s ts" using other[OF neq] by (intro sorted_cong) (simp add: timeout_of_def)
  moreover have "watch_inv s'"
    by (rule watch_inv_cong[of s]) (use assms(1,3) other in \<open>auto simp: loop_inv_def s'_def\<close>)
  moreover have "watched s' = watched s" "locked s' = locked s" by (simp_all add: s'_def watched_def)
  ultimately show ?thesis using assms(1) unfolding s'_def[symmetric] by (simp add: loop_inv_def)
qed

lemma set_inv:
  "loop_inv s ts ps \<Longrightarrow> ev \<notin> {timer_list, pending_list} \<union> set ts \<union> set ps \<Longrightarrow> ev \<notin> set (watched s) \<Longrightarrow>
    loop_inv (tgm_event_set ev fd persist func param s) ts ps"
  unfolding tgm_event_set_def by (rule heap_update_inv)

lemma core_sorted:
  assumes "loop_inv s ts ps" "event_core s' = event_core s"
  shows "timers_sorted s' ts"
proof -
  have "timers_sorted s' ts = timers_sorted s ts"
    by (rule sorted_cong, rule same_core(3)[OF fun_cong[OF assms(2)]]) (use assms(1) rings_alloc[of s] in \<open>auto simp: loop_inv_def\<close>)
  then show ?thesis using assms(1) by (simp add: loop_inv_def)
qed

lemma add_inv:
  assumes "loop_inv s ts ps" "heap s ev = Some e" "ev \<notin> {timer_list, pending_list} \<union> set ts" "ev \<notin> set (watched s)" "ev_fd e \<notin> set (readFds s)"
  shows "\<exists>s'. tgm_event_add ev s = Inr s' \<and> loop_inv s' ts ps \<and> fired s' = fired s \<and> event_core s' = event_core s \<and> loop.more s' = loop.more s \<and>
    (None \<in> set (watch_table s) \<longrightarrow> set (watched s') = insert ev (set (watched s)))"
proof (cases "None \<in> set (watch_table s)")
  case True
  have c: "watch_inv s" "\<not> locked s" "rings_are s ts ps" using assms(1) by (simp_all add: loop_inv_def)
  obtain s' where s': "tgm_event_add ev s = Inr s'" "watch_inv s'" "nxt s' = nxt s" "prv s' = prv s" "event_core s' = event_core s"
    "set (watched s') = insert ev (set (watched s))" "locked s' = locked s" "fired s' = fired s" "loop.more s' = loop.more s"
    using event_added[OF c(1,2) assms(2,4,5) True] by blast
  have "rings_are s' ts ps" using c(3) rings_cong[OF s'(3,4)] by simp
  then have "loop_inv s' ts ps"
    using s' core_sorted[OF assms(1) s'(5)] assms(1,3) by (auto simp: loop_inv_def)
  then show ?thesis using s' by blast
next
  case False
  then show ?thesis using event_dropped[of s ev] assms(1) by (auto simp: loop_inv_def)
qed

lemma del_inv:
  assumes "loop_inv s ts ps" "ev \<in> set (watched s)"
  shows "\<exists>s'. tgm_event_del ev s = Inr s' \<and> loop_inv s' ts ps \<and> fired s' = fired s \<and> event_core s' = event_core s \<and>
    set (watched s') = set (watched s) - {ev} \<and> loop.more s' = loop.more s"
proof -
  have c: "watch_inv s" "\<not> locked s" "rings_are s ts ps" using assms(1) by (simp_all add: loop_inv_def)
  obtain i e where i: "i < MAX_FD_EVENTS" "watch_table s ! i = Some ev" "heap s ev = Some e" "ev_index e = int i"
    using watched_nth[OF c(1) assms(2)] by metis
  define s1 where "s1 = s\<lparr>locked := True\<rparr>"
  have inv1: "watch_inv s1" using c(1) by (simp add: s1_def)
  obtain s2 where s2: "removeWatch ev i s1 = Inr s2" "watch_inv s2" "nxt s2 = nxt s1" "prv s2 = prv s1" "event_core s2 = event_core s1"
    "watch_table s2 = (watch_table s1)[i := None]" "fired s2 = fired s1" "loop.more s2 = loop.more s1"
    using removeWatch_effect[OF inv1 i(1)] i(2) by (auto simp: s1_def)
  have len: "i < length (watch_table s)" using c(1) i(1) by (simp add: watch_inv_def)
  obtain us vs where "watched s = us @ ev # vs" "watched s2 = us @ vs"
    using somes_clear[OF len i(2)] unfolding watched_def s2(6) s1_def by (metis loop.select_convs(4) loop.surjective loop.update_convs(5))
  then have w: "set (watched s2) = set (watched s) - {ev}" using watched_distinct[OF c(1)] by auto
  have "rings_are s2 ts ps" using c(3) rings_cong[OF s2(3,4)] by (simp add: s1_def)
  moreover have core: "event_core (mutex_release s2) = event_core s" using s2(5) by (simp add: mutex_release_def s1_def)
  ultimately have "loop_inv (mutex_release s2) ts ps"
    using assms(1) s2(2) w core_sorted[OF assms(1) core] by (auto simp: loop_inv_def mutex_release_def timers_sorted_def)
  moreover have "tgm_event_del ev s = Inr (mutex_release s2)"
    using c(2) i s2(1) by (simp add: tgm_event_del_def mutex_acquire_def s1_def load_def)
  ultimately show ?thesis using core w s2(7,8) by (auto simp: mutex_release_def s1_def)
qed

lemma timer_inv:
  assumes inv: "loop_inv s ts ps" and n: "length ts < n" and ev: "heap s ev = Some e" "ev \<notin> {timer_list, pending_list} \<union> set ts \<union> set ps" "ev \<notin> set (watched s)"
  shows "\<exists>s'. tgm_timer_add n now ev (Some d) s = Inr s' \<and> loop_inv s' (place (timeout_of s) (timeradd now d) ev ts) ps \<and>
    timeout_of s' ev = timeradd now d \<and> fired s' = fired s \<and> (\<forall>a. a \<noteq> ev \<longrightarrow> event_core s' a = event_core s a) \<and>
    event_core s' ev = Some (-1, ev_persist e, timeradd now d, ev_func e, ev_param e) \<and> s' = s\<lparr>heap := heap s'\<rparr>"
proof -
  define t where "t = timeradd now d"
  have c: "rings_are s ts ps" "\<not> locked s" "watch_inv s" "timers_sorted s ts" using inv by (simp_all add: loop_inv_def)
  note out = ev(2)
  obtain s' where s': "tgm_timer_add n now ev (Some d) s = Inr s'" "rings_are s' (place (timeout_of s) t ev ts) ps"
    "timeout_of s' ev = t" "\<And>a. heap s a \<noteq> None \<Longrightarrow> a \<noteq> ev \<Longrightarrow> timeout_of s' a = timeout_of s a" "s' = s\<lparr>heap := heap s'\<rparr>"
    "\<And>a. a \<noteq> ev \<Longrightarrow> event_data s' a = event_data s a"
    "event_data s' ev = Some (e\<lparr>ev_next := None, ev_prev := None, ev_fd := -1, ev_timeout := t\<rparr>)"
    using timer_added[OF c(1) n c(2) ev(1) out, of now d] unfolding t_def by metis
  have same: "map_option f (heap s' a) = map_option f (heap s a)"
    if "a \<noteq> ev" "\<And>e. f (e\<lparr>ev_next := None, ev_prev := None\<rparr>) = f e" for a and f :: "tgm_event \<Rightarrow> 'b"
    using s'(6)[OF that(1)] that(2) unfolding event_data_def
    by (metis (mono_tags, lifting) option.map_cong option.map_comp o_def)
  have w: "watch_table s' = watch_table s" "readFds s' = readFds s" "nfds s' = nfds s" "locked s' = locked s" "fired s' = fired s"
    by (subst s'(5), simp)+
  have "watch_inv s'" by (rule watch_inv_cong[OF c(3) w(1-3)]) (use ev(3) in \<open>auto intro!: same\<close>)
  moreover have "timers_sorted s' (place (timeout_of s) t ev ts)"
  proof -
    define f where "f = (timeout_of s)(ev := t)"
    have f: "f a = timeout_of s a" if "a \<in> set ts" for a using that out by (auto simp: f_def)
    have "place f t ev ts = place (timeout_of s) t ev ts" unfolding place_def
      using takeWhile_cong[of ts ts "\<lambda>a. f a < t" "\<lambda>a. timeout_of s a < t"] dropWhile_cong[of ts ts "\<lambda>a. f a < t" "\<lambda>a. timeout_of s a < t"] f
      by simp
    moreover have "map f ts = map (timeout_of s) ts" "f ev = t" using f by (simp_all add: f_def)
    ultimately have "sorted (map f (place (timeout_of s) t ev ts))"
      using place_sorted[of f ts ev t] c(4) unfolding timers_sorted_def by metis
    moreover have "timeout_of s' a = f a" if "a \<in> set (place (timeout_of s) t ev ts)" for a
    proof -
      have "a = ev \<or> a \<in> set ts" using that by (auto simp: place_def dest: set_takeWhileD set_dropWhileD)
      then show ?thesis using s'(3,4) rings_alloc[OF c(1), of a] f by (cases "a = ev") (auto simp: f_def)
    qed
    ultimately show ?thesis unfolding timers_sorted_def by (metis (mono_tags, lifting) map_cong)
  qed
  moreover have "set (place (timeout_of s) t ev ts) \<subseteq> insert ev (set ts)" by (auto simp: place_def dest: set_takeWhileD set_dropWhileD)
  ultimately have "loop_inv s' (place (timeout_of s) t ev ts) ps"
    using s'(2) w inv ev(3) by (auto simp: loop_inv_def watched_def)
  moreover have "event_core s' a = event_core s a" if "a \<noteq> ev" for a
    unfolding event_core_def by (rule same) (use that in auto)
  moreover have "event_core s' ev = Some (-1, ev_persist e, t, ev_func e, ev_param e)"
  proof -
    obtain x where x: "heap s' ev = Some x" "x\<lparr>ev_next := None, ev_prev := None\<rparr> = e\<lparr>ev_next := None, ev_prev := None, ev_fd := -1, ev_timeout := t\<rparr>"
      using s'(7) by (auto simp: event_data_def)
    from arg_cong[OF x(2), of "\<lambda>e. (ev_fd e, ev_persist e, ev_timeout e, ev_func e, ev_param e)"] show ?thesis by (simp add: event_core_def x(1))
  qed
  ultimately show ?thesis using s'(1,3,5) w(5) by (simp add: t_def)
qed

section \<open>The reachable states\<close>

text \<open>
  The operations as the clients may use them: an event that is set up or added is in no list and
  is not watched yet, and one that is deleted is watched. \<open>n\<close> and \<open>k\<close> bound the walks over the
  lists and are larger than the lists are long.
\<close>

inductive loop_step :: "'a loop_scheme \<Rightarrow> 'a loop_scheme \<Rightarrow> bool" where
  set_event: "nxt s ev = None \<Longrightarrow> ev \<notin> set (watched s) \<Longrightarrow> loop_step s (tgm_event_set ev fd persist func param s)"
| add_event: "heap s ev = Some e \<Longrightarrow> nxt s ev = None \<Longrightarrow> ev \<notin> set (watched s) \<Longrightarrow> ev_fd e \<notin> set (readFds s) \<Longrightarrow>
    tgm_event_add ev s = Inr s' \<Longrightarrow> loop_step s s'"
| del_event: "ev \<in> set (watched s) \<Longrightarrow> tgm_event_del ev s = Inr s' \<Longrightarrow> loop_step s s'"
| add_timer: "heap s ev = Some e \<Longrightarrow> nxt s ev = None \<Longrightarrow> ev \<notin> set (watched s) \<Longrightarrow> dl s timer_list ts \<Longrightarrow> length ts < n \<Longrightarrow>
    tgm_timer_add n now ev (Some d) s = Inr s' \<Longrightarrow> loop_step s s'"
| round: "callback_ok cb \<Longrightarrow> dl s timer_list ts \<Longrightarrow> length ts + MAX_FD_EVENTS < k \<Longrightarrow> n \<ge> 0 \<Longrightarrow>
    loop_round cb k eintr n rfds now s = Inr (Some s') \<Longrightarrow> loop_step s s'"

inductive loop_reach :: "'a loop_scheme \<Rightarrow> bool" where
  start: "loop_reach (tgm_event_init s)"
| step: "loop_reach s \<Longrightarrow> loop_step s s' \<Longrightarrow> loop_reach s'"

inductive_cases loop_stepE: "loop_step s s'"

lemma loop_inv_timers: "loop_inv s ts ps \<Longrightarrow> dl s timer_list ts' \<Longrightarrow> ts' = ts"
  by (auto simp: loop_inv_def rings_are_def intro: dl_unique)

lemma step_inv:
  assumes "loop_step s s'" "loop_inv s ts []"
  shows "\<exists>ts'. loop_inv s' ts' []"
  using assms(1)
proof cases
  case (set_event ev)
  then show ?thesis using set_inv[OF assms(2) unlinked[OF assms(2) set_event(2)]] by blast
next
  case (add_event ev e)
  then show ?thesis using add_inv[OF assms(2) add_event(1) _ add_event(3,4)] unlinked[OF assms(2) add_event(2)] by auto
next
  case (del_event ev)
  then show ?thesis using del_inv[OF assms(2)] by fastforce
next
  case (add_timer ev e ts' n now d)
  have "ts' = ts" by (rule loop_inv_timers[OF assms(2) add_timer(4)])
  then show ?thesis using timer_inv[OF assms(2) _ add_timer(1) unlinked[OF assms(2) add_timer(2)] add_timer(3), of n now d] add_timer(5,6) by auto
next
  case (round cb ts' k n eintr rfds now)
  have "ts' = ts" by (rule loop_inv_timers[OF assms(2) round(2)])
  then show ?thesis using round_ok[OF round(1) assms(2) _ round(4), of k eintr rfds now] round(3,5) by auto
qed

lemma reach_inv: "loop_reach s \<Longrightarrow> \<exists>ts. loop_inv s ts []"
proof (induction rule: loop_reach.induct)
  case (start s)
  then show ?case using init_inv by blast
next
  case (step s s')
  then show ?case using step_inv by blast
qed

lemma idle_callback: "callback_ok (\<lambda>e s. Inr s)"
  unfolding callback_ok_def by blast

text \<open>A loop with an event that watches descriptor 5 and one timer that expires at 6 s.\<close>

definition fresh_loop :: loop where
  "fresh_loop = tgm_event_set 3 (-1) False 7 9 (tgm_event_set 2 5 True 8 4
     (tgm_event_init \<lparr>heap = Map.empty, readFds = [], nfds = 0, watch_table = [], locked = False, fired = []\<rparr>))"

definition watched_loop :: loop where
  "watched_loop = (case tgm_event_add 2 fresh_loop of Inr s \<Rightarrow> s)"

definition armed_loop :: loop where
  "armed_loop = (case tgm_timer_add 1 (Timeval 5 0) 3 (Some (Timeval 1 0)) watched_loop of Inr s \<Rightarrow> s)"

lemma fresh_reach: "loop_reach fresh_loop"
  unfolding fresh_loop_def
  by (rule loop_reach.step[OF _ loop_step.set_event], rule loop_reach.step[OF _ loop_step.set_event], rule loop_reach.start)
    (simp_all add: nxt_def watched_def tgm_event_init_def init_list_def tgm_event_set_def timer_list_def pending_list_def)

lemma slots: "replicate MAX_FD_EVENTS None = [None, None, None, None, None, None, None, None]"
  by (simp add: MAX_FD_EVENTS_def numeral_eq_Suc)

lemmas loop_eval = armed_loop_def watched_loop_def fresh_loop_def tgm_event_init_def init_list_def tgm_event_set_def timer_list_def
  pending_list_def empty_event_def slots tgm_event_add_def mutex_acquire_def mutex_release_def store_def load_def tgm_timer_add_def
  addToList_def timeradd_def timeval_less

lemma demo_steps: "tgm_event_add 2 fresh_loop = Inr watched_loop" "tgm_timer_add 1 (Timeval 5 0) 3 (Some (Timeval 1 0)) watched_loop = Inr armed_loop"
  by (simp_all add: loop_eval)

lemma watched_loop_inv: "loop_inv watched_loop [] []"
proof -
  have "loop_inv fresh_loop [] []" unfolding fresh_loop_def
    by (rule set_inv, rule set_inv, rule init_inv)
      (simp_all add: nxt_def watched_def tgm_event_init_def init_list_def tgm_event_set_def timer_list_def pending_list_def)
  then show ?thesis
    using add_inv[of fresh_loop "[]" "[]" 2 "the (heap fresh_loop 2)"] demo_steps(1)
    by (simp add: fresh_loop_def tgm_event_set_def nxt_def watched_def tgm_event_init_def init_list_def empty_event_def timer_list_def pending_list_def)
qed

lemma armed_loop_inv: "loop_inv armed_loop [3] []"
  using timer_inv[OF watched_loop_inv, of 1 3 "the (heap watched_loop 3)" "Timeval 5 0" "Timeval 1 0"] demo_steps(2)
  by (simp add: place_def) (simp add: loop_eval watched_def)

lemma armed_facts: "watched armed_loop = [2]" "fd_of armed_loop 2 = 5" "timeout_of armed_loop 3 = Timeval 6 0"
  "call_of armed_loop 2 = (8, 5, 4)" "call_of armed_loop 3 = (7, -1, 9)" "fired armed_loop = []"
  by (simp_all add: watched_def fd_of_def timeout_of_def call_of_def loop_eval)

section \<open>Properties\<close>

text \<open>
  C19. In every state that the operations reach, from \<open>tgm_event_init\<close> on, the timer list is a
  well-formed ring sorted by time, nothing is pending between two rounds, the lock is free, and
  the table agrees with the descriptors and the bound given to \<open>select\<close>; and another round with
  an admissible callback neither blocks nor follows a bad pointer.
\<close>

theorem event_loop_invariant:
  assumes "loop_reach s" "callback_ok cb" "n \<ge> 0"
  shows "(\<exists>ts. loop_inv s ts []) \<and> (\<exists>k s'. loop_round cb k eintr n rfds now s = Inr (Some s') \<and> loop_reach s')"
proof -
  obtain ts where ts: "loop_inv s ts []" using reach_inv[OF assms(1)] by blast
  obtain s' where s': "loop_round cb (Suc (length ts + MAX_FD_EVENTS)) eintr n rfds now s = Inr (Some s')"
    using round_ok[OF assms(2) ts _ assms(3), of "Suc (length ts + MAX_FD_EVENTS)"] by blast
  have "dl s timer_list ts" using ts by (simp add: loop_inv_def rings_are_def)
  then have "loop_step s s'" using loop_step.round[OF assms(2) _ _ assms(3) s'] by simp
  then show ?thesis using ts s' loop_reach.step[OF assms(1)] by blast
qed

theorem event_loop_invariant_witness:
  "\<exists>k s'. loop_round (\<lambda>e s. Inr s) k False 0 [] (Timeval 0 0) fresh_loop = Inr (Some s') \<and> loop_reach s'"
  using event_loop_invariant[OF fresh_reach idle_callback, of 0 False "[]" "Timeval 0 0"] by simp

text \<open>
  C21. One round runs the callbacks of the expired timers, those whose time is strictly before the
  present, in the order of their times, and then those of the ready descriptors that are watched, in the order of the table, each exactly once.
\<close>

theorem event_round_fires:
  assumes "callback_ok cb" "loop_inv s ts []" "length ts + MAX_FD_EVENTS < k" "n \<ge> 0"
  shows "\<exists>s' ts'. loop_round cb k eintr n rfds now s = Inr (Some s') \<and> loop_inv s' ts' [] \<and>
    fired s' = fired s @ map (call_of s) (expired s now ts @ chosen rfds n s (watched s))"
  by (rule round_ok[OF assms])

theorem event_round_fires_witness:
  "\<exists>s'. loop_round (\<lambda>e s. Inr s) 12 False 1 [5] (Timeval 7 0) armed_loop = Inr (Some s') \<and> fired s' = [(7, -1, 9), (8, 5, 4)]"
  using event_round_fires[OF idle_callback armed_loop_inv, of 12 1 False "[5]" "Timeval 7 0"]
  by (simp add: armed_facts expired_def chosen_def MAX_FD_EVENTS_def timeval_less) blast

text \<open>
  C20. \<open>tgm_timer_add\<close> on the doubly linked list is insertion into a sorted list of events: the
  new event stands before the first one that is not earlier, carries the time now plus the
  delay, and the list stays sorted.
\<close>

theorem timer_add_sorted:
  assumes "loop_inv s ts ps" "length ts < n" "heap s ev = Some e" "nxt s ev = None" "ev \<notin> set (watched s)"
  shows "\<exists>s'. tgm_timer_add n now ev (Some d) s = Inr s' \<and> loop_inv s' (place (timeout_of s) (timeradd now d) ev ts) ps \<and>
    timeout_of s' ev = timeradd now d \<and> fired s' = fired s"
  using timer_inv[OF assms(1-3) unlinked[OF assms(1,4)] assms(5), of now d] by blast

theorem timer_add_sorted_witness:
  "\<exists>s'. tgm_timer_add 1 (Timeval 5 0) 3 (Some (Timeval 1 0)) watched_loop = Inr s' \<and> loop_inv s' [3] [] \<and> timeout_of s' 3 = Timeval 6 0"
  using timer_add_sorted[OF watched_loop_inv, of 1 3 "the (heap watched_loop 3)" "Timeval 5 0" "Timeval 1 0"]
  by (simp add: place_def timeradd_def) (simp add: loop_eval nxt_def watched_def)

text \<open>
  C22. The time \<open>select\<close> waits is none exactly when there is no timer; else it ends at the
  earliest timer's time, and is zero when that time has come.
\<close>

theorem event_wait_exact:
  assumes "loop_inv s ts ps" "normal_time now" "\<forall>a \<in> set ts. normal_time (timeout_of s a)"
  shows "calcNextTimeout now s = Inr (if ts = [] then None else
      Some (if timeout_of s (hd ts) > now then timersub (timeout_of s (hd ts)) now else Timeval 0 0)) \<and>
    (\<forall>a \<in> set ts. timeout_of s (hd ts) \<le> timeout_of s a \<and> timeradd now (timersub (timeout_of s a) now) = timeout_of s a)"
proof -
  have "rings_are s ts ps" "sorted (map (timeout_of s) ts)" using assms(1) by (simp_all add: loop_inv_def timers_sorted_def)
  then show ?thesis using next_timeout[of s ts ps now] timeradd_timersub[OF _ assms(2)] assms(3) by (cases ts) auto
qed

theorem event_wait_exact_witness:
  "calcNextTimeout (Timeval 5 400000) armed_loop = Inr (Some (Timeval 0 600000))"
  using event_wait_exact[OF armed_loop_inv, of "Timeval 5 400000"]
  by (simp add: armed_facts normal_time_def timeval_less timersub_def Let_def)

text \<open>A timer whose time is exactly now is not expired, although the wait for it is over.\<close>

lemma timer_at_now_waits:
  assumes "loop_inv s (a # ts) []" "timeout_of s a = now" "length (a # ts) < n"
  shows "calcNextTimeout now s = Inr (Some (Timeval 0 0)) \<and> (\<exists>s'. processTimeouts n now s = Inr s' \<and> loop_inv s' (a # ts) [])"
proof
  have r: "rings_are s (a # ts) []" "sorted (map (timeout_of s) (a # ts))" using assms(1) by (simp_all add: loop_inv_def timers_sorted_def)
  show "calcNextTimeout now s = Inr (Some (Timeval 0 0))" using next_timeout[OF r(1)] assms(2) by simp
  have "filter (\<lambda>b. timeout_of s b < now) (a # ts) = []" "filter (\<lambda>b. \<not> timeout_of s b < now) (a # ts) = a # ts"
    using r(2) assms(2) by (auto simp: filter_empty_conv filter_id_conv not_less)
  then show "\<exists>s'. processTimeouts n now s = Inr s' \<and> loop_inv s' (a # ts) []"
    using timeouts_inv[OF assms(1,3), of now] by (auto simp: expired_def)
qed

text \<open>
  C23. \<open>tgm_event_del\<close> of an event that is not in the table, as every timer and every event that
  was deleted before, returns with the lock held: the next operation, and the next round of the
  loop, blocks for ever.
\<close>

theorem event_del_keeps_lock:
  assumes "heap s ev = Some e" "ev_index e < 0 \<or> int MAX_FD_EVENTS \<le> ev_index e" "\<not> locked s" "n \<ge> 0"
  shows "\<exists>s'. tgm_event_del ev s = Inr s' \<and> loop_round cb k eintr n rfds now s' = Inl Blocked \<and>
    tgm_event_add ev' s' = Inl Blocked \<and> tgm_event_del ev' s' = Inl Blocked \<and> tgm_timer_add k now ev' d s' = Inl Blocked"
  using assms by (auto simp: tgm_event_del_def mutex_acquire_def load_def loop_round_def processTimeouts_def tgm_event_add_def tgm_timer_add_def)

theorem event_del_keeps_lock_witness:
  "\<exists>s'. tgm_event_del 3 armed_loop = Inr s' \<and> loop_round (\<lambda>e s. Inr s) 9 False 0 [] (Timeval 7 0) s' = Inl Blocked"
proof -
  have "heap armed_loop 3 = Some (the (heap armed_loop 3))" "ev_index (the (heap armed_loop 3)) < 0" "\<not> locked armed_loop"
    by (simp_all add: loop_eval)
  then show ?thesis using event_del_keeps_lock[of armed_loop 3 "the (heap armed_loop 3)" 0] by blast
qed

end
