(* ===== verification/Tgm_Parcel.thy ===== *)
theory Tgm_Parcel
  imports Tgm_Prelude
begin

text \<open>
  Marshalling in \<open>libtgm/tgm.cpp\<close>: the functions that read the arguments of a request from a
  parcel and those that write a response into one. The class \<open>Parcel\<close> and the string
  conversions are other libraries' code: their operations are the record \<open>ext\<close>, and what is
  used of them is stated in \<open>parcel_laws\<close>.
\<close>

section \<open>The libraries\<close>

text \<open>A byte is a number below 256 and a UTF-16 unit one below 65536; nothing here depends on it.\<close>

type_synonym byte = nat
type_synonym char16 = nat

text \<open>
  Besides the operations of a parcel: the size of a pointer, the bytes that \<open>alloca\<close> can
  take from the stack, and the string conversions, where \<open>None\<close> is NULL. A read that fails
  gives \<open>None\<close>.
\<close>

record 'p ext =
  sizeof_ptr :: nat
  stack_free :: nat
  parcel_new :: 'p
  setData :: "byte list \<Rightarrow> 'p"
  parcel_data :: "'p \<Rightarrow> byte list"
  readInt32 :: "'p \<Rightarrow> int option \<times> 'p"
  readString16Inplace :: "'p \<Rightarrow> char16 list option \<times> 'p"
  readInplace :: "int \<Rightarrow> 'p \<Rightarrow> byte list option \<times> 'p"
  writeInt32 :: "int \<Rightarrow> 'p \<Rightarrow> 'p"
  writeString16 :: "char16 list option \<Rightarrow> 'p \<Rightarrow> 'p"
  write_bytes :: "byte list \<Rightarrow> 'p \<Rightarrow> 'p"
  dataPosition :: "'p \<Rightarrow> nat"
  setDataPosition :: "nat \<Rightarrow> 'p \<Rightarrow> 'p"
  strdup8to16 :: "string option \<Rightarrow> char16 list option"
  strndup16to8 :: "char16 list option \<Rightarrow> string option"

section \<open>Data\<close>

record TGM_PDP_Context_Response =
  cid :: int
  active :: int
  pdp_type :: "string option"
  apn :: "string option"
  address :: "string option"

text \<open>What a \<open>void *\<close> argument points to; its length in bytes is a separate argument.\<close>

datatype c_data =
    Null | Ints "int list" | Chars string | Strings "string option list" | Contexts "TGM_PDP_Context_Response list" | Bytes "byte list"

text \<open>Element \<open>i\<close> of the array behind the pointer; beyond its end, or of another type, is undefined.\<close>

fun int_at :: "c_data \<Rightarrow> nat \<Rightarrow> int outcome" where
  "int_at (Ints xs) i = (if i < length xs then Inr (xs ! i) else Inl Undef)"
| "int_at _ i = Inl Undef"

fun string_at :: "c_data \<Rightarrow> nat \<Rightarrow> string option outcome" where
  "string_at (Strings xs) i = (if i < length xs then Inr (xs ! i) else Inl Undef)"
| "string_at _ i = Inl Undef"

fun context_at :: "c_data \<Rightarrow> nat \<Rightarrow> TGM_PDP_Context_Response outcome" where
  "context_at (Contexts xs) i = (if i < length xs then Inr (xs ! i) else Inl Undef)"
| "context_at _ i = Inl Undef"

definition TGM_ERRNO_INVALID_RESPONSE :: int where "TGM_ERRNO_INVALID_RESPONSE = -1"

section \<open>Responses\<close>

text \<open>Each gives its result, 0 or an error, and the parcel.\<close>

definition writeStringToParcel :: "'p ext \<Rightarrow> string option \<Rightarrow> 'p \<Rightarrow> 'p" where
  "writeStringToParcel X s p = writeString16 X (strdup8to16 X s) p"

text \<open>The loops: \<open>k\<close> elements from \<open>i\<close> on.\<close>

fun write_ints :: "'p ext \<Rightarrow> c_data \<Rightarrow> nat \<Rightarrow> nat \<Rightarrow> 'p \<Rightarrow> 'p outcome" where
  "write_ints X d i 0 p = Inr p"
| "write_ints X d i (Suc k) p = seqO (int_at d i) (\<lambda>v. write_ints X d (Suc i) k (writeInt32 X v p))"

fun write_strings :: "'p ext \<Rightarrow> c_data \<Rightarrow> nat \<Rightarrow> nat \<Rightarrow> 'p \<Rightarrow> 'p outcome" where
  "write_strings X d i 0 p = Inr p"
| "write_strings X d i (Suc k) p = seqO (string_at d i) (\<lambda>v. write_strings X d (Suc i) k (writeStringToParcel X v p))"

fun write_contexts :: "'p ext \<Rightarrow> c_data \<Rightarrow> nat \<Rightarrow> nat \<Rightarrow> 'p \<Rightarrow> 'p outcome" where
  "write_contexts X d i 0 p = Inr p"
| "write_contexts X d i (Suc k) p = seqO (context_at d i) (\<lambda>c.
     write_contexts X d (Suc i) k
       (writeStringToParcel X (address c) (writeStringToParcel X (apn c) (writeStringToParcel X (pdp_type c)
         (writeInt32 X (active c) (writeInt32 X (cid c) p))))))"

definition responseInts :: "'p ext \<Rightarrow> c_data \<Rightarrow> nat \<Rightarrow> 'p \<Rightarrow> (int \<times> 'p) outcome" where
  "responseInts X response responselen p =
     (if response = Null \<and> responselen \<noteq> 0 then Inr (TGM_ERRNO_INVALID_RESPONSE, p)
      else if responselen mod 4 \<noteq> 0 then Inr (TGM_ERRNO_INVALID_RESPONSE, p)
      else let numInts = responselen div sizeof_ptr X in
        seqO (write_ints X response 0 numInts (writeInt32 X (int numInts) p)) (\<lambda>p1. Inr (0, p1)))"

definition responseStrings :: "'p ext \<Rightarrow> c_data \<Rightarrow> nat \<Rightarrow> 'p \<Rightarrow> (int \<times> 'p) outcome" where
  "responseStrings X response responselen p =
     (if response = Null \<and> responselen \<noteq> 0 then Inr (TGM_ERRNO_INVALID_RESPONSE, p)
      else if responselen mod sizeof_ptr X \<noteq> 0 then Inr (TGM_ERRNO_INVALID_RESPONSE, p)
      else if response = Null then Inr (0, writeInt32 X 0 p)
      else let numStrings = responselen div sizeof_ptr X in
        seqO (write_strings X response 0 numStrings (writeInt32 X (int numStrings) p)) (\<lambda>p1. Inr (0, p1)))"

definition responseString :: "'p ext \<Rightarrow> c_data \<Rightarrow> nat \<Rightarrow> 'p \<Rightarrow> (int \<times> 'p) outcome" where
  "responseString X response responselen p = (case response of
     Null \<Rightarrow> Inr (0, writeStringToParcel X None p)
   | Chars s \<Rightarrow> Inr (0, writeStringToParcel X (Some s) p)
   | _ \<Rightarrow> Inl Undef)"

definition responseVoid :: "'p ext \<Rightarrow> c_data \<Rightarrow> nat \<Rightarrow> 'p \<Rightarrow> (int \<times> 'p) outcome" where
  "responseVoid X response responselen p = Inr (0, p)"

definition responseContexts :: "'p ext \<Rightarrow> c_data \<Rightarrow> nat \<Rightarrow> 'p \<Rightarrow> (int \<times> 'p) outcome" where
  "responseContexts X response responselen p =
     (let sz = 8 + 3 * sizeof_ptr X in
      if response = Null \<and> responselen \<noteq> 0 then Inr (TGM_ERRNO_INVALID_RESPONSE, p)
      else if responselen mod sz \<noteq> 0 then Inr (TGM_ERRNO_INVALID_RESPONSE, p)
      else let num = responselen div sz in
        seqO (write_contexts X response 0 num (writeInt32 X (int num) p)) (\<lambda>p1. Inr (0, p1)))"

definition responseRaw :: "'p ext \<Rightarrow> c_data \<Rightarrow> nat \<Rightarrow> 'p \<Rightarrow> (int \<times> 'p) outcome" where
  "responseRaw X response responselen p =
     (if response = Null \<and> responselen \<noteq> 0 then Inr (TGM_ERRNO_INVALID_RESPONSE, p)
      else case response of
          Null \<Rightarrow> Inr (0, writeInt32 X (-1) p)
        | Bytes bs \<Rightarrow> (if responselen \<le> length bs
            then Inr (0, write_bytes X (take responselen bs) (writeInt32 X (int responselen) p)) else Inl Undef)
        | _ \<Rightarrow> Inl Undef)"

definition responseDialDataNetwork :: "'p ext \<Rightarrow> c_data \<Rightarrow> nat \<Rightarrow> 'p \<Rightarrow> (int \<times> 'p) outcome" where
  "responseDialDataNetwork X response responselen p = Inr (0, p)"

definition responseDisconnectDataNetwork :: "'p ext \<Rightarrow> c_data \<Rightarrow> nat \<Rightarrow> 'p \<Rightarrow> (int \<times> 'p) outcome" where
  "responseDisconnectDataNetwork X response responselen p = Inr (0, p)"

section \<open>Requests\<close>

text \<open>
  Each hands the arguments it has read, with their length in bytes, to \<open>call\<close>, which is
  \<open>onRequest\<close> of the driver for the request; a block that is not well formed leaves the state
  as it is.
\<close>

definition strdupReadString :: "'p ext \<Rightarrow> 'p \<Rightarrow> string option \<times> 'p" where
  "strdupReadString X p = (case readString16Inplace X p of (s16, p1) \<Rightarrow> (strndup16to8 X s16, p1))"

definition dispatchVoid :: "'p ext \<Rightarrow> (c_data \<Rightarrow> nat \<Rightarrow> 's \<Rightarrow> 's outcome) \<Rightarrow> 'p \<Rightarrow> 's \<Rightarrow> 's outcome" where
  "dispatchVoid X call p s = call Null 0 s"

definition dispatchString :: "'p ext \<Rightarrow> (c_data \<Rightarrow> nat \<Rightarrow> 's \<Rightarrow> 's outcome) \<Rightarrow> 'p \<Rightarrow> 's \<Rightarrow> 's outcome" where
  "dispatchString X call p s = call (case fst (strdupReadString X p) of None \<Rightarrow> Null | Some str \<Rightarrow> Chars str) (sizeof_ptr X) s"

fun read_strings :: "'p ext \<Rightarrow> nat \<Rightarrow> 'p \<Rightarrow> string option list" where
  "read_strings X 0 p = []"
| "read_strings X (Suc k) p = (case strdupReadString X p of (str, p1) \<Rightarrow> str # read_strings X k p1)"

text \<open>An \<open>alloca\<close> of more bytes than the stack has, as for a negative number, is undefined.\<close>

definition alloca :: "'p ext \<Rightarrow> int \<Rightarrow> nat \<Rightarrow> nat outcome" where
  "alloca X count sz = (if count < 0 \<or> nat count * sz > stack_free X then Inl Undef else Inr (nat count * sz))"

definition dispatchStrings :: "'p ext \<Rightarrow> (c_data \<Rightarrow> nat \<Rightarrow> 's \<Rightarrow> 's outcome) \<Rightarrow> 'p \<Rightarrow> 's \<Rightarrow> 's outcome" where
  "dispatchStrings X call p s = (case readInt32 X p of
     (None, _) \<Rightarrow> Inr s
   | (Some countStrings, p1) \<Rightarrow>
       if countStrings = 0 then seqO (alloca X 1 (sizeof_ptr X)) (\<lambda>_. call (Strings []) 0 s)
       else if countStrings = -1 then call Null 0 s
       else seqO (alloca X countStrings (sizeof_ptr X)) (\<lambda>datalen. call (Strings (read_strings X (nat countStrings) p1)) datalen s))"

text \<open>\<open>None\<close> when a number cannot be read.\<close>

fun read_ints :: "'p ext \<Rightarrow> nat \<Rightarrow> 'p \<Rightarrow> int list option" where
  "read_ints X 0 p = Some []"
| "read_ints X (Suc k) p = (case readInt32 X p of
     (None, _) \<Rightarrow> None
   | (Some t, p1) \<Rightarrow> map_option (\<lambda>ts. t # ts) (read_ints X k p1))"

definition dispatchInts :: "'p ext \<Rightarrow> (c_data \<Rightarrow> nat \<Rightarrow> 's \<Rightarrow> 's outcome) \<Rightarrow> 'p \<Rightarrow> 's \<Rightarrow> 's outcome" where
  "dispatchInts X call p s = (case readInt32 X p of
     (None, _) \<Rightarrow> Inr s
   | (Some count, p1) \<Rightarrow>
       if count = 0 then Inr s
       else seqO (alloca X count 4) (\<lambda>datalen. case read_ints X (nat count) p1 of
           None \<Rightarrow> Inr s | Some ts \<Rightarrow> call (Ints ts) datalen s))"

definition dispatchRaw :: "'p ext \<Rightarrow> (c_data \<Rightarrow> nat \<Rightarrow> 's \<Rightarrow> 's outcome) \<Rightarrow> 'p \<Rightarrow> 's \<Rightarrow> 's outcome" where
  "dispatchRaw X call p s = (case readInt32 X p of
     (None, _) \<Rightarrow> Inr s
   | (Some len, p1) \<Rightarrow> let len' = (if len = -1 then 0 else len) in
       call (case fst (readInplace X len' p1) of None \<Rightarrow> Null | Some bs \<Rightarrow> Bytes bs)
         (nat (len' mod 2 ^ (8 * sizeof_ptr X))) s)"

section \<open>What is used of a parcel\<close>

datatype item = Int32 int | Str16 "char16 list option" | Raw "byte list"

text \<open>
  The documented behaviour of \<open>Parcel\<close>: \<open>written p xs\<close> says that the items \<open>xs\<close> were written
  into \<open>p\<close>, \<open>reads p xs\<close> that \<open>xs\<close> are still to be read from it. A number written at the
  position of an earlier one replaces it, and reading past the end fails.
\<close>

definition parcel_laws :: "'p ext \<Rightarrow> ('p \<Rightarrow> item list \<Rightarrow> bool) \<Rightarrow> ('p \<Rightarrow> item list \<Rightarrow> bool) \<Rightarrow> bool" where
  "parcel_laws X written reads \<longleftrightarrow>
     written (parcel_new X) [] \<and>
     (\<forall>p xs n. written p xs \<longrightarrow> written (writeInt32 X n p) (xs @ [Int32 n])) \<and>
     (\<forall>p xs s. written p xs \<longrightarrow> written (writeString16 X s p) (xs @ [Str16 s])) \<and>
     (\<forall>p xs bs. written p xs \<longrightarrow> written (write_bytes X bs p) (xs @ [Raw bs])) \<and>
     (\<forall>p xs n m. written p xs \<longrightarrow> written (writeInt32 X m (setDataPosition X (dataPosition X p) (writeInt32 X n p))) (xs @ [Int32 m])) \<and>
     (\<forall>p xs. written p xs \<longrightarrow> reads (setData X (parcel_data X p)) xs) \<and>
     (\<forall>p xs n. reads p (Int32 n # xs) \<longrightarrow> (\<exists>q. readInt32 X p = (Some n, q) \<and> reads q xs)) \<and>
     (\<forall>p xs s. reads p (Str16 s # xs) \<longrightarrow> (\<exists>q. readString16Inplace X p = (s, q) \<and> reads q xs)) \<and>
     (\<forall>p. reads p [] \<longrightarrow> fst (readInt32 X p) = None)"

text \<open>The strings that survive the conversion to UTF-16 and back.\<close>

definition converts :: "'p ext \<Rightarrow> string option \<Rightarrow> bool" where
  "converts X s \<longleftrightarrow> strndup16to8 X (strdup8to16 X s) = s"

lemma parcel_write:
  assumes "parcel_laws X written reads"
  shows "written (parcel_new X) []" "written p xs \<Longrightarrow> written (writeInt32 X n p) (xs @ [Int32 n])"
    "written p xs \<Longrightarrow> written (writeStringToParcel X str p) (xs @ [Str16 (strdup8to16 X str)])"
    "written p xs \<Longrightarrow> written (write_bytes X bs p) (xs @ [Raw bs])"
    "written p xs \<Longrightarrow> written (writeInt32 X m (setDataPosition X (dataPosition X p) (writeInt32 X n p))) (xs @ [Int32 m])"
    "written p xs \<Longrightarrow> reads (setData X (parcel_data X p)) xs"
  using assms by (simp_all add: parcel_laws_def writeStringToParcel_def)

lemma parcel_read:
  assumes "parcel_laws X written reads"
  shows "reads p (Int32 n # xs) \<Longrightarrow> \<exists>q. readInt32 X p = (Some n, q) \<and> reads q xs"
    "reads p (Str16 (strdup8to16 X str) # xs) \<Longrightarrow> converts X str \<Longrightarrow> \<exists>q. strdupReadString X p = (str, q) \<and> reads q xs"
    "reads p [] \<Longrightarrow> fst (readInt32 X p) = None"
proof -
  show "reads p (Int32 n # xs) \<Longrightarrow> \<exists>q. readInt32 X p = (Some n, q) \<and> reads q xs" "reads p [] \<Longrightarrow> fst (readInt32 X p) = None"
    using assms by (simp_all add: parcel_laws_def)
  assume "reads p (Str16 (strdup8to16 X str) # xs)" "converts X str"
  moreover have "\<forall>p xs s. reads p (Str16 s # xs) \<longrightarrow> (\<exists>q. readString16Inplace X p = (s, q) \<and> reads q xs)"
    using assms by (simp add: parcel_laws_def)
  ultimately obtain q where "readString16Inplace X p = (strdup8to16 X str, q)" "reads q xs" by blast
  then show "\<exists>q. strdupReadString X p = (str, q) \<and> reads q xs" using \<open>converts X str\<close> by (simp add: strdupReadString_def converts_def)
qed

section \<open>Writing a response\<close>

text \<open>The items of an array of strings and of an array of numbers.\<close>

definition string_items :: "'p ext \<Rightarrow> string option list \<Rightarrow> item list" where
  "string_items X ss = map (\<lambda>s. Str16 (strdup8to16 X s)) ss"

definition context_items :: "'p ext \<Rightarrow> TGM_PDP_Context_Response \<Rightarrow> item list" where
  "context_items X c = [Int32 (cid c), Int32 (active c)] @ string_items X [pdp_type c, apn c, address c]"

lemma write_ints_items:
  assumes "parcel_laws X written reads" "i + k \<le> length xs" "written p us"
  shows "\<exists>p'. write_ints X (Ints xs) i k p = Inr p' \<and> written p' (us @ map Int32 (take k (drop i xs)))"
  using assms(2,3)
proof (induction k arbitrary: i p us)
  case (Suc k)
  then obtain p' where "write_ints X (Ints xs) (Suc i) k (writeInt32 X (xs ! i) p) = Inr p'"
    "written p' ((us @ [Int32 (xs ! i)]) @ map Int32 (take k (drop (Suc i) xs)))"
    using Suc.IH[of "Suc i", OF _ parcel_write(2)[OF assms(1) Suc.prems(2)], of "xs ! i"] Suc.prems(1) by auto
  moreover have "drop i xs = xs ! i # drop (Suc i) xs" using Suc.prems(1) by (simp add: Cons_nth_drop_Suc)
  ultimately show ?case using Suc.prems(1) by simp
qed simp

lemma write_strings_items:
  assumes "parcel_laws X written reads" "i + k \<le> length xs" "written p us"
  shows "\<exists>p'. write_strings X (Strings xs) i k p = Inr p' \<and> written p' (us @ string_items X (take k (drop i xs)))"
  using assms(2,3)
proof (induction k arbitrary: i p us)
  case (Suc k)
  then obtain p' where "write_strings X (Strings xs) (Suc i) k (writeStringToParcel X (xs ! i) p) = Inr p'"
    "written p' ((us @ [Str16 (strdup8to16 X (xs ! i))]) @ string_items X (take k (drop (Suc i) xs)))"
    using Suc.IH[of "Suc i", OF _ parcel_write(3)[OF assms(1) Suc.prems(2)], of "xs ! i"] Suc.prems(1) by auto
  moreover have "drop i xs = xs ! i # drop (Suc i) xs" using Suc.prems(1) by (simp add: Cons_nth_drop_Suc)
  ultimately show ?case using Suc.prems(1) by (simp add: string_items_def)
qed (simp add: string_items_def)

lemma write_contexts_items:
  assumes "parcel_laws X written reads" "i + k \<le> length xs" "written p us"
  shows "\<exists>p'. write_contexts X (Contexts xs) i k p = Inr p' \<and> written p' (us @ concat (map (context_items X) (take k (drop i xs))))"
  using assms(2,3)
proof (induction k arbitrary: i p us)
  case (Suc k)
  define c where "c = xs ! i"
  define q where "q = writeStringToParcel X (address c) (writeStringToParcel X (apn c) (writeStringToParcel X (pdp_type c)
         (writeInt32 X (active c) (writeInt32 X (cid c) p))))"
  have "written q (us @ context_items X c)"
    using parcel_write(3)[OF assms(1) parcel_write(3)[OF assms(1) parcel_write(3)[OF assms(1)
        parcel_write(2)[OF assms(1) parcel_write(2)[OF assms(1) Suc.prems(2)]]]]]
    by (simp add: q_def context_items_def string_items_def)
  then obtain p' where "write_contexts X (Contexts xs) (Suc i) k q = Inr p'"
    "written p' ((us @ context_items X c) @ concat (map (context_items X) (take k (drop (Suc i) xs))))"
    using Suc.IH[of "Suc i" q "us @ context_items X c"] Suc.prems(1) by auto
  moreover have "drop i xs = c # drop (Suc i) xs" using Suc.prems(1) by (simp add: Cons_nth_drop_Suc c_def)
  ultimately show ?case using Suc.prems(1) by (simp add: q_def c_def)
qed simp

lemma responseInts_items:
  assumes "parcel_laws X written reads" "written p us" "numInts = 4 * length xs div sizeof_ptr X" "4 * length xs div sizeof_ptr X \<le> length xs"
  shows "\<exists>p'. responseInts X (Ints xs) (4 * length xs) p = Inr (0, p') \<and> written p' (us @ Int32 (int numInts) # map Int32 (take numInts xs))"
proof -
  obtain p' where "write_ints X (Ints xs) 0 numInts (writeInt32 X (int numInts) p) = Inr p'"
    "written p' ((us @ [Int32 (int numInts)]) @ map Int32 (take numInts (drop 0 xs)))"
    using write_ints_items[OF assms(1) _ parcel_write(2)[OF assms(1,2)], of 0 numInts xs "int numInts"] assms(3,4) by auto
  then show ?thesis using assms(3) by (simp add: responseInts_def Let_def)
qed

lemma responseStrings_items:
  assumes "parcel_laws X written reads" "written p us" "0 < sizeof_ptr X"
  shows "\<exists>p'. responseStrings X (Strings ss) (sizeof_ptr X * length ss) p = Inr (0, p') \<and> written p' (us @ Int32 (int (length ss)) # string_items X ss)"
proof -
  obtain p' where "write_strings X (Strings ss) 0 (length ss) (writeInt32 X (int (length ss)) p) = Inr p'"
    "written p' ((us @ [Int32 (int (length ss))]) @ string_items X (take (length ss) (drop 0 ss)))"
    using write_strings_items[OF assms(1) _ parcel_write(2)[OF assms(1,2)], of 0 "length ss" ss "int (length ss)"] by auto
  then show ?thesis using assms(3) by (simp add: responseStrings_def Let_def)
qed

lemma responseContexts_items:
  assumes "parcel_laws X written reads" "written p us"
  shows "\<exists>p'. responseContexts X (Contexts cs) ((8 + 3 * sizeof_ptr X) * length cs) p = Inr (0, p') \<and>
    written p' (us @ Int32 (int (length cs)) # concat (map (context_items X) cs))"
proof -
  obtain p' where "write_contexts X (Contexts cs) 0 (length cs) (writeInt32 X (int (length cs)) p) = Inr p'"
    "written p' ((us @ [Int32 (int (length cs))]) @ concat (map (context_items X) (take (length cs) (drop 0 cs))))"
    using write_contexts_items[OF assms(1) _ parcel_write(2)[OF assms(1,2)], of 0 "length cs" cs "int (length cs)"] by auto
  then show ?thesis by (simp add: responseContexts_def Let_def)
qed

section \<open>Reading a request\<close>

lemma read_strings_items:
  assumes "parcel_laws X written reads" "reads p (string_items X ss @ xs)" "\<forall>s \<in> set ss. converts X s"
  shows "read_strings X (length ss) p = ss"
  using assms(2,3)
proof (induction ss arbitrary: p)
  case (Cons a ss)
  then obtain q where "strdupReadString X p = (a, q)" "reads q (string_items X ss @ xs)"
    using parcel_read(2)[OF assms(1), of p a "string_items X ss @ xs"] by (auto simp: string_items_def)
  then show ?case using Cons by simp
qed simp

lemma read_ints_items:
  assumes "parcel_laws X written reads" "reads p (map Int32 ns @ xs)"
  shows "read_ints X (length ns) p = Some ns"
  using assms(2)
proof (induction ns arbitrary: p)
  case (Cons a ns)
  then obtain q where "readInt32 X p = (Some a, q)" "reads q (map Int32 ns @ xs)"
    using parcel_read(1)[OF assms(1), of p a "map Int32 ns @ xs"] by auto
  then show ?case using Cons by simp
qed simp

lemma dispatchStrings_items:
  assumes "parcel_laws X written reads" "reads p (Int32 (int (length ss)) # string_items X ss @ xs)" "ss \<noteq> []" "\<forall>s \<in> set ss. converts X s"
    "length ss * sizeof_ptr X \<le> stack_free X"
  shows "dispatchStrings X call p s = call (Strings ss) (length ss * sizeof_ptr X) s"
proof -
  obtain q where "readInt32 X p = (Some (int (length ss)), q)" "reads q (string_items X ss @ xs)"
    using parcel_read(1)[OF assms(1,2)] by blast
  then show ?thesis using read_strings_items[OF assms(1) _ assms(4)] assms(3,5) by (simp add: dispatchStrings_def alloca_def)
qed

lemma dispatchInts_items:
  assumes "parcel_laws X written reads" "reads p (Int32 (int (length ns)) # map Int32 ns @ xs)" "ns \<noteq> []" "length ns * 4 \<le> stack_free X"
  shows "dispatchInts X call p s = call (Ints ns) (length ns * 4) s"
proof -
  obtain q where "readInt32 X p = (Some (int (length ns)), q)" "reads q (map Int32 ns @ xs)"
    using parcel_read(1)[OF assms(1,2)] by blast
  then show ?thesis using read_ints_items[OF assms(1)] assms(3,4) by (simp add: dispatchInts_def alloca_def)
qed

section \<open>An instance of the libraries\<close>

text \<open>A parcel of whole items, with a plain encoding, for the concrete inputs below.\<close>

fun encode :: "item list \<Rightarrow> byte list" where
  "encode [] = []"
| "encode (Int32 n # xs) = [0, if n < 0 then 1 else 0, nat \<bar>n\<bar>] @ encode xs"
| "encode (Str16 None # xs) = 1 # encode xs"
| "encode (Str16 (Some s) # xs) = [2, length s] @ s @ encode xs"
| "encode (Raw bs # xs) = [3, length bs] @ bs @ encode xs"

function decode :: "byte list \<Rightarrow> item list" where
  "decode bs = (case bs of
     [] \<Rightarrow> []
   | c # r \<Rightarrow> if c = 0 then (case r of sg # n # r' \<Rightarrow> Int32 (if sg = 1 then - int n else int n) # decode r' | _ \<Rightarrow> [])
       else if c = 1 then Str16 None # decode r
       else (case r of n # r' \<Rightarrow> (if c = 2 then Str16 (Some (take n r')) else Raw (take n r')) # decode (drop n r') | _ \<Rightarrow> []))"
  by pat_completeness auto
termination by (relation "measure length") auto

declare decode.simps [simp del]

lemma decode_encode: "decode (encode xs) = xs"
  by (induction xs rule: encode.induct) (subst decode.simps, simp)+

definition put_item :: "item \<Rightarrow> item list \<times> nat \<Rightarrow> item list \<times> nat" where
  "put_item x p = (case p of (xs, k) \<Rightarrow> (take k xs @ x # drop (Suc k) xs, Suc k))"

definition item_ext :: "nat \<Rightarrow> (item list \<times> nat) ext" where
  "item_ext n = \<lparr>sizeof_ptr = n, stack_free = 1000, parcel_new = ([], 0), setData = (\<lambda>bs. (decode bs, 0)), parcel_data = (\<lambda>(xs, k). encode xs),
     readInt32 = (\<lambda>(xs, k). case drop k xs of Int32 n # _ \<Rightarrow> (Some n, xs, Suc k) | _ \<Rightarrow> (None, xs, k)),
     readString16Inplace = (\<lambda>(xs, k). case drop k xs of Str16 s # _ \<Rightarrow> (s, xs, Suc k) | _ \<Rightarrow> (None, xs, k)),
     readInplace = (\<lambda>n (xs, k). case drop k xs of Raw bs # _ \<Rightarrow> (Some bs, xs, Suc k) | _ \<Rightarrow> (None, xs, k)),
     writeInt32 = (\<lambda>n. put_item (Int32 n)), writeString16 = (\<lambda>s. put_item (Str16 s)), write_bytes = (\<lambda>bs. put_item (Raw bs)),
     dataPosition = snd, setDataPosition = (\<lambda>k (xs, _). (xs, k)),
     strdup8to16 = map_option (map of_char), strndup16to8 = map_option (map char_of)\<rparr>"

lemma item_ext_laws: "parcel_laws (item_ext n) (\<lambda>p xs. p = (xs, length xs)) (\<lambda>p xs. \<exists>ys. p = (ys @ xs, length ys))"
  unfolding parcel_laws_def by (auto simp: item_ext_def put_item_def decode_encode)

lemma item_ext_converts: "converts (item_ext n) s"
  by (cases s) (auto simp: converts_def item_ext_def o_def)

section \<open>Properties\<close>

text \<open>
  C33. An array of strings, NULL entries included, that \<open>responseStrings\<close> wrote into a parcel is
  what \<open>dispatchStrings\<close> reads from its bytes and hands to the driver, with its length, as long
  as the strings survive the conversion and the array fits on the stack.
\<close>

theorem strings_roundtrip:
  assumes "parcel_laws X written reads" "0 < sizeof_ptr X" "ss \<noteq> []" "\<forall>s \<in> set ss. converts X s" "length ss * sizeof_ptr X \<le> stack_free X"
  shows "\<exists>p'. responseStrings X (Strings ss) (sizeof_ptr X * length ss) (parcel_new X) = Inr (0, p') \<and>
    dispatchStrings X call (setData X (parcel_data X p')) s = call (Strings ss) (length ss * sizeof_ptr X) s"
proof -
  obtain p' where p': "responseStrings X (Strings ss) (sizeof_ptr X * length ss) (parcel_new X) = Inr (0, p')"
    "written p' ([] @ Int32 (int (length ss)) # string_items X ss)"
    using responseStrings_items[OF assms(1) parcel_write(1)[OF assms(1)] assms(2)] by blast
  then have "reads (setData X (parcel_data X p')) (Int32 (int (length ss)) # string_items X ss @ [])"
    using parcel_write(6)[OF assms(1) p'(2)] by simp
  then have "dispatchStrings X call (setData X (parcel_data X p')) s = call (Strings ss) (length ss * sizeof_ptr X) s"
    by (rule dispatchStrings_items[OF assms(1) _ assms(3-5)])
  with p'(1) show ?thesis by blast
qed

theorem strings_roundtrip_witness:
  "\<exists>p'. responseStrings (item_ext 4) (Strings [Some ''46692'', None]) 8 ([], 0) = Inr (0, p') \<and>
    dispatchStrings (item_ext 4) (\<lambda>d n s. Inr (d, n)) (setData (item_ext 4) (parcel_data (item_ext 4) p')) (Null, 0) = Inr (Strings [Some ''46692'', None], 8)"
  using strings_roundtrip[OF item_ext_laws, of 4 "[Some ''46692'', None]" "\<lambda>d n s. Inr (d, n)" "(Null, 0)"] item_ext_converts[of 4]
  by (simp add: item_ext_def)

text \<open>
  C34. \<open>responseInts\<close> divides the length by the size of a pointer: where a pointer has four bytes
  all the numbers are sent and \<open>dispatchInts\<close> reads them back, where it has eight only the
  first half of them is sent.
\<close>

theorem ints_on_the_wire:
  assumes "parcel_laws X written reads" "sizeof_ptr X = 4 \<or> sizeof_ptr X = 8" "2 \<le> length ns" "length ns * 4 \<le> stack_free X"
  shows "\<exists>p'. responseInts X (Ints ns) (4 * length ns) (parcel_new X) = Inr (0, p') \<and>
    dispatchInts X call (setData X (parcel_data X p')) s =
      (let sent = take (4 * length ns div sizeof_ptr X) ns in call (Ints sent) (4 * length sent) s)"
proof -
  define m where "m = 4 * length ns div sizeof_ptr X"
  have m: "0 < m" "m \<le> length ns" using assms(2,3) by (auto simp: m_def)
  obtain p' where p': "responseInts X (Ints ns) (4 * length ns) (parcel_new X) = Inr (0, p')"
    "written p' ([] @ Int32 (int m) # map Int32 (take m ns))"
    using responseInts_items[OF assms(1) parcel_write(1)[OF assms(1)] m_def m(2)[unfolded m_def]] by blast
  have len: "length (take m ns) = m" using m(2) by simp
  have "reads (setData X (parcel_data X p')) (Int32 (int (length (take m ns))) # map Int32 (take m ns) @ [])"
    using parcel_write(6)[OF assms(1) p'(2)] unfolding len by simp
  moreover have "take m ns \<noteq> []" "length (take m ns) * 4 \<le> stack_free X" using m assms(4) by auto
  ultimately have "dispatchInts X call (setData X (parcel_data X p')) s = call (Ints (take m ns)) (length (take m ns) * 4) s"
    by (rule dispatchInts_items[OF assms(1)])
  then show ?thesis using p'(1) by (auto simp: m_def Let_def mult.commute)
qed

theorem ints_on_the_wire_witness:
  "\<exists>p'. responseInts (item_ext 8) (Ints [17, 99]) 8 ([], 0) = Inr (0, p') \<and>
    dispatchInts (item_ext 8) (\<lambda>d n s. Inr (d, n)) (setData (item_ext 8) (parcel_data (item_ext 8) p')) (Null, 0) = Inr (Ints [17], 4)"
  using ints_on_the_wire[OF item_ext_laws, of 8 "[17, 99]" "\<lambda>d n s. Inr (d, n)" "(Null, 0)"]
  by (simp add: item_ext_def)

text \<open>
  The number of strings comes from the client and is not checked: a negative one other than
  -1, or one too large for the stack, makes \<open>dispatchStrings\<close> write outside its frame.
\<close>

theorem hostile_count_overruns:
  assumes "parcel_laws X written reads" "reads p (Int32 n # xs)" "n < -1 \<or> 0 < n \<and> stack_free X < nat n * sizeof_ptr X"
  shows "dispatchStrings X call p s = Inl Undef"
proof -
  obtain q where "readInt32 X p = (Some n, q)" using parcel_read(1)[OF assms(1,2)] by blast
  then show ?thesis using assms(3) by (auto simp: dispatchStrings_def alloca_def)
qed

theorem hostile_count_overruns_witness:
  "dispatchStrings (item_ext 4) (\<lambda>d n s. Inr s) ([Int32 (-2)], 0) () = Inl Undef"
  by (rule hostile_count_overruns[OF item_ext_laws, of _ "-2" "[]"]) auto

end
