(* ===== verification/Tgm_Core.thy ===== *)
theory Tgm_Core
  imports Tgm_Loop Tgm_Parcel Tgm_Interface
begin

text \<open>
  The daemon \<open>libtgm/tgm.cpp\<close>, translated: the command table, the pending requests, the
  responses and unsolicited responses it writes to its client, the timers of the wake lock, and
  the callbacks it installs in the event loop of \<open>Tgm_Event\<close>, whose state it extends.

  What comes from outside is a script in the state (the results of \<open>write\<close>, \<open>accept\<close> and
  \<open>record_stream_get_next\<close>); the driver is the record \<open>radio\<close>, and the libraries are \<open>ext\<close>.
\<close>

section \<open>Tables\<close>

datatype dispatch_fn = NoDispatch | DispatchVoid | DispatchString | DispatchStrings | DispatchInts | DispatchRaw

datatype response_fn =
    NoResponse | ResponseVoid | ResponseInts | ResponseString | ResponseStrings | ResponseContexts | ResponseRaw
  | ResponseDialDataNetwork | ResponseDisconnectDataNetwork

record CommandInfo =
  ci_requestNumber :: int
  ci_dispatchFunction :: dispatch_fn
  ci_responseFunction :: response_fn

definition command :: "int \<times> dispatch_fn \<times> response_fn \<Rightarrow> CommandInfo" where
  "command c = (case c of (n, d, r) \<Rightarrow> \<lparr>ci_requestNumber = n, ci_dispatchFunction = d, ci_responseFunction = r\<rparr>)"

definition s_commands :: "CommandInfo list" where
  "s_commands = map command
    [(0, NoDispatch, NoResponse),
     (TGM_REQUEST_SET_PDP_CONTEXT, DispatchStrings, ResponseVoid),
     (TGM_REQUEST_SET_PIN_CODE, DispatchStrings, ResponseVoid),
     (TGM_REQUEST_DIAL_DATA_NETWORK, DispatchVoid, ResponseDialDataNetwork),
     (TGM_REQUEST_DISCONNECT_DATA_NETWORK, DispatchVoid, ResponseDisconnectDataNetwork),
     (TGM_REQUEST_QUERY_SIGNAL_STRENGTH, DispatchVoid, ResponseInts),
     (TGM_REQUEST_QUERY_IMEI, DispatchVoid, ResponseString),
     (TGM_REQUEST_QUERY_MANUFACTURER, DispatchVoid, ResponseString),
     (TGM_REQUEST_QUERY_OPERATOR, DispatchVoid, ResponseStrings),
     (TGM_REQUEST_QUERY_PDP_CONTEXT_LIST, DispatchVoid, ResponseContexts),
     (TGM_REQUEST_QUERY_MODEM_MODEL, DispatchVoid, ResponseString),
     (TGM_REQUEST_QUERY_SIM_STATUS, DispatchVoid, ResponseInts),
     (TGM_REQUEST_QUERY_IMSI, DispatchVoid, ResponseString),
     (TGM_REQUEST_QUERY_NUMBER, DispatchVoid, ResponseString),
     (TGM_REQUEST_QUERY_STATE, DispatchVoid, ResponseInts),
     (TGM_REQUEST_RESET_STACK, DispatchVoid, ResponseVoid),
     (TGM_REQUEST_SET_PPPD_AUTH, DispatchStrings, ResponseVoid)]"

datatype WakeType = DONT_WAKE | WAKE_PARTIAL

definition s_unsolResponses :: "(int \<times> response_fn \<times> WakeType) list" where
  "s_unsolResponses =
    [(TGM_UNSOLICITED_DEVICE_DETECTED, ResponseVoid, WAKE_PARTIAL),
     (TGM_UNSOLICITED_DEVICE_REMOVED, ResponseVoid, WAKE_PARTIAL),
     (TGM_UNSOLICITED_SIGNAL_STRENGTH, ResponseInts, WAKE_PARTIAL),
     (TGM_UNSOLICITED_RADIO_STATE_CHANGED, ResponseVoid, WAKE_PARTIAL),
     (TGM_UNSOLICITED_PPPD_CONNECTED, ResponseVoid, WAKE_PARTIAL),
     (TGM_UNSOLICITED_PPPD_DISCONNECTED, ResponseVoid, WAKE_PARTIAL),
     (TGM_UNSOLICITED_PPPD_FAILED, ResponseVoid, WAKE_PARTIAL)]"

text \<open>A call through the function pointers of the tables; NULL is undefined.\<close>

fun responseFunction :: "response_fn \<Rightarrow> 'p ext \<Rightarrow> c_data \<Rightarrow> nat \<Rightarrow> 'p \<Rightarrow> (int \<times> 'p) outcome" where
  "responseFunction NoResponse X d n p = Inl Undef"
| "responseFunction ResponseVoid X d n p = responseVoid X d n p"
| "responseFunction ResponseInts X d n p = responseInts X d n p"
| "responseFunction ResponseString X d n p = responseString X d n p"
| "responseFunction ResponseStrings X d n p = responseStrings X d n p"
| "responseFunction ResponseContexts X d n p = responseContexts X d n p"
| "responseFunction ResponseRaw X d n p = responseRaw X d n p"
| "responseFunction ResponseDialDataNetwork X d n p = responseDialDataNetwork X d n p"
| "responseFunction ResponseDisconnectDataNetwork X d n p = responseDisconnectDataNetwork X d n p"

fun dispatchFunction :: "dispatch_fn \<Rightarrow> 'p ext \<Rightarrow> (c_data \<Rightarrow> nat \<Rightarrow> 's \<Rightarrow> 's outcome) \<Rightarrow> 'p \<Rightarrow> 's \<Rightarrow> 's outcome" where
  "dispatchFunction NoDispatch X call p s = Inl Undef"
| "dispatchFunction DispatchVoid X call p s = dispatchVoid X call p s"
| "dispatchFunction DispatchString X call p s = dispatchString X call p s"
| "dispatchFunction DispatchStrings X call p s = dispatchStrings X call p s"
| "dispatchFunction DispatchInts X call p s = dispatchInts X call p s"
| "dispatchFunction DispatchRaw X call p s = dispatchRaw X call p s"

section \<open>State\<close>

record RequestInfo =
  ri_token :: int
  pCI :: CommandInfo
  cancelled :: bool
  local :: bool

text \<open>A \<open>TGM_TimedCallback\<close>: the daemon's own, or a pointer of the driver.\<close>

datatype timed_fn = WakeTimeout | DriverCallback nat

record UserCallbackInfo =
  p_callback :: timed_fn
  userParam :: nat

datatype write_result = Wrote nat | WriteEINTR | WriteEAGAIN | WriteError

datatype stream_result = Record "byte list" | StreamAgain | StreamEnd | StreamError

text \<open>
  A \<open>UserCallbackInfo\<close> has the address of the event it contains. \<open>brk\<close> is the next address
  \<open>malloc\<close> gives; \<open>wake_bytes\<close> are the bytes in the wakeup pipe, \<open>sent\<close> the bytes written to
  the present command socket, \<open>wake_log\<close> the calls that acquire (true) and release the wake lock,
  and \<open>driver\<close> is the driver's own state.
\<close>

record 'm core = loop +
  s_started :: bool
  s_registerCalled :: bool
  infos :: "addr \<Rightarrow> RequestInfo option"
  s_pendingRequests :: "addr list"
  user_callbacks :: "addr \<Rightarrow> UserCallbackInfo option"
  s_last_wake_timeout_info :: "addr option"
  brk :: addr
  s_fdListen :: int
  s_fdCommand :: int
  s_fdWakeupRead :: int
  wake_bytes :: nat
  s_writeMutex :: bool
  writes :: "write_result list"
  accepts :: "int list"
  stream :: "stream_result list"
  sent :: "byte list"
  wake_log :: "bool list"
  props :: "(string \<times> string) list"
  driver :: 'm

text \<open>The driver, with the functions behind its timed callbacks.\<close>

record 'm radio =
  rf_version :: int
  onRequest_of :: "int \<Rightarrow> c_data \<Rightarrow> nat \<Rightarrow> addr \<Rightarrow> 'm core \<Rightarrow> 'm core outcome"
  onStateRequest_of :: "'m core \<Rightarrow> int"
  getVersion_of :: "string option"
  timed_of :: "nat \<Rightarrow> nat \<Rightarrow> 'm core \<Rightarrow> 'm core outcome"

text \<open>The addresses of the static events, and the numbers of the callbacks.\<close>

definition s_listen_event :: addr where "s_listen_event = 2"
definition s_commands_event :: addr where "s_commands_event = 3"
definition s_wakeupfd_event :: addr where "s_wakeupfd_event = 4"

definition FN_listenCallback :: nat where "FN_listenCallback = 1"
definition FN_processCommandsCallback :: nat where "FN_processCommandsCallback = 2"
definition FN_processWakeupCallback :: nat where "FN_processWakeupCallback = 3"
definition FN_userTimerCallback :: nat where "FN_userTimerCallback = 4"

definition MAX_COMMAND_BYTES :: nat where "MAX_COMMAND_BYTES = 8 * 1024"
definition RESPONSE_SOLICITED :: int where "RESPONSE_SOLICITED = 0"
definition RESPONSE_UNSOLICITED :: int where "RESPONSE_UNSOLICITED = 1"
definition TIMEVAL_WAKE_TIMEOUT :: timeval where "TIMEVAL_WAKE_TIMEOUT = Timeval 1 0"

section \<open>Writing to the client\<close>

text \<open>Gives the bytes written and the rest of the script; an error closes the socket and exits.\<close>

fun blockingWrite :: "byte list \<Rightarrow> write_result list \<Rightarrow> (byte list \<times> write_result list) outcome" where
  "blockingWrite [] ws = Inr ([], ws)"
| "blockingWrite buf [] = Inl Blocked"
| "blockingWrite buf (WriteEINTR # ws) = blockingWrite buf ws"
| "blockingWrite buf (Wrote n # ws) =
     seqO (blockingWrite (drop n buf) ws) (\<lambda>(out, ws'). Inr (take n buf @ out, ws'))"
| "blockingWrite buf (WriteEAGAIN # ws) = Inl Exited"
| "blockingWrite buf (WriteError # ws) = Inl Exited"

definition htonl :: "nat \<Rightarrow> byte list" where
  "htonl n = [n div 2 ^ 24 mod 256, n div 2 ^ 16 mod 256, n div 2 ^ 8 mod 256, n mod 256]"

definition write_fd :: "byte list \<Rightarrow> 'm core \<Rightarrow> 'm core outcome" where
  "write_fd buf s = seqO (blockingWrite buf (writes s)) (\<lambda>(out, ws). Inr (s\<lparr>sent := sent s @ out, writes := ws\<rparr>))"

definition sendResponseRaw :: "byte list \<Rightarrow> 'm core \<Rightarrow> (int \<times> 'm core) outcome" where
  "sendResponseRaw buf s =
     (if s_fdCommand s < 0 then Inr (-1, s)
      else if length buf > MAX_COMMAND_BYTES then Inr (-1, s)
      else if s_writeMutex s then Inl Blocked
      else seqO (write_fd (htonl (length buf)) (s\<lparr>s_writeMutex := True\<rparr>)) (\<lambda>s1.
           seqO (write_fd buf s1) (\<lambda>s2. Inr (0, s2\<lparr>s_writeMutex := False\<rparr>))))"

definition sendResponse :: "'p ext \<Rightarrow> 'p \<Rightarrow> 'm core \<Rightarrow> (int \<times> 'm core) outcome" where
  "sendResponse X p s = sendResponseRaw (parcel_data X p) s"

section \<open>Requests\<close>

definition info_at :: "addr \<Rightarrow> 'm core \<Rightarrow> RequestInfo outcome" where
  "info_at a s = (case infos s a of None \<Rightarrow> Inl Undef | Some i \<Rightarrow> Inr i)"

text \<open>\<open>None\<close> is NULL. The loop takes the first link that is the token out of the list.\<close>

fun dequeue :: "addr \<Rightarrow> addr list \<Rightarrow> (addr list) option" where
  "dequeue t [] = None"
| "dequeue t (a # as) = (if t = a then Some as else map_option (\<lambda>as'. a # as') (dequeue t as))"

definition checkAndDequeueRequestInfo :: "addr option \<Rightarrow> 'm core \<Rightarrow> bool \<times> 'm core" where
  "checkAndDequeueRequestInfo t s = (case t of None \<Rightarrow> (False, s)
     | Some a \<Rightarrow> (case dequeue a (s_pendingRequests s) of None \<Rightarrow> (False, s) | Some as \<Rightarrow> (True, s\<lparr>s_pendingRequests := as\<rparr>)))"

text \<open>The response to a request, with the error code that the response function may put in.\<close>

definition solicited_parcel :: "'p ext \<Rightarrow> RequestInfo \<Rightarrow> int \<Rightarrow> c_data \<Rightarrow> nat \<Rightarrow> 'p outcome" where
  "solicited_parcel X info e response responselen =
     (let p1 = writeInt32 X (ri_token info) (writeInt32 X RESPONSE_SOLICITED (parcel_new X));
          errorOffset = dataPosition X p1;
          p2 = writeInt32 X e p1
      in if e = 0 then
           seqO (responseFunction (ci_responseFunction (pCI info)) X response responselen p2) (\<lambda>(ret, p3).
             Inr (if ret \<noteq> 0 then writeInt32 X ret (setDataPosition X errorOffset p3) else p3))
         else Inr p2)"

definition TGM_onRequestComplete_lib :: "'p ext \<Rightarrow> addr option \<Rightarrow> int \<Rightarrow> c_data \<Rightarrow> nat \<Rightarrow> 'm core \<Rightarrow> 'm core outcome" where
  "TGM_onRequestComplete_lib X t e response responselen s =
     (case checkAndDequeueRequestInfo t s of (found, s1) \<Rightarrow>
        if \<not> found then Inr s1
        else let a = the t; freed = (\<lambda>s. s\<lparr>infos := (infos s)(a := None)\<rparr>) in
          seqO (info_at a s1) (\<lambda>info.
            if local info then Inr (freed s1)
            else if cancelled info then Inr (freed s1)
            else seqO (solicited_parcel X info e response responselen) (\<lambda>p.
                 seqO (sendResponse X p s1) (\<lambda>(_, s2). Inr (freed s2)))))"

definition processCommandBuffer :: "'p ext \<Rightarrow> 'm radio \<Rightarrow> byte list \<Rightarrow> 'm core \<Rightarrow> 'm core outcome" where
  "processCommandBuffer X R buffer s =
     (case readInt32 X (setData X buffer) of (request', p1) \<Rightarrow>
      case readInt32 X p1 of (token', p2) \<Rightarrow>
      (case token' of None \<Rightarrow> Inr s
       | Some token \<Rightarrow> (case request' of None \<Rightarrow> Inl Undef
         | Some request \<Rightarrow>
             if request < 1 \<or> request \<ge> int (length s_commands) then Inr s
             else let a = brk s; ci = s_commands ! nat request;
                      s1 = s\<lparr>brk := brk s + 1, infos := (infos s)(a \<mapsto> \<lparr>ri_token = token, pCI = ci, cancelled = False, local = False\<rparr>),
                             s_pendingRequests := a # s_pendingRequests s\<rparr>
                  in dispatchFunction (ci_dispatchFunction ci) X
                       (\<lambda>d n s. if s_registerCalled s then onRequest_of R (ci_requestNumber ci) d n a s else Inl Undef) p2 s1)))"

text \<open>Every pending request is marked, so that its response is not sent.\<close>

fun mark_cancelled :: "addr list \<Rightarrow> 'm core \<Rightarrow> 'm core outcome" where
  "mark_cancelled [] s = Inr s"
| "mark_cancelled (a # as) s = seqO (info_at a s) (\<lambda>info. mark_cancelled as (s\<lparr>infos := (infos s)(a \<mapsto> info\<lparr>cancelled := True\<rparr>)\<rparr>))"

definition onCommandsSocketClosed :: "'m core \<Rightarrow> 'm core outcome" where
  "onCommandsSocketClosed s = mark_cancelled (s_pendingRequests s) s"

section \<open>Timers\<close>

text \<open>\<open>on_loop\<close> says whether the caller is the event loop's own thread.\<close>

definition triggerEvLoop :: "bool \<Rightarrow> 'm core \<Rightarrow> 'm core" where
  "triggerEvLoop on_loop s = (if on_loop then s else s\<lparr>wake_bytes := wake_bytes s + 1\<rparr>)"

definition tgmEventAddWakeup :: "bool \<Rightarrow> addr \<Rightarrow> 'm core \<Rightarrow> 'm core outcome" where
  "tgmEventAddWakeup on_loop ev s = seqO (tgm_event_add ev s) (\<lambda>s1. Inr (triggerEvLoop on_loop s1))"

text \<open>Every list of timers is shorter than \<open>brk\<close>, which therefore bounds the walk.\<close>

definition internalRequestTimedCallback ::
  "bool \<Rightarrow> timeval \<Rightarrow> timed_fn \<Rightarrow> nat \<Rightarrow> timeval option \<Rightarrow> 'm core \<Rightarrow> (addr \<times> 'm core) outcome" where
  "internalRequestTimedCallback on_loop now callback param relativeTime s =
     (let a = brk s;
          s1 = s\<lparr>brk := brk s + 1, user_callbacks := (user_callbacks s)(a \<mapsto> \<lparr>p_callback = callback, userParam = param\<rparr>)\<rparr>;
          myRelativeTime = (case relativeTime of None \<Rightarrow> Timeval 0 0 | Some t \<Rightarrow> t);
          s2 = tgm_event_set a (-1) False FN_userTimerCallback a s1
      in seqO (tgm_timer_add (brk s1) now a (Some myRelativeTime) s2) (\<lambda>s3. Inr (a, triggerEvLoop on_loop s3)))"

definition TGM_requestTimedCallback_lib :: "bool \<Rightarrow> timeval \<Rightarrow> nat \<Rightarrow> nat \<Rightarrow> timeval option \<Rightarrow> 'm core \<Rightarrow> 'm core outcome" where
  "TGM_requestTimedCallback_lib on_loop now callback param relativeTime s =
     seqO (internalRequestTimedCallback on_loop now (DriverCallback callback) param relativeTime s) (\<lambda>(_, s1). Inr s1)"

definition grabPartialWakeLock :: "'m core \<Rightarrow> 'm core" where
  "grabPartialWakeLock s = s\<lparr>wake_log := wake_log s @ [True]\<rparr>"

definition releaseWakeLock :: "'m core \<Rightarrow> 'm core" where
  "releaseWakeLock s = s\<lparr>wake_log := wake_log s @ [False]\<rparr>"

text \<open>\<open>info->userParam = (void *)1\<close>.\<close>

definition cancel_wake :: "addr \<Rightarrow> 'm core \<Rightarrow> 'm core outcome" where
  "cancel_wake a s = (case user_callbacks s a of None \<Rightarrow> Inl Undef
     | Some u \<Rightarrow> Inr (s\<lparr>user_callbacks := (user_callbacks s)(a \<mapsto> u\<lparr>userParam := 1\<rparr>)\<rparr>))"

section \<open>Unsolicited responses\<close>

definition TGM_onUnsolicitedResponse_lib :: "'p ext \<Rightarrow> 'm radio \<Rightarrow> bool \<Rightarrow> timeval \<Rightarrow> int \<Rightarrow> c_data \<Rightarrow> nat \<Rightarrow> 'm core \<Rightarrow> 'm core outcome" where
  "TGM_onUnsolicitedResponse_lib X R on_loop now unsolResponse response datalen s =
     (if \<not> s_registerCalled s then Inr s
      else let unsolResponseIndex = unsolResponse - TGM_UNSOLICITED_BASE in
      if unsolResponseIndex < 0 \<or> unsolResponseIndex \<ge> int (length s_unsolResponses) then Inr s
      else (case s_unsolResponses ! nat unsolResponseIndex of (_, fn, wakeType) \<Rightarrow>
        let shouldScheduleTimeout = (wakeType = WAKE_PARTIAL);
            s1 = (if shouldScheduleTimeout then grabPartialWakeLock s else s);
            p1 = writeInt32 X unsolResponse (writeInt32 X RESPONSE_UNSOLICITED (parcel_new X))
        in seqO (responseFunction fn X response datalen p1) (\<lambda>(ret, p2).
          if ret \<noteq> 0 then Inr (if shouldScheduleTimeout then releaseWakeLock s1 else s1)
          else let p3 = (if unsolResponse = TGM_UNSOLICITED_RADIO_STATE_CHANGED then writeInt32 X (onStateRequest_of R s1) p2 else p2)
          in seqO (sendResponse X p3 s1) (\<lambda>(_, s2).
            if shouldScheduleTimeout then
              seqO (case s_last_wake_timeout_info s2 of None \<Rightarrow> Inr s2 | Some a \<Rightarrow> cancel_wake a s2) (\<lambda>s3.
              seqO (internalRequestTimedCallback on_loop now WakeTimeout 0 (Some TIMEVAL_WAKE_TIMEOUT) s3) (\<lambda>(a, s4).
                Inr (s4\<lparr>s_last_wake_timeout_info := Some a\<rparr>)))
            else Inr s2))))"

section \<open>Callbacks of the event loop\<close>

text \<open>The loop that empties the pipe, 16 bytes at a time.\<close>

function drain :: "nat \<Rightarrow> nat" where
  "drain n = (if n > 0 then drain (n - min 16 n) else n)"
  by auto
termination by (relation "measure id") auto

definition processWakeupCallback :: "'m core \<Rightarrow> 'm core outcome" where
  "processWakeupCallback s = Inr (s\<lparr>wake_bytes := drain (wake_bytes s)\<rparr>)"

definition onNewCommandConnect :: "'p ext \<Rightarrow> 'm radio \<Rightarrow> timeval \<Rightarrow> 'm core \<Rightarrow> 'm core outcome" where
  "onNewCommandConnect X R now s =
     seqO (TGM_onUnsolicitedResponse_lib X R True now TGM_UNSOLICITED_RADIO_STATE_CHANGED Null 0 s) (\<lambda>s1.
       Inr (s1\<lparr>props := props s1 @ [(''gsm.version.tgm-impl'', case getVersion_of R of Some v \<Rightarrow> v | None \<Rightarrow> ''unavailable'')]\<rparr>))"

text \<open>A failed \<open>assert\<close> counts as undefined behaviour, so that it has to be excluded.\<close>

definition listenCallback :: "'p ext \<Rightarrow> 'm radio \<Rightarrow> timeval \<Rightarrow> int \<Rightarrow> 'm core \<Rightarrow> 'm core outcome" where
  "listenCallback X R now fd s =
     (if \<not> s_fdCommand s < 0 \<or> fd \<noteq> s_fdListen s then Inl Undef
      else (case accepts s of [] \<Rightarrow> Inl Blocked
      | r # rs \<Rightarrow>
          let s1 = s\<lparr>accepts := rs, s_fdCommand := r\<rparr> in
          if r < 0 then tgmEventAddWakeup True s_listen_event s1
          else seqO (tgmEventAddWakeup True s_commands_event
                      (tgm_event_set s_commands_event r True FN_processCommandsCallback 0 (s1\<lparr>sent := []\<rparr>)))
                 (onNewCommandConnect X R now)))"

text \<open>
  The loop over the records of the command socket. The result says whether the socket is to be
  closed: at the end of the stream, or on an error other than \<open>EAGAIN\<close> and \<open>EINTR\<close>.
\<close>

fun process_records :: "'p ext \<Rightarrow> 'm radio \<Rightarrow> stream_result list \<Rightarrow> 'm core \<Rightarrow> (bool \<times> 'm core) outcome" where
  "process_records X R [] s = Inl Blocked"
| "process_records X R (Record r # rs) s = seqO (processCommandBuffer X R r (s\<lparr>stream := rs\<rparr>)) (process_records X R rs)"
| "process_records X R (StreamAgain # rs) s = Inr (False, s\<lparr>stream := rs\<rparr>)"
| "process_records X R (StreamEnd # rs) s = Inr (True, s\<lparr>stream := rs\<rparr>)"
| "process_records X R (StreamError # rs) s = Inr (True, s\<lparr>stream := rs\<rparr>)"

definition close_commands :: "'m core \<Rightarrow> 'm core outcome" where
  "close_commands s =
     seqO (tgm_event_del s_commands_event (s\<lparr>s_fdCommand := -1\<rparr>)) (\<lambda>s1.
     seqO (tgmEventAddWakeup True s_listen_event s1) onCommandsSocketClosed)"

definition processCommandsCallback :: "'p ext \<Rightarrow> 'm radio \<Rightarrow> int \<Rightarrow> 'm core \<Rightarrow> 'm core outcome" where
  "processCommandsCallback X R fd s =
     (if fd \<noteq> s_fdCommand s then Inl Undef
      else seqO (process_records X R (stream s) s) (\<lambda>(eof, s1). if eof then close_commands s1 else Inr s1))"

definition wakeTimeoutCallback :: "nat \<Rightarrow> 'm core \<Rightarrow> 'm core" where
  "wakeTimeoutCallback param s = (if param = 0 then releaseWakeLock s else s)"

text \<open>The memory of the \<open>UserCallbackInfo\<close>, and of the event in it, is freed at the end.\<close>

definition userTimerCallback :: "'m radio \<Rightarrow> addr \<Rightarrow> 'm core \<Rightarrow> 'm core outcome" where
  "userTimerCallback R a s = (case user_callbacks s a of None \<Rightarrow> Inl Undef
     | Some u \<Rightarrow>
         seqO (case p_callback u of WakeTimeout \<Rightarrow> Inr (wakeTimeoutCallback (userParam u) s)
               | DriverCallback f \<Rightarrow> timed_of R f (userParam u) s) (\<lambda>s1.
           let s2 = (if s_last_wake_timeout_info s1 = Some a then s1\<lparr>s_last_wake_timeout_info := None\<rparr> else s1)
           in Inr (s2\<lparr>user_callbacks := (user_callbacks s2)(a := None), heap := (heap s2)(a := None)\<rparr>)))"

text \<open>The function pointer of an event.\<close>

definition core_callback :: "'p ext \<Rightarrow> 'm radio \<Rightarrow> timeval \<Rightarrow> tgm_event \<Rightarrow> 'm core \<Rightarrow> 'm core outcome" where
  "core_callback X R now e s =
     (if ev_func e = FN_listenCallback then listenCallback X R now (ev_fd e) s
      else if ev_func e = FN_processCommandsCallback then processCommandsCallback X R (ev_fd e) s
      else if ev_func e = FN_processWakeupCallback then processWakeupCallback s
      else if ev_func e = FN_userTimerCallback then userTimerCallback R (ev_param e) s
      else Inl Undef)"

section \<open>Start\<close>

text \<open>The event loop's thread up to the signal the caller of \<open>TGM_startEventLoop\<close> waits for.\<close>

definition eventLoop_ready :: "'m core \<Rightarrow> 'm core" where
  "eventLoop_ready s = (tgm_event_init s)\<lparr>s_started := True\<rparr>"

text \<open>
  What the thread does between the signal and \<open>tgm_event_loop\<close>, while the caller already goes on;
  \<open>fds\<close> is the result of \<open>pipe\<close>. When \<open>pipe\<close> fails the thread ends.
\<close>

definition eventLoop :: "int option \<Rightarrow> 'm core \<Rightarrow> 'm core outcome" where
  "eventLoop fds s = (case fds of None \<Rightarrow> Inr s
     | Some fd \<Rightarrow> tgmEventAddWakeup True s_wakeupfd_event
         (tgm_event_set s_wakeupfd_event fd True FN_processWakeupCallback 0 (s\<lparr>s_fdWakeupRead := fd, wake_bytes := 0\<rparr>)))"

text \<open>
  The caller waits until the new thread has set \<open>s_started\<close>; when no thread was created it waits
  for ever. The rest of the thread, \<open>eventLoop\<close>, is a step of its own.
\<close>

definition TGM_startEventLoop :: "bool \<Rightarrow> 'm core \<Rightarrow> 'm core outcome" where
  "TGM_startEventLoop created s =
     (if created then Inr (eventLoop_ready (s\<lparr>s_started := False\<rparr>)) else Inl Blocked)"

text \<open>
  The asserted order of the tables. The source names a macro \<open>TGM_UNSOL_RESPONSE_BASE\<close> that no
  header defines; what is meant is \<open>TGM_UNSOLICITED_BASE\<close>.
\<close>

definition self_check :: bool where
  "self_check \<longleftrightarrow> (\<forall>i < length s_commands. int i = ci_requestNumber (s_commands ! i)) \<and>
     (\<forall>i < length s_unsolResponses. int i + TGM_UNSOLICITED_BASE = fst (s_unsolResponses ! i))"

text \<open>\<open>sock\<close> is the listening socket that \<open>socket_local_server\<close> gives.\<close>

definition TGM_register_lib :: "'m radio option \<Rightarrow> bool \<Rightarrow> int \<Rightarrow> 'm core \<Rightarrow> 'm core outcome" where
  "TGM_register_lib callbacks created sock s =
     (case callbacks of None \<Rightarrow> Inr s
      | Some R \<Rightarrow>
          if rf_version R \<noteq> TGM_VERSION \<and> rf_version R \<noteq> 1 then Inr s
          else if s_registerCalled s then Inr s
          else if \<not> self_check then Inl Undef
          else seqO (if \<not> s_started s then TGM_startEventLoop created (s\<lparr>s_registerCalled := True\<rparr>) else Inr (s\<lparr>s_registerCalled := True\<rparr>)) (\<lambda>s1.
            if sock < 0 then Inl Exited
            else tgmEventAddWakeup False s_listen_event
              (tgm_event_set s_listen_event sock False FN_listenCallback 0 (s1\<lparr>s_fdListen := sock\<rparr>))))"

text \<open>The self-check succeeds.\<close>

lemma self_check_ok: "self_check"
  unfolding self_check_def
  by (simp add: s_commands_def s_unsolResponses_def command_def All_less_Suc
      TGM_REQUEST_SET_PDP_CONTEXT_def TGM_REQUEST_SET_PIN_CODE_def TGM_REQUEST_DIAL_DATA_NETWORK_def TGM_REQUEST_DISCONNECT_DATA_NETWORK_def
      TGM_REQUEST_QUERY_SIGNAL_STRENGTH_def TGM_REQUEST_QUERY_IMEI_def TGM_REQUEST_QUERY_MANUFACTURER_def TGM_REQUEST_QUERY_OPERATOR_def
      TGM_REQUEST_QUERY_PDP_CONTEXT_LIST_def TGM_REQUEST_QUERY_MODEM_MODEL_def TGM_REQUEST_QUERY_SIM_STATUS_def TGM_REQUEST_QUERY_IMSI_def
      TGM_REQUEST_QUERY_NUMBER_def TGM_REQUEST_QUERY_STATE_def TGM_REQUEST_RESET_STACK_def TGM_REQUEST_SET_PPPD_AUTH_def
      TGM_UNSOLICITED_BASE_def TGM_UNSOLICITED_DEVICE_DETECTED_def TGM_UNSOLICITED_DEVICE_REMOVED_def TGM_UNSOLICITED_SIGNAL_STRENGTH_def
      TGM_UNSOLICITED_RADIO_STATE_CHANGED_def TGM_UNSOLICITED_PPPD_CONNECTED_def TGM_UNSOLICITED_PPPD_DISCONNECTED_def TGM_UNSOLICITED_PPPD_FAILED_def)

end
