(* ===== verification/Tgm_Responses.thy ===== *)
theory Tgm_Responses
  imports Tgm_Core
begin

text \<open>
  What the client of the daemon of \<open>Tgm_Core\<close> gets to read: the packets on the command socket,
  whole and in order whatever \<open>write\<close> does, one response to each request and none to a request
  of an earlier connection.
\<close>

section \<open>Writing\<close>

text \<open>How many of the script's writes make progress, and that none of them fails.\<close>

fun progress :: "write_result list \<Rightarrow> nat" where
  "progress [] = 0"
| "progress (Wrote n # ws) = (if n > 0 then 1 else 0) + progress ws"
| "progress (_ # ws) = progress ws"

definition no_failure :: "write_result list \<Rightarrow> bool" where
  "no_failure ws \<longleftrightarrow> WriteEAGAIN \<notin> set ws \<and> WriteError \<notin> set ws"

lemma blockingWrite_all:
  "allO (\<lambda>(out, ws'). out = buf) (blockingWrite buf ws)"
proof (induction buf ws rule: blockingWrite.induct)
  case (4 b buf n ws)
  have "allO (\<lambda>(out, ws'). out = b # buf) (seqO (blockingWrite (drop n (b # buf)) ws) (\<lambda>(out, ws'). Inr (take n (b # buf) @ out, ws')))"
    by (rule allO_seqO[OF 4]) (auto simp del: take_Cons' drop_Cons')
  then show ?case by simp
qed auto

lemma blockingWrite_total:
  "no_failure ws \<Longrightarrow> length buf \<le> progress ws \<Longrightarrow>
    \<exists>ws'. blockingWrite buf ws = Inr (buf, ws') \<and> no_failure ws' \<and> progress ws \<le> progress ws' + length buf"
proof (induction buf ws rule: blockingWrite.induct)
  case (4 b buf n ws)
  have len: "length (drop n (b # buf)) + (if n > 0 then 1 else 0) \<le> length (b # buf)" by (cases n) auto
  then obtain ws' where ws': "blockingWrite (drop n (b # buf)) ws = Inr (drop n (b # buf), ws')" "no_failure ws'"
    "progress ws \<le> progress ws' + length (drop n (b # buf))"
    using 4 by (auto simp: no_failure_def simp del: drop_Cons')
  have "progress (Wrote n # ws) \<le> progress ws' + length (b # buf)"
    using ws'(3) len by (simp del: drop_Cons' length_drop)
  then show ?case using ws'(1,2) by (simp del: take_Cons' drop_Cons')
qed (auto simp: no_failure_def)

lemma write_fd_effect:
  "allO (\<lambda>s'. \<exists>ws. s' = s\<lparr>sent := sent s @ buf, writes := ws\<rparr>) (write_fd buf s)"
  unfolding write_fd_def by (rule allO_seqO[OF blockingWrite_all]) auto

lemma unlocked_same: "\<not> s_writeMutex s \<Longrightarrow> s\<lparr>sent := x, writes := y, s_writeMutex := False\<rparr> = s\<lparr>sent := x, writes := y\<rparr>"
  by (rule core.equality) simp_all

text \<open>A packet on the wire: its length and its bytes.\<close>

definition frame :: "byte list \<Rightarrow> byte list" where
  "frame buf = htonl (length buf) @ buf"

text \<open>Whether a packet is sent at all.\<close>

definition sendable :: "byte list \<Rightarrow> 'm core \<Rightarrow> bool" where
  "sendable buf s \<longleftrightarrow> 0 \<le> s_fdCommand s \<and> length buf \<le> MAX_COMMAND_BYTES"

lemma send_effect:
  assumes "\<not> s_writeMutex s"
  shows "allO (\<lambda>(r, s'). \<exists>ws. s' = s\<lparr>sent := sent s @ (if sendable buf s then frame buf else []), writes := ws\<rparr> \<and> r = (if sendable buf s then 0 else -1))
    (sendResponseRaw buf s)"
proof (cases "sendable buf s")
  case True
  have "allO (\<lambda>(r, s'). \<exists>ws. s' = s\<lparr>sent := sent s @ frame buf, writes := ws\<rparr> \<and> r = 0)
    (seqO (write_fd (htonl (length buf)) (s\<lparr>s_writeMutex := True\<rparr>)) (\<lambda>s1.
      seqO (write_fd buf s1) (\<lambda>s2. Inr (0, s2\<lparr>s_writeMutex := False\<rparr>))))"
    by (rule allO_seqO[OF write_fd_effect], rule allO_seqO[OF write_fd_effect]) (use assms in \<open>auto simp: frame_def unlocked_same\<close>)
  then show ?thesis using True assms by (simp add: sendResponseRaw_def sendable_def)
next
  case False
  then have "sendResponseRaw buf s = Inr (-1, s\<lparr>sent := sent s @ [], writes := writes s\<rparr>)" by (auto simp: sendResponseRaw_def sendable_def)
  moreover have "\<exists>ws. s\<lparr>sent := sent s @ [], writes := writes s\<rparr> = s\<lparr>sent := sent s @ [], writes := ws\<rparr>" by blast
  ultimately show ?thesis using False by simp
qed

lemma write_fd_total:
  assumes "no_failure (writes s)" "length buf \<le> progress (writes s)"
  shows "\<exists>ws. write_fd buf s = Inr (s\<lparr>sent := sent s @ buf, writes := ws\<rparr>) \<and> no_failure ws \<and> progress (writes s) \<le> progress ws + length buf"
  using blockingWrite_total[OF assms] by (auto simp: write_fd_def)

lemma send_total:
  assumes "\<not> s_writeMutex s" "sendable buf s" "no_failure (writes s)" "length (frame buf) \<le> progress (writes s)"
  shows "\<exists>ws. sendResponseRaw buf s = Inr (0, s\<lparr>sent := sent s @ frame buf, writes := ws\<rparr>) \<and> no_failure ws \<and>
    progress (writes s) \<le> progress ws + length (frame buf)"
proof -
  define s0 where "s0 = s\<lparr>s_writeMutex := True\<rparr>"
  obtain ws1 where 1: "write_fd (htonl (length buf)) s0 = Inr (s0\<lparr>sent := sent s0 @ htonl (length buf), writes := ws1\<rparr>)"
    "no_failure ws1" "progress (writes s) \<le> progress ws1 + length (htonl (length buf))"
    using write_fd_total[of s0 "htonl (length buf)"] assms(3,4) by (auto simp: s0_def frame_def)
  define s1 where "s1 = s0\<lparr>sent := sent s0 @ htonl (length buf), writes := ws1\<rparr>"
  obtain ws2 where 2: "write_fd buf s1 = Inr (s1\<lparr>sent := sent s1 @ buf, writes := ws2\<rparr>)" "no_failure ws2" "progress ws1 \<le> progress ws2 + length buf"
    using write_fd_total[of s1 buf] assms(4) 1(2,3) by (auto simp: s1_def frame_def)
  have "sendResponseRaw buf s = Inr (0, s\<lparr>sent := sent s @ frame buf, writes := ws2\<rparr>)"
    using assms(1,2) 1(1) 2(1) by (auto simp: unlocked_same sendResponseRaw_def sendable_def s0_def s1_def frame_def)
  then show ?thesis using 1(3) 2(2,3) by (auto simp: frame_def)
qed

section \<open>Packets\<close>

text \<open>The reader of the packets: the length in four bytes, most significant first, and the bytes.\<close>

function packets :: "byte list \<Rightarrow> byte list list" where
  "packets bs = (case bs of
     a # b # c # d # r \<Rightarrow>
       let n = ((a * 256 + b) * 256 + c) * 256 + d in if n \<le> length r then take n r # packets (drop n r) else []
   | _ \<Rightarrow> [])"
  by pat_completeness auto
termination by (relation "measure length") auto

declare packets.simps [simp del]

lemma htonl_value: "n < 2 ^ 32 \<Longrightarrow> htonl n = [a, b, c, d] \<Longrightarrow> ((a * 256 + b) * 256 + c) * 256 + d = n"
proof -
  assume n: "n < 2 ^ 32" and h: "htonl n = [a, b, c, d]"
  have "a = n div 256 div 256 div 256" "b = n div 256 div 256 mod 256" "c = n div 256 mod 256" "d = n mod 256"
    using h n by (auto simp: htonl_def div_mult2_eq[symmetric])
  then show ?thesis by (metis div_mult_mod_eq)
qed

lemma packets_frame: "length buf \<le> MAX_COMMAND_BYTES \<Longrightarrow> packets (frame buf @ r) = buf # packets r"
proof -
  assume "length buf \<le> MAX_COMMAND_BYTES"
  then have n: "length buf < 2 ^ 32" by (simp add: MAX_COMMAND_BYTES_def)
  obtain a b c d where h: "htonl (length buf) = [a, b, c, d]" by (simp add: htonl_def)
  have "16777216 * a + 65536 * b + c * 256 + d = length buf" using htonl_value[OF n h] by simp
  then show ?thesis by (subst packets.simps) (simp add: frame_def h Let_def)
qed

fun send_all :: "byte list list \<Rightarrow> 'm core \<Rightarrow> 'm core outcome" where
  "send_all [] s = Inr s"
| "send_all (buf # bufs) s = seqO (sendResponseRaw buf s) (\<lambda>(_, s1). send_all bufs s1)"

lemma send_all_total:
  assumes "\<not> s_writeMutex s" "0 \<le> s_fdCommand s" "\<forall>buf \<in> set bufs. length buf \<le> MAX_COMMAND_BYTES" "no_failure (writes s)"
    "length (concat (map frame bufs)) \<le> progress (writes s)"
  shows "\<exists>ws. send_all bufs s = Inr (s\<lparr>sent := sent s @ concat (map frame bufs), writes := ws\<rparr>)"
  using assms
proof (induction bufs arbitrary: s)
  case Nil
  show ?case by (auto intro: exI[of _ "writes s"])
next
  case (Cons buf bufs)
  obtain ws where ws: "sendResponseRaw buf s = Inr (0, s\<lparr>sent := sent s @ frame buf, writes := ws\<rparr>)" "no_failure ws"
    "progress (writes s) \<le> progress ws + length (frame buf)"
    using send_total[of s buf] Cons.prems by (auto simp: sendable_def)
  then show ?case using Cons.IH[of "s\<lparr>sent := sent s @ frame buf, writes := ws\<rparr>"] Cons.prems by auto
qed

lemma packets_frames: "\<forall>buf \<in> set bufs. length buf \<le> MAX_COMMAND_BYTES \<Longrightarrow> packets (concat (map frame bufs)) = bufs"
proof (induction bufs)
  case Nil
  show ?case by (simp add: packets.simps)
qed (simp add: packets_frame)

section \<open>Responses\<close>

text \<open>The items a response function puts behind the header, for data of its type, and the size of the data.\<close>

fun response_items :: "'p ext \<Rightarrow> response_fn \<Rightarrow> c_data \<Rightarrow> item list option" where
  "response_items X ResponseVoid d = Some []"
| "response_items X ResponseDialDataNetwork d = Some []"
| "response_items X ResponseDisconnectDataNetwork d = Some []"
| "response_items X ResponseInts (Ints ns) = Some (Int32 (int (length ns)) # map Int32 ns)"
| "response_items X ResponseString Null = Some (string_items X [None])"
| "response_items X ResponseString (Chars c) = Some (string_items X [Some c])"
| "response_items X ResponseStrings Null = Some [Int32 0]"
| "response_items X ResponseStrings (Strings ss) = Some (Int32 (int (length ss)) # string_items X ss)"
| "response_items X ResponseContexts (Contexts cs) = Some (Int32 (int (length cs)) # concat (map (context_items X) cs))"
| "response_items X _ _ = None"

fun data_length :: "'p ext \<Rightarrow> c_data \<Rightarrow> nat" where
  "data_length X Null = 0"
| "data_length X (Ints ns) = 4 * length ns"
| "data_length X (Chars c) = sizeof_ptr X"
| "data_length X (Strings ss) = sizeof_ptr X * length ss"
| "data_length X (Contexts cs) = (8 + 3 * sizeof_ptr X) * length cs"
| "data_length X (Bytes bs) = length bs"

lemma response_written:
  assumes "parcel_laws X written reads" "sizeof_ptr X = 4" "written p us" "response_items X fn d = Some xs"
  shows "\<exists>p'. responseFunction fn X d (data_length X d) p = Inr (0, p') \<and> written p' (us @ xs)"
  using assms(4)
proof (cases "(X, fn, d)" rule: response_items.cases)
  case (4 X' ns)
  then show ?thesis using responseInts_items[OF assms(1,3), of "length ns" ns] assms(2,4) by simp
next
  case (8 X' ss)
  then show ?thesis using responseStrings_items[OF assms(1,3), of ss] assms(2,4) by simp
next
  case (9 X' cs)
  then show ?thesis using responseContexts_items[OF assms(1,3), of cs] assms(4) by simp
qed (use assms parcel_write(2,3)[OF assms(1,3)] in \<open>auto simp: responseVoid_def responseDialDataNetwork_def responseDisconnectDataNetwork_def
    responseString_def responseStrings_def string_items_def\<close>)

lemma solicited_written:
  assumes "parcel_laws X written reads" "sizeof_ptr X = 4" "response_items X (ci_responseFunction (pCI info)) d = Some xs"
  shows "\<exists>p. solicited_parcel X info e d (data_length X d) = Inr p \<and>
    written p ([Int32 RESPONSE_SOLICITED, Int32 (ri_token info), Int32 e] @ (if e = 0 then xs else []))"
proof -
  define p2 where "p2 = writeInt32 X e (writeInt32 X (ri_token info) (writeInt32 X RESPONSE_SOLICITED (parcel_new X)))"
  have p2: "written p2 [Int32 RESPONSE_SOLICITED, Int32 (ri_token info), Int32 e]"
    using parcel_write(2)[OF assms(1) parcel_write(2)[OF assms(1) parcel_write(2)[OF assms(1) parcel_write(1)[OF assms(1)]]]]
    by (simp add: p2_def)
  show ?thesis
  proof (cases "e = 0")
    case True
    then show ?thesis using response_written[OF assms(1,2) p2 assms(3)] by (auto simp: solicited_parcel_def Let_def p2_def)
  next
    case False
    then show ?thesis using p2 by (auto simp: solicited_parcel_def Let_def p2_def)
  qed
qed

lemma dequeue_spec: "dequeue t as = (if t \<in> set as then Some (remove1 t as) else None)"
  by (induction as) auto

lemma dequeue_none: "t \<notin> set (s_pendingRequests s) \<Longrightarrow> checkAndDequeueRequestInfo (Some t) s = (False, s)"
  by (simp add: checkAndDequeueRequestInfo_def dequeue_spec)

lemma dequeue_some: "t \<in> set (s_pendingRequests s) \<Longrightarrow>
    checkAndDequeueRequestInfo (Some t) s = (True, s\<lparr>s_pendingRequests := remove1 t (s_pendingRequests s)\<rparr>)"
  by (simp add: checkAndDequeueRequestInfo_def dequeue_spec)

lemma not_pending_ignored: "t \<notin> set (s_pendingRequests s) \<Longrightarrow> TGM_onRequestComplete_lib X (Some t) e d n s = Inr s"
  by (simp add: TGM_onRequestComplete_lib_def dequeue_none)

lemma cancelled_freed:
  assumes "t \<in> set (s_pendingRequests s)" "infos s t = Some info" "cancelled info \<or> local info"
  shows "TGM_onRequestComplete_lib X (Some t) e d n s =
    Inr (s\<lparr>s_pendingRequests := remove1 t (s_pendingRequests s), infos := (infos s)(t := None)\<rparr>)"
  using assms by (auto simp: TGM_onRequestComplete_lib_def dequeue_some info_at_def Let_def)

lemma completed:
  assumes "t \<in> set (s_pendingRequests s)" "infos s t = Some info" "\<not> cancelled info" "\<not> local info"
    "solicited_parcel X info e d n = Inr p" "\<not> s_writeMutex s"
  shows "allO (\<lambda>s'. \<exists>ws. s' = s\<lparr>s_pendingRequests := remove1 t (s_pendingRequests s),
      sent := sent s @ (if sendable (parcel_data X p) s then frame (parcel_data X p) else []), writes := ws, infos := (infos s)(t := None)\<rparr>)
    (TGM_onRequestComplete_lib X (Some t) e d n s)"
proof -
  define s1 where "s1 = s\<lparr>s_pendingRequests := remove1 t (s_pendingRequests s)\<rparr>"
  have "TGM_onRequestComplete_lib X (Some t) e d n s =
      seqO (sendResponse X p s1) (\<lambda>(_, s2). Inr (s2\<lparr>infos := (infos s2)(t := None)\<rparr>))"
    using assms(1-5) by (simp add: TGM_onRequestComplete_lib_def dequeue_some info_at_def Let_def s1_def)
  moreover have "sendable (parcel_data X p) s1 = sendable (parcel_data X p) s" by (simp add: sendable_def s1_def)
  ultimately show ?thesis using send_effect[of s1 "parcel_data X p"] assms(6)
    by (cases "sendResponseRaw (parcel_data X p) s1") (auto simp: sendResponse_def s1_def split: if_splits)
qed

section \<open>Closing the connection\<close>

lemma mark_effect:
  "\<forall>a \<in> set as. infos s a \<noteq> None \<Longrightarrow>
    mark_cancelled as s = Inr (s\<lparr>infos := (\<lambda>a. if a \<in> set as then map_option (\<lambda>i. i\<lparr>cancelled := True\<rparr>) (infos s a) else infos s a)\<rparr>)"
proof (induction as arbitrary: s)
  case (Cons a as)
  then obtain i where i: "infos s a = Some i" by auto
  define s1 where "s1 = s\<lparr>infos := (infos s)(a \<mapsto> i\<lparr>cancelled := True\<rparr>)\<rparr>"
  have "\<forall>a \<in> set as. infos s1 a \<noteq> None" using Cons.prems by (simp add: s1_def)
  note IH = Cons.IH[OF this]
  have "mark_cancelled (a # as) s = mark_cancelled as s1" using i by (simp add: info_at_def s1_def)
  also have "\<dots> = Inr (s\<lparr>infos := (\<lambda>b. if b \<in> set (a # as) then map_option (\<lambda>i. i\<lparr>cancelled := True\<rparr>) (infos s b) else infos s b)\<rparr>)"
    unfolding IH using i by (auto simp: s1_def fun_eq_iff intro!: core.equality split: option.split)
  finally show ?case .
qed simp

section \<open>Properties\<close>

text \<open>
  C30. The packets the daemon sends arrive whole and in their order, however \<open>write\<close> splits and
  interrupts them: a client that reads lengths and bytes gets exactly the packets, and as
  many writes that make progress as there are bytes are enough.
\<close>

theorem packets_delivered:
  assumes "\<not> s_writeMutex s" "0 \<le> s_fdCommand s" "\<forall>buf \<in> set bufs. length buf \<le> MAX_COMMAND_BYTES" "no_failure (writes s)"
    "length (concat (map frame bufs)) \<le> progress (writes s)" "sent s = []"
  shows "\<exists>s'. send_all bufs s = Inr s' \<and> packets (sent s') = bufs"
  using send_all_total[OF assms(1-5)] packets_frames[OF assms(3)] assms(6) by fastforce

text \<open>A daemon with a client and one pending request, whose next writes are partial.\<close>

definition demo_core :: "unit core" where
  "demo_core = \<lparr>heap = Map.empty, readFds = [], nfds = 0, watch_table = [], locked = False, fired = [],
     s_started = True, s_registerCalled = True,
     infos = [7 \<mapsto> \<lparr>ri_token = 42, pCI = s_commands ! 5, cancelled = False, local = False\<rparr>], s_pendingRequests = [7],
     user_callbacks = Map.empty, s_last_wake_timeout_info = None, brk = 8, s_fdListen = 3, s_fdCommand = 6, s_fdWakeupRead = 4,
     wake_bytes = 0, s_writeMutex = False, writes = [Wrote 3, WriteEINTR, Wrote 1, Wrote 1, Wrote 2, Wrote 1, Wrote 1, Wrote 1],
     accepts = [], stream = [], sent = [], wake_log = [], props = [], driver = ()\<rparr>"

theorem packets_delivered_witness: "\<exists>s'. send_all [[1, 2]] demo_core = Inr s' \<and> packets (sent s') = [[1, 2]]"
  by (rule packets_delivered) (simp_all add: demo_core_def no_failure_def MAX_COMMAND_BYTES_def frame_def htonl_def)

text \<open>
  The command socket is made non-blocking, but \<open>blockingWrite\<close> takes \<open>EAGAIN\<close> for a failure: a
  client that is slow to read, so that a packet does not fit the socket's buffer, makes the
  daemon exit.
\<close>

theorem slow_client_ends_daemon:
  assumes "\<not> s_writeMutex s" "sendable buf s" "writes s = Wrote 4 # map Wrote ns @ WriteEAGAIN # ws" "sum_list ns < length buf"
  shows "sendResponseRaw buf s = Inl Exited"
proof -
  have "blockingWrite buf (map Wrote ns @ WriteEAGAIN # ws) = Inl Exited" if "sum_list ns < length buf" for buf ns
    using that
  proof (induction ns arbitrary: buf)
    case Nil
    then show ?case by (cases buf) auto
  next
    case (Cons n ns)
    then show ?case using Cons.IH[of "drop n buf"] by (cases buf) (auto simp del: drop_Cons')
  qed
  then show ?thesis using assms by (simp add: sendResponseRaw_def sendable_def write_fd_def htonl_def)
qed

theorem slow_client_ends_daemon_witness: "sendResponseRaw [1, 2] (demo_core\<lparr>writes := [Wrote 4, Wrote 1, WriteEAGAIN]\<rparr>) = Inl Exited"
  by (rule slow_client_ends_daemon[of _ _ "[1]" "[]"]) (simp_all add: demo_core_def sendable_def MAX_COMMAND_BYTES_def)



text \<open>
  C32. When the client is gone its pending requests are cancelled: a completion that comes later,
  to whatever client is then connected, frees the request and sends nothing.
\<close>

theorem closed_connection_silent:
  assumes "close_commands s = Inr s1" "t \<in> set (s_pendingRequests s1)" "infos s2 t = infos s1 t" "t \<in> set (s_pendingRequests s2)"
  shows "\<exists>s3. TGM_onRequestComplete_lib X (Some t) e d n s2 = Inr s3 \<and> sent s3 = sent s2 \<and> infos s3 t = None"
proof -
  obtain s0 where s0: "onCommandsSocketClosed s0 = Inr s1"
    using assms(1) by (auto simp: close_commands_def tgmEventAddWakeup_def seqO_eq_Inr)
  have ok: "\<forall>a \<in> set as. infos s a \<noteq> None" if "mark_cancelled as s = Inr s'" for as and s s' :: "'a core"
    using that
  proof (induction as arbitrary: s)
    case (Cons a as)
    then obtain i where i: "infos s a = Some i" "mark_cancelled as (s\<lparr>infos := (infos s)(a \<mapsto> i\<lparr>cancelled := True\<rparr>)\<rparr>) = Inr s'"
      by (auto simp: info_at_def seqO_eq_Inr split: option.splits)
    then show ?case using Cons.IH[OF i(2)] by (auto split: if_splits)
  qed simp
  have "s1 = s0\<lparr>infos := (\<lambda>a. if a \<in> set (s_pendingRequests s0) then map_option (\<lambda>i. i\<lparr>cancelled := True\<rparr>) (infos s0 a) else infos s0 a)\<rparr>"
    using s0 mark_effect[OF ok] unfolding onCommandsSocketClosed_def by fastforce
  then obtain i where "infos s1 t = Some i" "cancelled i"
    using assms(2) ok[OF s0[unfolded onCommandsSocketClosed_def]] by auto
  then show ?thesis using cancelled_freed[OF assms(4), of i X e d n] assms(3) by auto
qed

text \<open>The same daemon with the command socket watched by the loop.\<close>

definition demo_open :: "unit core" where
  "demo_open = (case tgm_event_add s_commands_event (tgm_event_set s_commands_event 6 True FN_processCommandsCallback 0
      (tgm_event_set s_listen_event 3 False FN_listenCallback 0 (tgm_event_init demo_core))) of Inr s \<Rightarrow> s)"

lemmas core_eval = demo_open_def demo_core_def s_commands_event_def s_listen_event_def tgm_event_init_def init_list_def tgm_event_set_def
  timer_list_def pending_list_def empty_event_def slots tgm_event_add_def mutex_acquire_def mutex_release_def store_def load_def
  close_commands_def tgm_event_del_def removeWatch_def tgmEventAddWakeup_def triggerEvLoop_def onCommandsSocketClosed_def info_at_def

lemma demo_closed: "\<exists>s1. close_commands demo_open = Inr s1 \<and> s_pendingRequests s1 = [7]"
proof -
  have "0 < MAX_FD_EVENTS" by (simp add: MAX_FD_EVENTS_def)
  then show ?thesis by (simp add: core_eval)
qed

theorem closed_connection_silent_witness:
  "\<exists>s1 s3. close_commands demo_open = Inr s1 \<and> TGM_onRequestComplete_lib (item_ext 4) (Some 7) 0 (Ints [17, 99]) 8 (s1\<lparr>s_fdCommand := 9\<rparr>) = Inr s3 \<and>
    sent s3 = sent s1"
proof -
  obtain s1 where s1: "close_commands demo_open = Inr s1" "s_pendingRequests s1 = [7]" using demo_closed by blast
  then show ?thesis using closed_connection_silent[OF s1(1), of 7 "s1\<lparr>s_fdCommand := 9\<rparr>" "item_ext 4" 0 "Ints [17, 99]" 8] by auto
qed

end
