(* ===== verification/Driver_Daemon.thy ===== *)
theory Driver_Daemon
  imports Huawei_Main Tgm_Responses
begin

text \<open>
  The driver and the daemon together: what the driver hands to the completion of a request has
  the type the daemon's response function takes, and only the guard at the head of \<open>onRequest\<close>
  refuses a request for the radio; the packet with the answer of a completion.
\<close>

section \<open>The data of a completion\<close>

text \<open>The driver's data as the library reads it, through its pointer.\<close>

fun payload_data :: "payload \<Rightarrow> c_data" where
  "payload_data NoData = Null"
| "payload_data (StrData s) = Chars s"
| "payload_data (StrsData ss) = Strings ss"
| "payload_data (IntData i) = Ints [i]"
| "payload_data (IntsData is) = Ints is"
| "payload_data (StateData st) = Ints [radio_state_code st]"

fun typed :: "response_fn \<Rightarrow> payload \<Rightarrow> bool" where
  "typed ResponseVoid p \<longleftrightarrow> p = NoData"
| "typed ResponseDialDataNetwork p \<longleftrightarrow> p = NoData"
| "typed ResponseDisconnectDataNetwork p \<longleftrightarrow> p = NoData"
| "typed ResponseInts p \<longleftrightarrow> (case p of IntData _ \<Rightarrow> True | IntsData _ \<Rightarrow> True | StateData _ \<Rightarrow> True | _ \<Rightarrow> False)"
| "typed ResponseString p \<longleftrightarrow> (case p of StrData _ \<Rightarrow> True | _ \<Rightarrow> False)"
| "typed ResponseStrings p \<longleftrightarrow> (case p of StrsData _ \<Rightarrow> True | _ \<Rightarrow> False)"
| "typed _ p \<longleftrightarrow> False"

lemma typed_items: "typed fn p \<Longrightarrow> \<exists>xs. response_items X fn (payload_data p) = Some xs"
  by (cases fn; cases p) auto

text \<open>The response function of a request.\<close>

definition answers_with :: "int \<Rightarrow> response_fn" where
  "answers_with request = ci_responseFunction (s_commands ! nat request)"

lemma answers_simps:
  "answers_with 1 = ResponseVoid" "answers_with 2 = ResponseVoid" "answers_with 3 = ResponseDialDataNetwork" "answers_with 4 = ResponseDisconnectDataNetwork"
  "answers_with 5 = ResponseInts" "answers_with 6 = ResponseString" "answers_with 7 = ResponseString" "answers_with 8 = ResponseStrings"
  "answers_with 10 = ResponseString" "answers_with 11 = ResponseInts" "answers_with 12 = ResponseString" "answers_with 13 = ResponseString"
  "answers_with 14 = ResponseInts" "answers_with 15 = ResponseVoid" "answers_with 16 = ResponseVoid"
  by (simp_all add: answers_with_def s_commands_def command_def)

section \<open>Every completion of the driver is typed\<close>

text \<open>
  \<open>m'\<close> has more completions than \<open>m\<close>: the successful ones carry data of the type of \<open>fn\<close>, and none
  of them says that the radio is not available.
\<close>

definition proper_answer :: "response_fn \<Rightarrow> TGM_Errno \<Rightarrow> payload \<Rightarrow> bool" where
  "proper_answer fn e p \<longleftrightarrow> e \<noteq> TGM_E_RADIO_NOT_AVAILABLE \<and> (e = TGM_E_SUCCESS \<longrightarrow> typed fn p)"

definition adds :: "response_fn \<Rightarrow> modem \<Rightarrow> modem \<Rightarrow> bool" where
  "adds fn m m' \<longleftrightarrow> (\<exists>cs. completions m' = completions m @ cs \<and> (\<forall>(t, e, p) \<in> set cs. proper_answer fn e p))"

lemma proper_answer_simps [simp]:
  "proper_answer fn TGM_E_SUCCESS p = typed fn p" "proper_answer fn TGM_E_GENERIC_FAILURE p" "proper_answer fn TGM_E_PASSWORD_INCORRECT p"
  "proper_answer fn TGM_E_OP_NOT_ALLOWED_DURING_PPPD p"
  by (simp_all add: proper_answer_def)

lemma adds_nothing: "completions m' = completions m \<Longrightarrow> adds fn m m'"
  by (auto simp: adds_def)

lemma adds_one: "completions m1 = completions m \<Longrightarrow> proper_answer fn e p \<Longrightarrow> adds fn m (TGM_onRequestComplete t e p m1)"
  unfolding adds_def by (intro exI[of _ "[(t, e, p)]"]) auto

lemma adds_complete [simp]:
  "request_state m1 = request_state m \<Longrightarrow> proper_answer fn e p \<Longrightarrow> adds fn m (TGM_onRequestComplete t e p m1)"
  by (rule adds_one) (auto dest: completions_request_state)

lemma adds_two [simp]:
  "request_state m1 = request_state m \<Longrightarrow> proper_answer fn e p \<Longrightarrow> proper_answer fn e' p' \<Longrightarrow>
    adds fn m (TGM_onRequestComplete t' e' p' (TGM_onRequestComplete t e p m1))"
  unfolding adds_def by (intro exI[of _ "[(t, e, p), (t', e', p')]"]) (auto dest: completions_request_state)

lemma adds_frame [simp]:
  "adds fn m (m1\<lparr>properties_set := ps\<rparr>) = adds fn m m1" "adds fn m (TGM_requestTimedCallback c d m1) = adds fn m m1"
  by (simp_all add: adds_def)

lemma adds_after: "adds fn m m1 \<Longrightarrow> completions m2 = completions m1 \<Longrightarrow> adds fn m m2"
  by (simp add: adds_def)

lemma adds_pdp: "allO (adds ResponseVoid m) (requestSetupDefaultPDP np data t m)"
  unfolding requestSetupDefaultPDP_def by (rule allO_any) (auto intro!: same_request)

lemma adds_pin: "allO (adds ResponseVoid m) (requestEnterSIMPin np data t m)"
proof -
  have send: "allO (adds ResponseVoid m) (seqO (at_send_command_singleline (tgm_env np) cmd ''+CPIN:'' True m) (\<lambda>(err, out, m1).
           seqO (failed err out) (\<lambda>bad.
             if bad \<and> err \<noteq> AT_ERROR_INVALID_RESPONSE then Inr (TGM_onRequestComplete t TGM_E_PASSWORD_INCORRECT NoData m1)
             else Inr (TGM_requestTimedCallback InitializeCallback 0 (TGM_onRequestComplete t TGM_E_SUCCESS NoData m1)))))" for cmd
    by (auto intro!: same_request failed_all)
  show ?thesis
  proof (cases "length data \<noteq> 1 \<and> length data \<noteq> 2")
    case False
    then show ?thesis
      unfolding requestEnterSIMPin_def by (simp only: if_False) (rule allO_any, rule send)
  qed (simp add: requestEnterSIMPin_def)
qed

lemma adds_dial: "allO (adds ResponseDialDataNetwork m) (requestDialDataNetwork np t m)"
proof -
  have "allO (adds ResponseDialDataNetwork m) (setRadioState np st (m1\<lparr>s_closed := True\<rparr>))" if "adds ResponseDialDataNetwork m m1" for st m1
  proof -
    have "allO (\<lambda>m'. request_state m' = request_state m1) (setRadioState np st (m1\<lparr>s_closed := True\<rparr>))"
      by (rule keep_request.setRadioState_all) simp
    with that show ?thesis
      by (cases "setRadioState np st (m1\<lparr>s_closed := True\<rparr>)") (auto intro: adds_after dest: completions_request_state)
  qed
  then show ?thesis
    unfolding requestDialDataNetwork_def by (auto intro!: same_request)
qed

lemma adds_operator: "allO (adds ResponseStrings m) (requestOperator np t m)"
proof -
  have "allO (adds ResponseStrings m) (seqO (operator_loop 0 ls [None, None, None] m1) (\<lambda>(res, m2).
             case res of
               Some (i, response) \<Rightarrow>
                 if i \<noteq> 3 then Inr (TGM_onRequestComplete t TGM_E_GENERIC_FAILURE NoData m2)
                 else Inr (TGM_onRequestComplete t TGM_E_SUCCESS (StrsData response) m2)
             | None \<Rightarrow> Inr (TGM_onRequestComplete t TGM_E_GENERIC_FAILURE NoData m2)))"
    if "request_state m1 = request_state m" for ls m1
    by (rule allO_seqO[OF operator_loop_completions[OF refl]])
      (use completions_request_state[OF that] in \<open>auto intro!: adds_one split: option.split\<close>)
  then show ?thesis
    unfolding requestOperator_def by (auto intro!: same_request split: option.split)
qed

lemma adds_answer:
  assumes "request_state m1 = request_state m" "\<And>line. allO (adds fn m) (f line m1)"
  shows "allO (adds fn m) (answer_line t f (err, out, m1))"
  using assms by (auto simp: answer_line_def intro!: failed_all first_line_all)

lemma adds_signal: "allO (adds ResponseInts m) (requestSignalStrength np t m)"
  unfolding requestSignalStrength_def Let_def
  by (auto intro!: same_request failed_all first_line_all split: prod.split option.split)

lemma adds_copy:
  "completions m1 = completions m \<Longrightarrow> (\<And>c. completions (upd c) = completions m1)
    \<Longrightarrow> allO (adds ResponseString m) (seqO (copy_128 line) (\<lambda>c. Inr (TGM_onRequestComplete t TGM_E_SUCCESS (StrData line) (upd c))))"
  by (rule allO_any) (simp only: allO_Inr, rule adds_one, auto)

lemma adds_queries:
  "allO (adds ResponseString m) (seqO (at_send_command_numeric (tgm_env np) cmd True m) (answer_line t (\<lambda>line m1.
     Inr (TGM_onRequestComplete t TGM_E_SUCCESS (StrData line) m1))))"
  "allO (adds ResponseString m) (seqO (at_send_command_numeric (tgm_env np) cmd True m) (answer_line t (\<lambda>line m1.
     Inr ((TGM_onRequestComplete t TGM_E_SUCCESS (StrData line) m1)\<lparr>properties_set := properties_set m1 @ [(n, Some line)]\<rparr>))))"
  "allO (adds ResponseString m) (seqO (at_send_command_singleline (tgm_env np) cmd p True m) (answer_line t (\<lambda>line m1.
     Inr (TGM_onRequestComplete t TGM_E_SUCCESS (StrData line) m1))))"
  "allO (adds ResponseString m) (seqO (at_send_command_singleline (tgm_env np) cmd p True m) (answer_line t (\<lambda>line m1.
     seqO (copy_128 line) (\<lambda>c. Inr (TGM_onRequestComplete t TGM_E_SUCCESS (StrData line) (m1\<lparr>cachedManufacturer := c\<rparr>))))))"
  "allO (adds ResponseString m) (seqO (at_send_command_singleline (tgm_env np) cmd p True m) (answer_line t (\<lambda>line m1.
     seqO (copy_128 line) (\<lambda>c. Inr (TGM_onRequestComplete t TGM_E_SUCCESS (StrData line) (m1\<lparr>cachedModel := c\<rparr>))))))"
  by (auto intro!: same_request adds_answer adds_copy dest: completions_request_state)

lemma adds_status:
  "allO (adds ResponseInts m) (seqO (getSIMStatus (setRadioState np) np m) (\<lambda>(s, m1). Inr (TGM_onRequestComplete t TGM_E_SUCCESS (IntData s) m1)))"
  "allO (adds ResponseVoid m) (seqO (setRadioState np st m) (\<lambda>m1. Inr (TGM_onRequestComplete t TGM_E_SUCCESS NoData m1)))"
  by (auto intro!: same_request)

lemma adds_disconnect: "adds ResponseDisconnectDataNetwork m (requestDisconnectDataNetwork t m)"
  unfolding requestDisconnectDataNetwork_def by (rule adds_one) auto

lemmas adds_rules = adds_pdp adds_pin adds_dial adds_operator adds_queries adds_status adds_signal

lemma handled_typed: "allO (adds (answers_with request) m) (handle_request np request data t m)"
proof -
  have "request \<in> {1, 2, 3} \<or> request \<in> {4, 5, 6, 7} \<or> request \<in> {8, 10, 11, 12} \<or> request \<in> {13, 14, 15, 16}
    \<or> (request < 1 \<or> 16 < request \<or> request = 9)"
    by (simp, presburger)
  then consider "request \<in> {1, 2, 3}" | "request \<in> {4, 5, 6, 7}" | "request \<in> {8, 10, 11, 12}" | "request \<in> {13, 14, 15, 16}"
    | "request < 1 \<or> 16 < request \<or> request = 9"
    by blast
  then show ?thesis
  proof cases
    case 4
    have "allO (adds ResponseVoid m) (requestSetPPPDAuth data m)" using auth_completions[of m data] by (rule allO_mono) (rule adds_nothing)
    then show ?thesis using 4 by (auto simp: handle_request_def query_defs request_codes requestResetStack_def answers_simps intro!: adds_rules adds_disconnect)
  qed (auto simp: handle_request_def query_defs request_codes requestResetStack_def answers_simps intro!: adds_rules adds_disconnect adds_nothing)
qed

lemma request_adds:
  assumes "\<not> ((sState m = TGM_STATE_OFF \<or> sState m = TGM_STATE_UNAVAILABLE) \<and>
    request \<notin> {TGM_REQUEST_QUERY_SIM_STATUS, TGM_REQUEST_QUERY_STATE, TGM_REQUEST_RESET_STACK})"
  shows "allO (adds (answers_with request) m) (onRequest np request data t m)"
proof -
  have "allO (adds ResponseStrings m) (seqO (carrier_strings cs) (\<lambda>ss. Inr (TGM_onRequestComplete t TGM_E_SUCCESS (StrsData ss) m)))" for cs
    by (rule allO_any) simp
  then show ?thesis using handled_typed[of request m np data t] assms
    by (auto simp: onRequest_def request_codes answers_simps)
qed

lemma request_typed:
  "allO (\<lambda>m'. \<exists>cs. completions m' = completions m @ cs \<and> (\<forall>(t, e, p) \<in> set cs. e = TGM_E_SUCCESS \<longrightarrow> typed (answers_with request) p))
    (onRequest np request data t m)"
proof (cases "(sState m = TGM_STATE_OFF \<or> sState m = TGM_STATE_UNAVAILABLE) \<and>
    request \<notin> {TGM_REQUEST_QUERY_SIM_STATUS, TGM_REQUEST_QUERY_STATE, TGM_REQUEST_RESET_STACK}")
  case True
  then show ?thesis by (auto simp: onRequest_def)
next
  case False
  show ?thesis by (rule allO_mono[OF request_adds[OF False]]) (fastforce simp: adds_def proper_answer_def)
qed

section \<open>The packet of a completion\<close>

definition response_of :: "'p ext \<Rightarrow> response_fn \<Rightarrow> int \<Rightarrow> TGM_Errno \<Rightarrow> payload \<Rightarrow> item list" where
  "response_of X fn token e p = [Int32 RESPONSE_SOLICITED, Int32 token, Int32 (errno_code e)] @
     (if e = TGM_E_SUCCESS then the (response_items X fn (payload_data p)) else [])"

lemma errno_zero: "errno_code e = 0 \<longleftrightarrow> e = TGM_E_SUCCESS"
  by (cases e) auto

lemma typed_parcel:
  assumes X: "parcel_laws X written reads" "sizeof_ptr X = 4"
    and p: "e = TGM_E_SUCCESS \<longrightarrow> typed (ci_responseFunction (pCI info)) p"
  obtains q where "solicited_parcel X info (errno_code e) (payload_data p) (data_length X (payload_data p)) = Inr q"
    "written q (response_of X (ci_responseFunction (pCI info)) (ri_token info) e p)"
proof (cases "e = TGM_E_SUCCESS")
  case True
  then obtain xs where xs: "response_items X (ci_responseFunction (pCI info)) (payload_data p) = Some xs" using p typed_items by blast
  then show thesis using solicited_written[OF X xs, of "errno_code e"] True that by (auto simp: response_of_def errno_zero)
next
  case False
  define q where "q = writeInt32 X (errno_code e) (writeInt32 X (ri_token info) (writeInt32 X RESPONSE_SOLICITED (parcel_new X)))"
  have "written q [Int32 RESPONSE_SOLICITED, Int32 (ri_token info), Int32 (errno_code e)]"
    using parcel_write(2)[OF X(1) parcel_write(2)[OF X(1) parcel_write(2)[OF X(1) parcel_write(1)[OF X(1)]]]] by (simp add: q_def)
  moreover have "solicited_parcel X info (errno_code e) d n = Inr q" for d n using False by (simp add: solicited_parcel_def Let_def q_def errno_zero)
  ultimately show thesis using that False by (auto simp: response_of_def)
qed

section \<open>The radio that is down\<close>

text \<open>
  C37. Requests are refused with \<open>RADIO_NOT_AVAILABLE\<close> exactly while the radio is off or
  unavailable: then every request but the queries of the SIM status and of the state and the reset
  gets that one completion at once and nothing else changes; these three, and in every other state
  all requests, are not completed with it when they return, whatever the modem answers. The query of the state is
  answered in every state.
\<close>

theorem radio_down_guard:
  "(if (sState m = TGM_STATE_OFF \<or> sState m = TGM_STATE_UNAVAILABLE) \<and>
      request \<notin> {TGM_REQUEST_QUERY_SIM_STATUS, TGM_REQUEST_QUERY_STATE, TGM_REQUEST_RESET_STACK}
    then onRequest np request data t m = Inr (m\<lparr>completions := completions m @ [(t, TGM_E_RADIO_NOT_AVAILABLE, NoData)]\<rparr>)
    else allO (\<lambda>m'. \<exists>cs. completions m' = completions m @ cs \<and> TGM_E_RADIO_NOT_AVAILABLE \<notin> (fst \<circ> snd) ` set cs) (onRequest np request data t m)) \<and>
   onRequest np TGM_REQUEST_QUERY_STATE data t m = Inr (m\<lparr>completions := completions m @ [(t, TGM_E_SUCCESS, StateData (sState m))]\<rparr>)"
proof (intro conjI)
  let ?down = "(sState m = TGM_STATE_OFF \<or> sState m = TGM_STATE_UNAVAILABLE) \<and>
      request \<notin> {TGM_REQUEST_QUERY_SIM_STATUS, TGM_REQUEST_QUERY_STATE, TGM_REQUEST_RESET_STACK}"
  show "if ?down then onRequest np request data t m = Inr (m\<lparr>completions := completions m @ [(t, TGM_E_RADIO_NOT_AVAILABLE, NoData)]\<rparr>)
    else allO (\<lambda>m'. \<exists>cs. completions m' = completions m @ cs \<and> TGM_E_RADIO_NOT_AVAILABLE \<notin> (fst \<circ> snd) ` set cs) (onRequest np request data t m)"
  proof (cases ?down)
    case True
    then show ?thesis by (auto simp: onRequest_def TGM_onRequestComplete_def)
  next
    case False
    show ?thesis unfolding if_not_P[OF False] by (rule allO_mono[OF request_adds[OF False]]) (fastforce simp: adds_def proper_answer_def)
  qed
  show "onRequest np TGM_REQUEST_QUERY_STATE data t m = Inr (m\<lparr>completions := completions m @ [(t, TGM_E_SUCCESS, StateData (sState m))]\<rparr>)"
    by (auto simp: onRequest_def handle_request_def request_codes TGM_onRequestComplete_def)
qed

end
