(* ===== verification/Tgm_Daemon.thy ===== *)
theory Tgm_Daemon
  imports Tgm_Responses
begin

text \<open>
  The daemon of \<open>Tgm_Core\<close> inside the event loop of \<open>Tgm_Loop\<close>: an invariant of its connection,
  its requests, its timers and its wake lock, which every function the driver may call keeps and
  which every callback keeps; with it the daemon's callbacks meet the interface \<open>event_client\<close> of
  the loop.
\<close>

section \<open>The invariant\<close>

text \<open>An event with its descriptor, persistence, function and parameter.\<close>

definition is_event :: "'m core \<Rightarrow> addr \<Rightarrow> int \<Rightarrow> bool \<Rightarrow> nat \<Rightarrow> nat \<Rightarrow> bool" where
  "is_event s a fd persist fn param \<longleftrightarrow> (\<exists>t. event_core s a = Some (fd, persist, t, fn, param))"

definition static_events :: "addr set" where
  "static_events = {s_listen_event, s_commands_event, s_wakeupfd_event}"

text \<open>
  Before the registration no client is listened for; then either the listening socket is watched,
  or its event is pending, or there is a connection whose socket is watched.
\<close>

definition conn_inv :: "'m core \<Rightarrow> addr list \<Rightarrow> bool" where
  "conn_inv s ps \<longleftrightarrow> set (watched s) \<subseteq> static_events \<and>
     (if \<not> s_registerCalled s
      then s_listen_event \<notin> set (watched s) \<union> set ps \<and> s_commands_event \<notin> set (watched s) \<union> set ps \<and> s_fdCommand s < 0
      else if s_fdCommand s < 0
      then (s_listen_event \<in> set (watched s)) \<noteq> (s_listen_event \<in> set ps) \<and> s_commands_event \<notin> set (watched s) \<union> set ps
      else s_listen_event \<notin> set (watched s) \<union> set ps \<and> s_commands_event \<in> set (watched s))"

text \<open>The static events in use are what was set up; \<open>accept\<close> gives new descriptors.\<close>

definition events_inv :: "'m core \<Rightarrow> addr list \<Rightarrow> bool" where
  "events_inv s ps \<longleftrightarrow>
     (s_wakeupfd_event \<in> set (watched s) \<union> set ps \<longrightarrow> is_event s s_wakeupfd_event (s_fdWakeupRead s) True FN_processWakeupCallback 0) \<and>
     (s_registerCalled s \<longrightarrow> is_event s s_listen_event (s_fdListen s) False FN_listenCallback 0 \<and> s_fdListen s \<noteq> s_fdWakeupRead s \<and>
       (\<forall>fd \<in> insert (s_fdCommand s) (set (accepts s)). fd \<ge> 0 \<longrightarrow> fd \<noteq> s_fdListen s \<and> fd \<noteq> s_fdWakeupRead s)) \<and>
     (s_commands_event \<in> set (watched s) \<union> set ps \<longrightarrow> is_event s s_commands_event (s_fdCommand s) True FN_processCommandsCallback 0)"

text \<open>Everything allocated is below \<open>brk\<close>; the timers are the events of user callbacks.\<close>

definition memory_inv :: "'m core \<Rightarrow> addr list \<Rightarrow> addr list \<Rightarrow> bool" where
  "memory_inv s ts ps \<longleftrightarrow> 5 \<le> brk s \<and> (\<forall>a \<ge> brk s. heap s a = None \<and> infos s a = None) \<and>
     (\<forall>a \<in> dom (user_callbacks s). 5 \<le> a \<and> a < brk s \<and> is_event s a (-1) False FN_userTimerCallback a) \<and>
     set ts \<subseteq> dom (user_callbacks s) \<and> set ps \<subseteq> static_events \<union> dom (user_callbacks s)"

text \<open>The allocated requests are the pending ones, each with an entry of the table.\<close>

definition requests_inv :: "'m core \<Rightarrow> bool" where
  "requests_inv s \<longleftrightarrow> distinct (s_pendingRequests s) \<and> dom (infos s) = set (s_pendingRequests s) \<and>
     (\<forall>a i. infos s a = Some i \<longrightarrow> pCI i \<in> set (tl s_commands))"

definition lock_held :: "'m core \<Rightarrow> bool" where
  "lock_held s \<longleftrightarrow> wake_log s \<noteq> [] \<and> last (wake_log s)"

text \<open>
  Only the last wake timer is not cancelled, and while the wake lock is held it is there and
  linked, so that it will release it.
\<close>

definition wake_timers :: "'m core \<Rightarrow> addr set \<Rightarrow> bool" where
  "wake_timers s ts \<longleftrightarrow>
     (\<forall>a. s_last_wake_timeout_info s = Some a \<longrightarrow> a \<in> ts \<and> user_callbacks s a = Some \<lparr>p_callback = WakeTimeout, userParam = 0\<rparr>) \<and>
     (\<forall>a. user_callbacks s a = Some \<lparr>p_callback = WakeTimeout, userParam = 0\<rparr> \<longrightarrow> s_last_wake_timeout_info s = Some a)"

definition wake_inv :: "'m core \<Rightarrow> addr list \<Rightarrow> addr list \<Rightarrow> bool" where
  "wake_inv s ts ps \<longleftrightarrow> wake_timers s (set ts \<union> set ps) \<and> (lock_held s \<longrightarrow> s_last_wake_timeout_info s \<noteq> None)"

definition base_inv :: "'m core \<Rightarrow> addr list \<Rightarrow> addr list \<Rightarrow> bool" where
  "base_inv s ts ps \<longleftrightarrow> conn_inv s ps \<and> events_inv s ps \<and> memory_inv s ts ps \<and> requests_inv s \<and> \<not> s_writeMutex s"

definition core_inv :: "'m core \<Rightarrow> addr list \<Rightarrow> addr list \<Rightarrow> bool" where
  "core_inv s ts ps \<longleftrightarrow> base_inv s ts ps \<and> wake_inv s ts ps"

text \<open>What a call into the library leaves alone.\<close>

definition lib_keeps :: "'m core \<Rightarrow> addr list \<Rightarrow> addr list \<Rightarrow> 'm core \<Rightarrow> bool" where
  "lib_keeps s ts ps s' \<longleftrightarrow> (\<exists>ts'. loop_inv s' ts' ps \<and> core_inv s' ts' ps \<and> set ts' \<subseteq> set ts \<union> {brk s..}) \<and>
     fired s' = fired s \<and> brk s \<le> brk s' \<and>
     (\<forall>a < brk s. event_core s' a = event_core s a \<and> map_option p_callback (user_callbacks s' a) = map_option p_callback (user_callbacks s a)) \<and>
     s_fdCommand s' = s_fdCommand s \<and> stream s' = stream s \<and> s_registerCalled s' = s_registerCalled s \<and> set (watched s') = set (watched s)"

lemma lib_keeps_refl: "loop_inv s ts ps \<Longrightarrow> core_inv s ts ps \<Longrightarrow> lib_keeps s ts ps s"
  by (auto simp: lib_keeps_def)

lemma lib_keeps_trans:
  assumes "lib_keeps s ts ps s1" "\<And>ts1. loop_inv s1 ts1 ps \<Longrightarrow> core_inv s1 ts1 ps \<Longrightarrow> lib_keeps s1 ts1 ps s2"
  shows "lib_keeps s ts ps s2"
proof -
  obtain ts1 where 1: "loop_inv s1 ts1 ps" "core_inv s1 ts1 ps" "set ts1 \<subseteq> set ts \<union> {brk s..}" "brk s \<le> brk s1"
    using assms(1) by (auto simp: lib_keeps_def)
  note k = assms(2)[OF 1(1,2)]
  obtain ts2 where 2: "loop_inv s2 ts2 ps" "core_inv s2 ts2 ps" "set ts2 \<subseteq> set ts1 \<union> {brk s1..}" using k by (auto simp: lib_keeps_def)
  have "set ts2 \<subseteq> set ts \<union> {brk s..}" using 1(3,4) 2(3) by fastforce
  then show ?thesis using 2(1,2) assms(1) k 1(4) by (auto simp: lib_keeps_def)
qed

section \<open>Fields that do not matter\<close>

lemma loop_same_fields:
  assumes "heap s' = heap s" "readFds s' = readFds s" "nfds s' = nfds s" "watch_table s' = watch_table s" "locked s' = locked s"
  shows "loop_inv s' = loop_inv s" "watched s' = watched s" "event_core s' = event_core s" "fd_of s' = fd_of s" "is_event s' = is_event s"
proof -
  have n: "nxt s' = nxt s" "prv s' = prv s" "timeout_of s' = timeout_of s"
    by (simp_all add: nxt_def prv_def timeout_of_def assms fun_eq_iff)
  show w: "watched s' = watched s" "event_core s' = event_core s" "fd_of s' = fd_of s"
    by (simp_all add: watched_def event_core_def fd_of_def assms fun_eq_iff)
  have "rings_are s' = rings_are s" using n by (intro ext) (simp add: rings_are_def dl_def)
  then show "loop_inv s' = loop_inv s"
    using n(3) w assms by (intro ext) (simp add: loop_inv_def timers_sorted_def watch_inv_def)
  show "is_event s' = is_event s" using w(2) by (intro ext) (simp add: is_event_def)
qed

lemma wake_cong:
  "s_last_wake_timeout_info s' = s_last_wake_timeout_info s \<Longrightarrow> user_callbacks s' = user_callbacks s \<Longrightarrow> wake_log s' = wake_log s \<Longrightarrow>
    wake_inv s' ts ps = wake_inv s ts ps"
  by (simp only: wake_inv_def wake_timers_def lock_held_def)

text \<open>For a step that changes only requests, user callbacks and fields outside the invariant.\<close>

lemma base_same:
  assumes "base_inv s ts ps"
    and "heap s' = heap s" "readFds s' = readFds s" "nfds s' = nfds s" "watch_table s' = watch_table s" "locked s' = locked s"
    and "s_registerCalled s' = s_registerCalled s" "s_fdListen s' = s_fdListen s" "s_fdCommand s' = s_fdCommand s"
      "s_fdWakeupRead s' = s_fdWakeupRead s" "accepts s' = accepts s" "s_writeMutex s' = s_writeMutex s"
      "dom (user_callbacks s') = dom (user_callbacks s)" "brk s' = brk s"
    and "requests_inv s'" "\<forall>a \<ge> brk s. infos s' a = None"
  shows "base_inv s' ts ps"
proof -
  note f = loop_same_fields[OF assms(2-6)]
  have c: "conn_inv s ps" "events_inv s ps" "memory_inv s ts ps" "\<not> s_writeMutex s" using assms(1) by (simp_all add: base_inv_def)
  have "conn_inv s' ps = conn_inv s ps" by (simp add: conn_inv_def f assms(7-14))
  moreover have "events_inv s' ps = events_inv s ps" by (simp add: events_inv_def f assms(7-14))
  moreover have "memory_inv s' ts ps" using c(3) assms(16) unfolding memory_inv_def f assms(2,13,14) by blast
  ultimately show ?thesis using c assms(12,15) by (simp add: base_inv_def)
qed

lemma keeps_same:
  assumes "loop_inv s ts ps" "base_inv s' ts ps" "wake_inv s' ts ps"
    and "heap s' = heap s" "readFds s' = readFds s" "nfds s' = nfds s" "watch_table s' = watch_table s" "locked s' = locked s" "fired s' = fired s"
    and "s_registerCalled s' = s_registerCalled s" "s_fdCommand s' = s_fdCommand s" "stream s' = stream s"
      "user_callbacks s' = user_callbacks s" "brk s' = brk s"
  shows "lib_keeps s ts ps s'"
  using assms loop_same_fields[OF assms(4-8)] by (auto simp: lib_keeps_def core_inv_def)

section \<open>Calls into the library\<close>

text \<open>A call may wait for the client or end the process, but nothing else goes wrong.\<close>

abbreviation safe :: "stop set" where "safe \<equiv> {Blocked, Exited}"

lemma blockingWrite_safe: "outO safe (\<lambda>_. True) (blockingWrite buf ws)"
proof (induction buf ws rule: blockingWrite.induct)
  case (4 b buf n ws)
  then show ?case unfolding blockingWrite.simps by (rule outO_seqO) auto
qed auto

lemma write_fd_safe: "outO safe (\<lambda>s'. s_writeMutex s' = s_writeMutex s) (write_fd buf s)"
  unfolding write_fd_def by (rule outO_seqO[OF blockingWrite_safe]) auto

lemma send_safe:
  assumes "\<not> s_writeMutex s"
  shows "outO safe (\<lambda>(r, s'). \<exists>out ws. s' = s\<lparr>sent := out, writes := ws\<rparr>) (sendResponseRaw buf s)"
proof -
  have "outO safe (\<lambda>_. True) (sendResponseRaw buf s)"
    using assms by (auto simp: sendResponseRaw_def intro!: outO_seqO[OF write_fd_safe] outO_seqO[OF write_fd_safe])
  then show ?thesis by (rule outO_mono[OF outO_conj[OF _ send_effect[OF assms]]]) blast
qed

text \<open>The data of a completion has the type of the response function.\<close>

definition fits :: "'p ext \<Rightarrow> addr option \<Rightarrow> int \<Rightarrow> c_data \<Rightarrow> nat \<Rightarrow> 'm core \<Rightarrow> bool" where
  "fits X t e d n s \<longleftrightarrow> (\<forall>a info. t = Some a \<longrightarrow> a \<in> set (s_pendingRequests s) \<longrightarrow> infos s a = Some info \<longrightarrow>
     \<not> cancelled info \<longrightarrow> \<not> local info \<longrightarrow> (\<exists>p. solicited_parcel X info e d n = Inr p))"

lemma requests_remove:
  assumes "requests_inv s" "infos s' = (infos s)(a := None)" "s_pendingRequests s' = remove1 a (s_pendingRequests s)"
  shows "requests_inv s'"
  using assms by (auto simp: requests_inv_def split: if_splits)

lemma complete_keeps:
  assumes "loop_inv s ts ps" "core_inv s ts ps" "fits X t e d n s"
  shows "outO safe (lib_keeps s ts ps) (TGM_onRequestComplete_lib X t e d n s)"
proof (cases "\<exists>a. t = Some a \<and> a \<in> set (s_pendingRequests s)")
  case False
  then have "TGM_onRequestComplete_lib X t e d n s = Inr s"
    by (cases t) (auto simp: not_pending_ignored, simp add: TGM_onRequestComplete_lib_def checkAndDequeueRequestInfo_def)
  then show ?thesis using lib_keeps_refl[OF assms(1,2)] by simp
next
  case True
  then obtain a where a: "t = Some a" "a \<in> set (s_pendingRequests s)" by blast
  have c: "requests_inv s" "memory_inv s ts ps" "wake_inv s ts ps" "\<not> s_writeMutex s" "base_inv s ts ps"
    using assms(2) by (simp_all add: core_inv_def base_inv_def)
  have "a \<in> dom (infos s)" using c(1) a(2) by (simp add: requests_inv_def)
  then obtain info where info: "infos s a = Some info" by blast
  have keep: "lib_keeps s ts ps (s\<lparr>s_pendingRequests := remove1 a (s_pendingRequests s), sent := out, writes := ws, infos := (infos s)(a := None)\<rparr>)"
    (is "lib_keeps s ts ps ?s'") for out ws
  proof -
    have r: "requests_inv ?s'" by (rule requests_remove[OF c(1), of _ a]) simp_all
    have i: "\<forall>x \<ge> brk s. infos ?s' x = None" using c(2) by (simp add: memory_inv_def)
    have "base_inv ?s' ts ps" by (rule base_same[OF c(5) _ _ _ _ _ _ _ _ _ _ _ _ _ r i]) simp_all
    moreover have "wake_inv ?s' ts ps" by (subst wake_cong[of _ s]) (simp_all add: c(3))
    ultimately show ?thesis by (rule keeps_same[OF assms(1)]) simp_all
  qed
  show ?thesis
  proof (cases "cancelled info \<or> local info")
    case True
    then show ?thesis using cancelled_freed[OF a(2) info True, of X e d n] keep[where out = "sent s" and ws = "writes s"] unfolding a(1) by simp
  next
    case False
    obtain p where p: "solicited_parcel X info e d n = Inr p" using assms(3) a info False by (auto simp: fits_def)
    define s1 where "s1 = s\<lparr>s_pendingRequests := remove1 a (s_pendingRequests s)\<rparr>"
    have "TGM_onRequestComplete_lib X t e d n s =
      seqO (sendResponseRaw (parcel_data X p) s1) (\<lambda>(_, s2). Inr (s2\<lparr>infos := (infos s2)(a := None)\<rparr>))"
      using a info False p by (simp add: TGM_onRequestComplete_lib_def dequeue_some info_at_def Let_def s1_def sendResponse_def)
    moreover have "\<not> s_writeMutex s1" using c(4) by (simp add: s1_def)
    ultimately show ?thesis
      by simp (rule outO_seqO[OF send_safe], auto simp: s1_def keep)
  qed
qed

text \<open>Data that do not fit end the call, so a call that returns keeps the invariant.\<close>

lemma outO_allO: "outO E P m \<Longrightarrow> allO P m"
  by (cases m) auto

lemma complete_all:
  assumes "loop_inv s ts ps" "core_inv s ts ps"
  shows "allO (lib_keeps s ts ps) (TGM_onRequestComplete_lib X t e d n s)"
proof (cases "fits X t e d n s")
  case True
  then show ?thesis by (rule outO_allO[OF complete_keeps[OF assms]])
next
  case False
  then obtain a info x where a: "t = Some a" "a \<in> set (s_pendingRequests s)" "infos s a = Some info" "\<not> cancelled info" "\<not> local info"
    "solicited_parcel X info e d n = Inl x"
    unfolding fits_def by (metis Inl_Inr_False sum.exhaust)
  then show ?thesis by (simp add: TGM_onRequestComplete_lib_def dequeue_some info_at_def Let_def)
qed

text \<open>A request for a timed callback adds the timer; the next address bounds the walk.\<close>

lemma set_place: "set (place f t ev ts) = insert ev (set ts)"
  unfolding place_def set_append list.set using set_append[of "takeWhile (\<lambda>a. f a < t) ts" "dropWhile (\<lambda>a. f a < t) ts"] by auto

lemma timers_below:
  assumes "loop_inv s ts ps" "base_inv s ts ps"
  shows "length ts < brk s + 1" "brk s \<notin> {timer_list, pending_list} \<union> set ts \<union> set ps" "brk s \<notin> set (watched s)" "a \<in> set ts \<union> set ps \<Longrightarrow> a < brk s"
proof -
  have m: "5 \<le> brk s" "dom (user_callbacks s) \<subseteq> {..<brk s}" "set ts \<subseteq> dom (user_callbacks s)" "set ps \<subseteq> static_events \<union> dom (user_callbacks s)"
    "set (watched s) \<subseteq> static_events"
    using assms(2) by (auto simp: base_inv_def memory_inv_def conn_inv_def)
  have st: "static_events \<subseteq> {2..4}" by (auto simp: static_events_def s_listen_event_def s_commands_event_def s_wakeupfd_event_def)
  have c: "5 \<le> brk s" "set ts \<subseteq> {..<brk s}" "set ps \<subseteq> {..<brk s}"
  proof -
    have "static_events \<subseteq> {..<brk s}" using st m(1) by fastforce
    then show "5 \<le> brk s" "set ts \<subseteq> {..<brk s}" "set ps \<subseteq> {..<brk s}" using m by blast+
  qed
  have "distinct ts" using assms(1) dl_distinct[of s timer_list ts] by (simp add: loop_inv_def rings_are_def)
  then have "length ts = card (set ts)" by (simp add: distinct_card)
  also have "\<dots> \<le> brk s" using card_mono[OF _ c(2)] by simp
  finally show "length ts < brk s + 1" by simp
  show "brk s \<notin> {timer_list, pending_list} \<union> set ts \<union> set ps" using c by (auto simp: timer_list_def pending_list_def)
  show "brk s \<notin> set (watched s)" using m(1,5) st by auto
  show "a \<in> set ts \<union> set ps \<Longrightarrow> a < brk s" using c(2,3) by auto
qed

lemma is_event_core: "event_core s' a = event_core s a \<Longrightarrow> is_event s' a = is_event s a"
  by (simp add: is_event_def fun_eq_iff)

lemma base_new_timer:
  assumes "base_inv s ts ps" "a = brk s" "brk s' = a + 1" "\<And>b. b \<noteq> a \<Longrightarrow> event_core s' b = event_core s b" "is_event s' a (-1) False FN_userTimerCallback a"
    and "set ts' = insert a (set ts)" "dom (user_callbacks s') = insert a (dom (user_callbacks s))" "watched s' = watched s" "infos s' = infos s"
    and "s_registerCalled s' = s_registerCalled s" "s_fdListen s' = s_fdListen s" "s_fdCommand s' = s_fdCommand s"
      "s_fdWakeupRead s' = s_fdWakeupRead s" "accepts s' = accepts s" "s_writeMutex s' = s_writeMutex s" "s_pendingRequests s' = s_pendingRequests s"
  shows "base_inv s' ts' ps"
proof -
  have c: "conn_inv s ps" "events_inv s ps" "memory_inv s ts ps" "requests_inv s" "\<not> s_writeMutex s" using assms(1) by (simp_all add: base_inv_def)
  have m: "5 \<le> a" "\<And>b. b \<ge> a \<Longrightarrow> heap s b = None \<and> infos s b = None" using c(3) assms(2) by (simp_all add: memory_inv_def)
  have st: "is_event s' b = is_event s b" if "b \<noteq> a" for b by (rule is_event_core[OF assms(4)[OF that]])
  have neq: "s_listen_event \<noteq> a" "s_commands_event \<noteq> a" "s_wakeupfd_event \<noteq> a"
    using m(1) by (simp_all add: s_listen_event_def s_commands_event_def s_wakeupfd_event_def)
  have "conn_inv s' ps = conn_inv s ps" by (simp only: conn_inv_def assms(8-16))
  moreover have "events_inv s' ps = events_inv s ps" by (simp only: events_inv_def assms(8-16) st[OF neq(1)] st[OF neq(2)] st[OF neq(3)])
  moreover have "memory_inv s' ts' ps"
  proof -
    have "heap s' b = None" if "b \<ge> a + 1" for b using same_core(1)[OF assms(4), of b] m(2)[of b] that by simp
    moreover have "5 \<le> b \<and> b < a + 1 \<and> is_event s' b (-1) False FN_userTimerCallback b" if "b \<in> insert a (dom (user_callbacks s))" for b
    proof (cases "b = a")
      case False
      then have "5 \<le> b" "b < a" "is_event s b (-1) False FN_userTimerCallback b"
        using that c(3) assms(2) unfolding memory_inv_def by blast+
      then show ?thesis by (simp add: st[OF False])
    qed (use m(1) assms(5) in simp)
    moreover have "set ts \<subseteq> dom (user_callbacks s)" "set ps \<subseteq> static_events \<union> dom (user_callbacks s)"
      using c(3) unfolding memory_inv_def by blast+
    moreover have "5 \<le> a + 1" using m(1) by simp
    moreover have "infos s b = None" if "b \<ge> a + 1" for b using m(2)[of b] that by simp
    ultimately show ?thesis unfolding memory_inv_def assms(3,6,7,9) by blast
  qed
  moreover have "requests_inv s' = requests_inv s" by (simp only: requests_inv_def assms(9,16))
  ultimately show ?thesis using c(1,2,4,5) assms(15) by (simp add: base_inv_def)
qed

lemma timer_request:
  assumes inv: "loop_inv s ts ps" and b: "base_inv s ts ps"
  shows "\<exists>h w ts' s'. s' = s\<lparr>heap := h, user_callbacks := (user_callbacks s)(brk s \<mapsto> \<lparr>p_callback = cb, userParam = param\<rparr>), brk := brk s + 1, wake_bytes := w\<rparr> \<and>
    internalRequestTimedCallback on_loop now cb param rt s = Inr (brk s, s') \<and> loop_inv s' ts' ps \<and> base_inv s' ts' ps \<and>
    set ts' = insert (brk s) (set ts) \<and> (\<forall>a. a \<noteq> brk s \<longrightarrow> event_core s' a = event_core s a) \<and> watched s' = watched s"
proof -
  define a where "a = brk s"
  define s1 where "s1 = s\<lparr>brk := a + 1, user_callbacks := (user_callbacks s)(a \<mapsto> \<lparr>p_callback = cb, userParam = param\<rparr>)\<rparr>"
  define s2 where "s2 = tgm_event_set a (-1) False FN_userTimerCallback a s1"
  define d where "d = (case rt of None \<Rightarrow> Timeval 0 0 | Some t \<Rightarrow> t)"
  note below = timers_below[OF inv b, folded a_def]
  have same1: "loop_inv s1 = loop_inv s" "watched s1 = watched s" "event_core s1 = event_core s"
    using loop_same_fields[of s1 s] by (simp_all add: s1_def)
  have inv2: "loop_inv s2 ts ps" unfolding s2_def by (rule set_inv) (use inv same1 below in auto)
  obtain e where e: "heap s2 a = Some e" "ev_persist e = False" "ev_func e = FN_userTimerCallback" "ev_param e = a"
    by (simp add: s2_def tgm_event_set_def)
  have w2: "watched s2 = watched s" by (simp add: s2_def tgm_event_set_def s1_def watched_def)
  obtain s3 where s3: "tgm_timer_add (a + 1) now a (Some d) s2 = Inr s3" "loop_inv s3 (place (timeout_of s2) (timeradd now d) a ts) ps"
    "\<And>b. b \<noteq> a \<Longrightarrow> event_core s3 b = event_core s2 b" "event_core s3 a = Some (-1, False, timeradd now d, FN_userTimerCallback, a)" "s3 = s2\<lparr>heap := heap s3\<rparr>"
    using timer_inv[OF inv2 below(1) e(1) below(2), of now d] below(3) e w2 by metis
  define s' where "s' = triggerEvLoop on_loop s3"
  define w where "w = wake_bytes s'"
  have "s3 = s\<lparr>heap := heap s3, user_callbacks := (user_callbacks s)(a \<mapsto> \<lparr>p_callback = cb, userParam = param\<rparr>), brk := a + 1\<rparr>"
    by (subst s3(5)) (simp add: s2_def s1_def tgm_event_set_def)
  then obtain h where h: "s3 = s\<lparr>heap := h, user_callbacks := (user_callbacks s)(a \<mapsto> \<lparr>p_callback = cb, userParam = param\<rparr>), brk := a + 1\<rparr>" by blast
  have s': "s' = s\<lparr>heap := h, user_callbacks := (user_callbacks s)(a \<mapsto> \<lparr>p_callback = cb, userParam = param\<rparr>), brk := a + 1, wake_bytes := w\<rparr>"
    unfolding w_def s'_def h by (simp add: triggerEvLoop_def)
  have same3: "loop_inv s' = loop_inv s3" "watched s' = watched s3" "event_core s' = event_core s3"
    using loop_same_fields[of s' s3] by (simp_all add: s' h)
  have call: "internalRequestTimedCallback on_loop now cb param rt s = Inr (a, s')"
    using s3(1) by (simp add: internalRequestTimedCallback_def Let_def a_def[symmetric] s2_def s1_def d_def s'_def)
  have core: "event_core s' b = event_core s b" if "b \<noteq> a" for b
    using s3(3)[OF that] that same1(3) by (simp add: same3 s2_def tgm_event_set_def event_core_def fun_eq_iff)
  have w': "watched s' = watched s" by (simp add: s' watched_def)
  have ie: "is_event s' a (-1) False FN_userTimerCallback a" using s3(4) same3(3) by (simp add: is_event_def)
  have "base_inv s' (place (timeout_of s2) (timeradd now d) a ts) ps"
    by (rule base_new_timer[OF b a_def _ core ie set_place _ w']) (simp_all add: s')
  then show ?thesis using call s' s3(2) same3(1) core w' set_place by (metis a_def)
qed

lemma new_timer_keeps:
  assumes "loop_inv s' ts' ps" "core_inv s' ts' ps" "set ts' = insert (brk s) (set ts)" "\<forall>a. a \<noteq> brk s \<longrightarrow> event_core s' a = event_core s a"
    "watched s' = watched s" "fired s' = fired s" "brk s \<le> brk s'" "s_fdCommand s' = s_fdCommand s" "stream s' = stream s"
    "s_registerCalled s' = s_registerCalled s"
    "\<And>a. a < brk s \<Longrightarrow> map_option p_callback (user_callbacks s' a) = map_option p_callback (user_callbacks s a)"
  shows "lib_keeps s ts ps s'"
proof -
  have "event_core s' a = event_core s a" if "a < brk s" for a using assms(4) that by simp
  moreover have "set ts' \<subseteq> set ts \<union> {brk s..}" unfolding assms(3) by simp
  ultimately show ?thesis using assms(1,2,6-11) unfolding lib_keeps_def assms(5) by blast
qed

lemma fresh_callback: "base_inv s ts ps \<Longrightarrow> user_callbacks s (brk s) = None"
  by (auto simp: base_inv_def memory_inv_def)

lemma timed_keeps:
  assumes inv: "loop_inv s ts ps" and c: "core_inv s ts ps"
  shows "outO safe (lib_keeps s ts ps) (TGM_requestTimedCallback_lib on_loop now f param rt s)"
proof -
  have b: "base_inv s ts ps" and w: "wake_inv s ts ps" using c by (simp_all add: core_inv_def)
  note new = fresh_callback[OF b]
  obtain h w' ts' s' where s': "s' = s\<lparr>heap := h, user_callbacks := (user_callbacks s)(brk s \<mapsto> \<lparr>p_callback = DriverCallback f, userParam = param\<rparr>),
      brk := brk s + 1, wake_bytes := w'\<rparr>"
    "internalRequestTimedCallback on_loop now (DriverCallback f) param rt s = Inr (brk s, s')" "loop_inv s' ts' ps" "base_inv s' ts' ps"
    "set ts' = insert (brk s) (set ts)" "\<forall>a. a \<noteq> brk s \<longrightarrow> event_core s' a = event_core s a" "watched s' = watched s"
    using timer_request[OF inv b, of "DriverCallback f" param on_loop now rt] by metis
  have f: "user_callbacks s' = (user_callbacks s)(brk s \<mapsto> \<lparr>p_callback = DriverCallback f, userParam = param\<rparr>)"
    "s_last_wake_timeout_info s' = s_last_wake_timeout_info s" "wake_log s' = wake_log s"
    by (simp_all add: s'(1))
  have "wake_timers s' (set ts' \<union> set ps)"
    unfolding wake_timers_def f s'(5)
  proof (intro conjI allI impI)
    fix a assume "s_last_wake_timeout_info s = Some a"
    then have a: "a \<in> set ts \<union> set ps" "user_callbacks s a = Some \<lparr>p_callback = WakeTimeout, userParam = 0\<rparr>"
      using w unfolding wake_inv_def wake_timers_def by blast+
    then have "a \<noteq> brk s" using new by auto
    then show "a \<in> insert (brk s) (set ts) \<union> set ps"
      "((user_callbacks s)(brk s \<mapsto> \<lparr>p_callback = DriverCallback f, userParam = param\<rparr>)) a = Some \<lparr>p_callback = WakeTimeout, userParam = 0\<rparr>"
      using a by simp_all
  next
    fix a assume "((user_callbacks s)(brk s \<mapsto> \<lparr>p_callback = DriverCallback f, userParam = param\<rparr>)) a = Some \<lparr>p_callback = WakeTimeout, userParam = 0\<rparr>"
    then have "user_callbacks s a = Some \<lparr>p_callback = WakeTimeout, userParam = 0\<rparr>" by (simp split: if_splits)
    then show "s_last_wake_timeout_info s = Some a" using w unfolding wake_inv_def wake_timers_def by blast
  qed
  then have "wake_inv s' ts' ps" using w by (simp add: wake_inv_def lock_held_def f)
  then have "core_inv s' ts' ps" using s'(4) by (simp add: core_inv_def)
  then have "lib_keeps s ts ps s'" by (rule new_timer_keeps[OF s'(3) _ s'(5-7)]) (simp_all add: s'(1))
  then show ?thesis using s'(2) by (simp add: TGM_requestTimedCallback_lib_def)
qed

text \<open>After the last wake timer was cancelled none will release the lock.\<close>

lemma wake_cancelled:
  assumes "wake_timers s A"
  shows "\<exists>c. (case s_last_wake_timeout_info s of None \<Rightarrow> Inr s | Some a \<Rightarrow> cancel_wake a s) = Inr (s\<lparr>user_callbacks := c\<rparr>) \<and>
    dom c = dom (user_callbacks s) \<and> (\<forall>a. map_option p_callback (c a) = map_option p_callback (user_callbacks s a)) \<and>
    (\<forall>a. c a \<noteq> Some \<lparr>p_callback = WakeTimeout, userParam = 0\<rparr>)"
proof (cases "s_last_wake_timeout_info s")
  case None
  have "user_callbacks s a \<noteq> Some \<lparr>p_callback = WakeTimeout, userParam = 0\<rparr>" for a
    using assms None by (metis wake_timers_def option.distinct(1))
  then show ?thesis using None by (intro exI[of _ "user_callbacks s"]) simp
next
  case (Some a)
  define c where "c = (user_callbacks s)(a \<mapsto> \<lparr>p_callback = WakeTimeout, userParam = 1\<rparr>)"
  have a: "user_callbacks s a = Some \<lparr>p_callback = WakeTimeout, userParam = 0\<rparr>" using assms Some unfolding wake_timers_def by blast
  have others: "user_callbacks s b \<noteq> Some \<lparr>p_callback = WakeTimeout, userParam = 0\<rparr>" if "b \<noteq> a" for b
    using assms Some that by (metis wake_timers_def option.inject)
  have "cancel_wake a s = Inr (s\<lparr>user_callbacks := c\<rparr>)" using a by (simp add: cancel_wake_def c_def)
  moreover have "dom c = dom (user_callbacks s)" using a by (auto simp: c_def)
  moreover have "map_option p_callback (c b) = map_option p_callback (user_callbacks s b) \<and> c b \<noteq> Some \<lparr>p_callback = WakeTimeout, userParam = 0\<rparr>" for b
    by (cases "b = a") (simp_all add: c_def a others)
  ultimately show ?thesis using Some by (intro exI[of _ c]) simp
qed

definition unsol_fits :: "'p ext \<Rightarrow> int \<Rightarrow> c_data \<Rightarrow> nat \<Rightarrow> bool" where
  "unsol_fits X u d n \<longleftrightarrow> (\<forall>e \<in> set s_unsolResponses. fst e = u \<longrightarrow>
     (\<exists>r. responseFunction (fst (snd e)) X d n (writeInt32 X u (writeInt32 X RESPONSE_UNSOLICITED (parcel_new X))) = Inr r))"

lemma unsol_entry:
  assumes "0 \<le> u - TGM_UNSOLICITED_BASE" "u - TGM_UNSOLICITED_BASE < int (length s_unsolResponses)"
  obtains fn where "s_unsolResponses ! nat (u - TGM_UNSOLICITED_BASE) = (u, fn, WAKE_PARTIAL)" "(u, fn, WAKE_PARTIAL) \<in> set s_unsolResponses"
proof -
  define i where "i = nat (u - TGM_UNSOLICITED_BASE)"
  have i: "i < length s_unsolResponses" "int i + TGM_UNSOLICITED_BASE = u" using assms by (auto simp: i_def)
  then have "fst (s_unsolResponses ! i) = u" using self_check_ok by (simp add: self_check_def)
  moreover have "\<forall>e \<in> set s_unsolResponses. snd (snd e) = WAKE_PARTIAL" by (simp add: s_unsolResponses_def)
  then have "snd (snd (s_unsolResponses ! i)) = WAKE_PARTIAL" using nth_mem[OF i(1)] by blast
  ultimately have "s_unsolResponses ! i = (u, fst (snd (s_unsolResponses ! i)), WAKE_PARTIAL)" by (metis prod.collapse)
  then show thesis using that nth_mem[OF i(1)] unfolding i_def by metis
qed

lemma scheduled_keeps:
  assumes inv: "loop_inv s ts ps" and b: "base_inv s ts ps" and w: "wake_timers s (set ts \<union> set ps)"
  shows "outO safe (lib_keeps s ts ps) (seqO (case s_last_wake_timeout_info s of None \<Rightarrow> Inr s | Some a \<Rightarrow> cancel_wake a s) (\<lambda>s3.
      seqO (internalRequestTimedCallback on_loop now WakeTimeout 0 (Some TIMEVAL_WAKE_TIMEOUT) s3) (\<lambda>(a, s4).
        Inr (s4\<lparr>s_last_wake_timeout_info := Some a\<rparr>))))"
proof -
  obtain c where c: "(case s_last_wake_timeout_info s of None \<Rightarrow> Inr s | Some a \<Rightarrow> cancel_wake a s) = Inr (s\<lparr>user_callbacks := c\<rparr>)"
    "dom c = dom (user_callbacks s)" "\<And>a. map_option p_callback (c a) = map_option p_callback (user_callbacks s a)"
    "\<And>a. c a \<noteq> Some \<lparr>p_callback = WakeTimeout, userParam = 0\<rparr>"
    using wake_cancelled[OF w] by blast
  define s3 where "s3 = s\<lparr>user_callbacks := c\<rparr>"
  define u where "u = \<lparr>p_callback = WakeTimeout, userParam = 0\<rparr>"
  note same = loop_same_fields[of s3 s]
  have req: "requests_inv s3 = requests_inv s" by (simp add: requests_inv_def s3_def)
  have "base_inv s3 ts ps"
    by (rule base_same[OF b]) (use b c(2) in \<open>simp_all add: s3_def[symmetric] req\<close>, simp_all add: s3_def base_inv_def memory_inv_def)
  moreover have "loop_inv s3 ts ps" using inv same by (simp add: s3_def)
  moreover have k3: "brk s3 = brk s" "user_callbacks s3 = c" by (simp_all add: s3_def)
  ultimately obtain h w' ts' s' where s': "s' = s3\<lparr>heap := h, user_callbacks := c(brk s \<mapsto> u), brk := brk s + 1, wake_bytes := w'\<rparr>"
    "internalRequestTimedCallback on_loop now WakeTimeout 0 (Some TIMEVAL_WAKE_TIMEOUT) s3 = Inr (brk s, s')" "loop_inv s' ts' ps" "base_inv s' ts' ps"
    "set ts' = insert (brk s) (set ts)" "\<forall>a. a \<noteq> brk s \<longrightarrow> event_core s' a = event_core s3 a" "watched s' = watched s3"
    using timer_request[of s3 ts ps WakeTimeout 0] unfolding k3 u_def[symmetric] by metis
  define s5 where "s5 = s'\<lparr>s_last_wake_timeout_info := Some (brk s)\<rparr>"
  note same5 = loop_same_fields[of s5 s']
  have req5: "requests_inv s5 = requests_inv s'" by (simp add: requests_inv_def s5_def)
  have "base_inv s5 ts' ps"
    by (rule base_same[OF s'(4)]) (use s'(4) in \<open>simp_all add: s5_def[symmetric] req5\<close>, simp_all add: s5_def base_inv_def memory_inv_def)
  moreover have "wake_inv s5 ts' ps" using c(4) by (simp add: wake_inv_def wake_timers_def s5_def s'(1) s'(5) u_def[symmetric])
  ultimately have ci: "core_inv s5 ts' ps" by (simp add: core_inv_def)
  have "lib_keeps s ts ps s5"
  proof (rule new_timer_keeps[OF _ ci s'(5)])
    show "loop_inv s5 ts' ps" using s'(3) same5 by (simp add: s5_def)
    show "\<forall>a. a \<noteq> brk s \<longrightarrow> event_core s5 a = event_core s a" using s'(6) same5 same by (simp add: s5_def s3_def)
    show "watched s5 = watched s" using s'(7) same5 same by (simp add: s5_def s3_def)
  qed (use c(3) in \<open>simp_all add: s5_def s'(1) s3_def\<close>)
  then show ?thesis using c(1) s'(2) by (simp add: s3_def[symmetric] s5_def)
qed

lemma timers_cong:
  "s_last_wake_timeout_info s' = s_last_wake_timeout_info s \<Longrightarrow> user_callbacks s' = user_callbacks s \<Longrightarrow> wake_timers s' A = wake_timers s A"
  by (simp only: wake_timers_def)

text \<open>A new wake timer after fields outside the timers changed.\<close>

lemma keeps_before:
  assumes "lib_keeps s1 ts ps s'" "event_core s1 = event_core s" "brk s1 = brk s" "fired s1 = fired s" "user_callbacks s1 = user_callbacks s"
    "s_fdCommand s1 = s_fdCommand s" "stream s1 = stream s" "s_registerCalled s1 = s_registerCalled s" "watched s1 = watched s"
  shows "lib_keeps s ts ps s'"
  using assms(1) unfolding lib_keeps_def assms(2-9) .

lemma unsol_keeps:
  fixes s :: "'m core"
  assumes inv: "loop_inv s ts ps" and c: "core_inv s ts ps" and fit: "unsol_fits X u d n"
  shows "outO safe (lib_keeps s ts ps) (TGM_onUnsolicitedResponse_lib X R on_loop now u d n s)"
proof (cases "s_registerCalled s \<and> 0 \<le> u - TGM_UNSOLICITED_BASE \<and> u - TGM_UNSOLICITED_BASE < int (length s_unsolResponses)")
  case False
  then have "TGM_onUnsolicitedResponse_lib X R on_loop now u d n s = Inr s" by (auto simp: TGM_onUnsolicitedResponse_lib_def Let_def)
  then show ?thesis using lib_keeps_refl[OF inv c] by simp
next
  case True
  obtain fn where fn: "s_unsolResponses ! nat (u - TGM_UNSOLICITED_BASE) = (u, fn, WAKE_PARTIAL)" "(u, fn, WAKE_PARTIAL) \<in> set s_unsolResponses"
    using unsol_entry[of u] True by blast
  define p1 where "p1 = writeInt32 X u (writeInt32 X RESPONSE_UNSOLICITED (parcel_new X))"
  obtain ret p2 where r: "responseFunction fn X d n p1 = Inr (ret, p2)" using fit fn(2) unfolding unsol_fits_def p1_def by force
  define p3 where "p3 = (if u = TGM_UNSOLICITED_RADIO_STATE_CHANGED then writeInt32 X (onStateRequest_of R (grabPartialWakeLock s)) p2 else p2)"
  define rest where "rest = (\<lambda>s2 :: 'm core. seqO (case s_last_wake_timeout_info s2 of None \<Rightarrow> Inr s2 | Some a \<Rightarrow> cancel_wake a s2) (\<lambda>s3.
      seqO (internalRequestTimedCallback on_loop now WakeTimeout 0 (Some TIMEVAL_WAKE_TIMEOUT) s3) (\<lambda>(a, s4).
        Inr (s4\<lparr>s_last_wake_timeout_info := Some a\<rparr>))))"
  have b: "base_inv s ts ps" and w: "wake_inv s ts ps" using c by (simp_all add: core_inv_def)
  have m: "\<not> s_writeMutex s" "requests_inv s" "\<forall>a \<ge> brk s. infos s a = None" using b by (simp_all add: base_inv_def memory_inv_def)
  have eq: "TGM_onUnsolicitedResponse_lib X R on_loop now u d n s =
      (if ret \<noteq> 0 then Inr (releaseWakeLock (grabPartialWakeLock s)) else seqO (sendResponse X p3 (grabPartialWakeLock s)) (\<lambda>(_, s2). rest s2))"
    using True by (simp add: TGM_onUnsolicitedResponse_lib_def fn(1) p1_def r[unfolded p1_def] p3_def rest_def Let_def)
  show ?thesis
  proof (cases "ret = 0")
    case False
    define s' where "s' = s\<lparr>wake_log := (wake_log s @ [True]) @ [False]\<rparr>"
    have req: "requests_inv s' = requests_inv s" by (simp add: requests_inv_def s'_def)
    have "base_inv s' ts ps" by (rule base_same[OF b]) (use m req in \<open>simp_all add: s'_def\<close>)
    moreover have "wake_timers s' A = wake_timers s A" for A by (rule timers_cong) (simp_all add: s'_def)
    then have "wake_inv s' ts ps" using w by (simp add: wake_inv_def lock_held_def) (simp add: s'_def)
    ultimately have "lib_keeps s ts ps s'" by (rule keeps_same[OF inv]) (simp_all add: s'_def)
    then show ?thesis using False by (simp add: eq releaseWakeLock_def grabPartialWakeLock_def s'_def)
  next
    case True
    have go: "outO safe (lib_keeps s ts ps) (rest (s\<lparr>wake_log := wake_log s @ [True], sent := out, writes := ws\<rparr>))" for out ws
    proof -
      define s1 where "s1 = s\<lparr>wake_log := wake_log s @ [True], sent := out, writes := ws\<rparr>"
      have same: "loop_inv s1 = loop_inv s" "watched s1 = watched s" "event_core s1 = event_core s"
        by (rule loop_same_fields; simp add: s1_def)+
      have req: "requests_inv s1 = requests_inv s" by (simp add: requests_inv_def s1_def)
      have "base_inv s1 ts ps" by (rule base_same[OF b]) (use m req in \<open>simp_all add: s1_def\<close>)
      moreover have "loop_inv s1 ts ps" using inv same by simp
      moreover have "wake_timers s1 A = wake_timers s A" for A by (rule timers_cong) (simp_all add: s1_def)
      then have "wake_timers s1 (set ts \<union> set ps)" using w by (simp add: wake_inv_def)
      ultimately have "outO safe (lib_keeps s1 ts ps) (rest s1)" unfolding rest_def by (intro scheduled_keeps)
      then show ?thesis unfolding s1_def[symmetric]
        by (rule outO_mono) (erule keeps_before[OF _ same(3) _ _ _ _ _ _ same(2)], simp_all add: s1_def)
    qed
    have "\<not> s_writeMutex (grabPartialWakeLock s)" using m(1) by (simp add: grabPartialWakeLock_def)
    then have "outO safe (\<lambda>(r, s'). \<exists>out ws. s' = (grabPartialWakeLock s)\<lparr>sent := out, writes := ws\<rparr>) (sendResponse X p3 (grabPartialWakeLock s))"
      unfolding sendResponse_def by (rule send_safe)
    then have "outO safe (lib_keeps s ts ps) (seqO (sendResponse X p3 (grabPartialWakeLock s)) (\<lambda>(_, s2). rest s2))"
      by (rule outO_seqO) (use go in \<open>auto simp: grabPartialWakeLock_def\<close>)
    then show ?thesis using True by (simp add: eq)
  qed
qed

lemma unsol_all:
  assumes "loop_inv s ts ps" "core_inv s ts ps"
  shows "allO (lib_keeps s ts ps) (TGM_onUnsolicitedResponse_lib X R on_loop now u d n s)"
proof (cases "unsol_fits X u d n")
  case True
  then show ?thesis by (rule outO_allO[OF unsol_keeps[OF assms]])
next
  case False
  then obtain e x where e: "e \<in> set s_unsolResponses" "fst e = u"
    "responseFunction (fst (snd e)) X d n (writeInt32 X u (writeInt32 X RESPONSE_UNSOLICITED (parcel_new X))) = Inl x"
    unfolding unsol_fits_def by (metis Inl_Inr_False sum.exhaust)
  then obtain i where i: "i < length s_unsolResponses" "s_unsolResponses ! i = e" by (metis in_set_conv_nth)
  then have "int i + TGM_UNSOLICITED_BASE = u" using self_check_ok e(2) by (auto simp: self_check_def)
  then have "nat (u - TGM_UNSOLICITED_BASE) = i" "0 \<le> u - TGM_UNSOLICITED_BASE" "u - TGM_UNSOLICITED_BASE < int (length s_unsolResponses)"
    using i(1) by auto
  then show ?thesis using e i lib_keeps_refl[OF assms] by (cases e) (auto simp: TGM_onUnsolicitedResponse_lib_def Let_def)
qed

text \<open>Without data every unsolicited response can be marshalled.\<close>

lemma null_fits: "unsol_fits X u Null 0"
  by (auto simp: unsol_fits_def s_unsolResponses_def responseVoid_def responseInts_def)

end
