(* ===== verification/Tgm_Callbacks.thy ===== *)
theory Tgm_Callbacks
  imports Tgm_Daemon
begin

text \<open>
  The callbacks of the daemon keep the invariant of \<open>Tgm_Daemon\<close>, so that the daemon is a client
  of the event loop: the interpretation of \<open>event_client\<close>. The states the daemon reaches are in
  \<open>Tgm_Reach\<close>.
\<close>

section \<open>What is assumed of the driver and of the client\<close>

text \<open>
  The driver acts only through the library, and its functions keep the invariant: the request it
  is given is pending, with the entry of the command table that its number selects.
\<close>

definition radio_ok :: "'m radio \<Rightarrow> bool" where
  "radio_ok R \<longleftrightarrow> (\<forall>s ts ps. loop_inv s ts ps \<longrightarrow> core_inv s ts ps \<longrightarrow>
     (\<forall>n d len a info. a \<in> set (s_pendingRequests s) \<longrightarrow> infos s a = Some info \<longrightarrow> pCI info = s_commands ! nat n \<longrightarrow>
        outO safe (lib_keeps s ts ps) (onRequest_of R n d len a s)) \<and>
     (\<forall>f p. outO safe (lib_keeps s ts ps) (timed_of R f p s)))"

text \<open>
  A record of the client: a number and a token, and for a request that takes strings a count of
  them that is -1 or not negative, with an array of at least one and that many pointers on the stack.
\<close>

definition takes_strings :: "int \<Rightarrow> bool" where
  "takes_strings q \<longleftrightarrow> q \<in> {TGM_REQUEST_SET_PDP_CONTEXT, TGM_REQUEST_SET_PIN_CODE, TGM_REQUEST_SET_PPPD_AUTH}"

definition record_ok :: "'p ext \<Rightarrow> byte list \<Rightarrow> bool" where
  "record_ok X r = (case readInt32 X (setData X r) of (request', p1) \<Rightarrow> case readInt32 X p1 of (token', p2) \<Rightarrow>
     token' = None \<or> (case request' of None \<Rightarrow> False | Some q \<Rightarrow> \<not> takes_strings q \<or>
       (case fst (readInt32 X p2) of None \<Rightarrow> True | Some c \<Rightarrow> c = -1 \<or> 0 \<le> c \<and> nat (max 1 c) * sizeof_ptr X \<le> stack_free X)))"

text \<open>Then its dispatch stays inside the stack: the arguments the driver gets, if it is called.\<close>

definition dispatch_args :: "'p ext \<Rightarrow> dispatch_fn \<Rightarrow> 'p \<Rightarrow> (c_data \<times> nat) option outcome" where
  "dispatch_args X fn p = dispatchFunction fn X (\<lambda>d n s. Inr (Some (d, n))) p None"

lemma table_dispatch:
  assumes "1 \<le> q" "q < int (length s_commands)"
  shows "ci_dispatchFunction (s_commands ! nat q) = (if takes_strings q then DispatchStrings else DispatchVoid)"
proof -
  have "q \<in> {1, 2, 3, 4, 5, 6, 7, 8} \<or> q \<in> {9, 10, 11, 12, 13, 14, 15, 16}" using assms by (simp add: s_commands_def) presburger
  then show ?thesis by (auto simp: s_commands_def command_def takes_strings_def request_codes)
qed

lemma record_dispatches:
  assumes "record_ok X r" "readInt32 X (setData X r) = (Some q, p1)" "readInt32 X p1 = (Some token, p2)" "1 \<le> q" "q < int (length s_commands)"
  shows "\<exists>x. dispatch_args X (ci_dispatchFunction (s_commands ! nat q)) p2 = Inr x"
proof (cases "takes_strings q")
  case False
  then show ?thesis by (simp add: table_dispatch[OF assms(4,5)] dispatch_args_def dispatchVoid_def)
next
  case True
  obtain c' p3 where c: "readInt32 X p2 = (c', p3)" by fastforce
  then show ?thesis using True assms(1)
    by (auto simp: table_dispatch[OF assms(4,5)] dispatch_args_def dispatchStrings_def record_ok_def assms(2,3) alloca_def split: option.split)
qed

definition client_ok :: "'p ext \<Rightarrow> stream_result list \<Rightarrow> bool" where
  "client_ok X rs \<longleftrightarrow> (\<forall>r. Record r \<in> set rs \<longrightarrow> record_ok X r)"

lemma dispatch_by_args:
  assumes "dispatch_args X fn p = Inr x"
  shows "dispatchFunction fn X call p s = (case x of None \<Rightarrow> Inr s | Some (d, n) \<Rightarrow> call d n s)"
  using assms
  by (cases fn) (auto simp: dispatch_args_def dispatchVoid_def dispatchString_def dispatchStrings_def dispatchInts_def dispatchRaw_def Let_def
      seqO_eq_Inr split: if_splits option.splits prod.splits)

section \<open>Fields\<close>

lemma more_fields:
  fixes s s' :: "'m core"
  assumes "loop.more s' = loop.more s"
  shows "s_registerCalled s' = s_registerCalled s" "infos s' = infos s" "s_pendingRequests s' = s_pendingRequests s"
    "user_callbacks s' = user_callbacks s" "s_last_wake_timeout_info s' = s_last_wake_timeout_info s" "brk s' = brk s" "s_fdListen s' = s_fdListen s"
    "s_fdCommand s' = s_fdCommand s" "s_fdWakeupRead s' = s_fdWakeupRead s" "s_writeMutex s' = s_writeMutex s" "accepts s' = accepts s"
    "stream s' = stream s" "wake_log s' = wake_log s" "sent s' = sent s"
  using assms by (cases s; cases s'; simp)+

text \<open>The parts of the invariant that the table of descriptors does not touch.\<close>

lemma rest_same:
  assumes "memory_inv s ts ps" "requests_inv s" "wake_inv s ts ps" "\<not> s_writeMutex s"
    and "event_core s' = event_core s" "infos s' = infos s" "s_pendingRequests s' = s_pendingRequests s" "user_callbacks s' = user_callbacks s"
      "s_last_wake_timeout_info s' = s_last_wake_timeout_info s" "brk s' = brk s" "s_writeMutex s' = s_writeMutex s" "wake_log s' = wake_log s"
  shows "memory_inv s' ts ps \<and> requests_inv s' \<and> wake_inv s' ts ps \<and> \<not> s_writeMutex s'"
proof -
  have "heap s' a = None \<longleftrightarrow> heap s a = None" for a by (rule same_core(1)) (simp add: assms(5))
  moreover have "is_event s' = is_event s" by (intro ext) (simp add: is_event_def assms(5))
  ultimately have "memory_inv s' ts ps = memory_inv s ts ps" by (simp only: memory_inv_def assms(6,8,10))
  moreover have "requests_inv s' = requests_inv s" by (simp only: requests_inv_def assms(6,7))
  ultimately show ?thesis using wake_cong[OF assms(9,8,12)] assms(1-4,11) by simp
qed

text \<open>A state that differs only in fields outside the invariant.\<close>

lemma core_cong:
  assumes "core_inv s ts ps" "heap s' = heap s" "readFds s' = readFds s" "nfds s' = nfds s" "watch_table s' = watch_table s" "locked s' = locked s"
    "s_registerCalled s' = s_registerCalled s" "s_fdListen s' = s_fdListen s" "s_fdCommand s' = s_fdCommand s"
    "s_fdWakeupRead s' = s_fdWakeupRead s" "accepts s' = accepts s" "s_writeMutex s' = s_writeMutex s"
    "user_callbacks s' = user_callbacks s" "brk s' = brk s" "infos s' = infos s" "s_pendingRequests s' = s_pendingRequests s"
    "s_last_wake_timeout_info s' = s_last_wake_timeout_info s" "wake_log s' = wake_log s"
  shows "core_inv s' ts ps"
proof -
  have b: "base_inv s ts ps" and w: "wake_inv s ts ps" using assms(1) by (simp_all add: core_inv_def)
  have "requests_inv s' = requests_inv s" by (simp only: requests_inv_def assms(15,16))
  then have "base_inv s' ts ps" using b by (intro base_same[OF b assms(2-12) _ assms(14)]) (simp_all add: base_inv_def memory_inv_def assms(13,15))
  then show ?thesis using wake_cong[OF assms(17,13,18)] w by (simp add: core_inv_def)
qed

section \<open>Requests of the client\<close>

lemma base_stream: "core_inv s ts ps \<Longrightarrow> core_inv (s\<lparr>stream := rs\<rparr>) ts ps"
  by (erule core_cong) simp_all

lemma loop_stream:
  fixes s :: "'m core"
  shows "loop_inv (s\<lparr>stream := rs\<rparr>) ts ps = loop_inv s ts ps"
  using loop_same_fields(1)[of "s\<lparr>stream := rs\<rparr>" s] by simp

lemma new_request_keeps:
  assumes inv: "loop_inv s ts ps" and c: "core_inv s ts ps" and ci: "pCI i \<in> set (tl s_commands)"
  shows "lib_keeps s ts ps (s\<lparr>brk := brk s + 1, infos := (infos s)(brk s \<mapsto> i), s_pendingRequests := brk s # s_pendingRequests s\<rparr>)"
    (is "lib_keeps s ts ps ?s'")
proof -
  define a where "a = brk s"
  define s' where "s' = ?s'"
  have same: "loop_inv s' = loop_inv s" "watched s' = watched s" "event_core s' = event_core s" "is_event s' = is_event s"
    by (rule loop_same_fields; simp add: s'_def)+
  have k: "conn_inv s ps" "events_inv s ps" "memory_inv s ts ps" "requests_inv s" "\<not> s_writeMutex s" "wake_inv s ts ps"
    using c by (simp_all add: core_inv_def base_inv_def)
  have f: "s_registerCalled s' = s_registerCalled s" "s_fdCommand s' = s_fdCommand s" "s_fdListen s' = s_fdListen s" "s_fdWakeupRead s' = s_fdWakeupRead s"
    "accepts s' = accepts s" "user_callbacks s' = user_callbacks s" "brk s' = a + 1" "heap s' = heap s" "s_writeMutex s' = s_writeMutex s"
    "infos s' = (infos s)(a \<mapsto> i)" "s_pendingRequests s' = a # s_pendingRequests s" "wake_log s' = wake_log s"
    "s_last_wake_timeout_info s' = s_last_wake_timeout_info s" "fired s' = fired s" "stream s' = stream s"
    by (simp_all add: s'_def a_def)
  have "conn_inv s' ps = conn_inv s ps" by (simp only: conn_inv_def same f)
  moreover have "events_inv s' ps = events_inv s ps" by (simp only: events_inv_def same f)
  moreover have "memory_inv s' ts ps"
  proof -
    have m: "5 \<le> a" "\<And>b. b \<ge> a \<Longrightarrow> heap s b = None \<and> infos s b = None"
      "\<And>b. b \<in> dom (user_callbacks s) \<Longrightarrow> 5 \<le> b \<and> b < a \<and> is_event s b (-1) False FN_userTimerCallback b"
      "set ts \<subseteq> dom (user_callbacks s)" "set ps \<subseteq> static_events \<union> dom (user_callbacks s)"
      using k(3) by (auto simp: memory_inv_def a_def)
    have "heap s b = None \<and> ((infos s)(a \<mapsto> i)) b = None" if "b \<ge> a + 1" for b using m(2)[of b] that by simp
    moreover have "b < a + 1" if "b \<in> dom (user_callbacks s)" for b using m(3)[OF that] by simp
    moreover have "5 \<le> a + 1" using m(1) by simp
    ultimately show ?thesis using m(3-5) unfolding memory_inv_def same f by blast
  qed
  moreover have "requests_inv s'"
  proof -
    have r: "distinct (s_pendingRequests s)" "dom (infos s) = set (s_pendingRequests s)" "\<And>b j. infos s b = Some j \<Longrightarrow> pCI j \<in> set (tl s_commands)"
      using k(4) by (auto simp: requests_inv_def)
    have "a \<notin> dom (infos s)" using k(3) by (auto simp: memory_inv_def a_def)
    then show ?thesis using r ci unfolding requests_inv_def f by auto
  qed
  moreover have "wake_inv s' ts ps = wake_inv s ts ps" by (rule wake_cong) (simp_all add: f)
  ultimately have "core_inv s' ts ps" using k by (simp add: core_inv_def base_inv_def f)
  then have "lib_keeps s ts ps s'" unfolding lib_keeps_def same f using inv by (auto simp: a_def)
  then show ?thesis by (simp add: s'_def)
qed

lemma buffer_keeps:
  fixes s :: "'m core"
  assumes inv: "loop_inv s ts ps" and c: "core_inv s ts ps" and R: "radio_ok R" and r: "record_ok X r" and reg: "s_registerCalled s"
  shows "outO safe (lib_keeps s ts ps) (processCommandBuffer X R r s)"
proof -
  obtain request' p1 token' p2 where p: "readInt32 X (setData X r) = (request', p1)" "readInt32 X p1 = (token', p2)" by (metis surj_pair)
  show ?thesis
  proof (cases "token' = None \<or> (\<exists>q. request' = Some q \<and> (q < 1 \<or> q \<ge> int (length s_commands)))")
    case True
    then have "processCommandBuffer X R r s = Inr s" by (auto simp: processCommandBuffer_def p split: option.split)
    then show ?thesis using lib_keeps_refl[OF inv c] by simp
  next
    case False
    then obtain token q where t: "token' = Some token" "request' = Some q" "1 \<le> q" "q < int (length s_commands)"
      using r by (cases request') (auto simp: record_ok_def p)
    define ci where "ci = s_commands ! nat q"
    define i where "i = \<lparr>ri_token = token, pCI = ci, cancelled = False, local = False\<rparr>"
    define s1 where "s1 = s\<lparr>brk := brk s + 1, infos := (infos s)(brk s \<mapsto> i), s_pendingRequests := brk s # s_pendingRequests s\<rparr>"
    obtain x where x: "dispatch_args X (ci_dispatchFunction ci) p2 = Inr x"
      using record_dispatches[OF r _ _ t(3,4)] p t(1,2) unfolding ci_def by blast
    have "nat q - 1 < length (tl s_commands)" "s_commands ! nat q = tl s_commands ! (nat q - 1)"
      using t(3,4) by (auto simp: nth_tl)
    then have "pCI i \<in> set (tl s_commands)" using nth_mem by (metis ci_def i_def RequestInfo.select_convs(2))
    then have k1: "lib_keeps s ts ps s1" unfolding s1_def by (rule new_request_keeps[OF inv c])
    have reg1: "s_registerCalled s1" using reg by (simp add: s1_def)
    have "processCommandBuffer X R r s = (case x of None \<Rightarrow> Inr s1 | Some (d, n) \<Rightarrow>
        (if s_registerCalled s1 then onRequest_of R (ci_requestNumber ci) d n (brk s) s1 else Inl Undef))"
      using t by (simp add: processCommandBuffer_def p Let_def ci_def[symmetric] i_def[symmetric] s1_def dispatch_by_args[OF x] split: option.split)
    moreover have "outO safe (lib_keeps s ts ps) (onRequest_of R (ci_requestNumber ci) d n (brk s) s1)" for d n
    proof -
      obtain ts1 where ts1: "loop_inv s1 ts1 ps" "core_inv s1 ts1 ps" using k1 by (auto simp: lib_keeps_def)
      have "outO safe (lib_keeps s1 ts2 ps) (onRequest_of R (ci_requestNumber ci) d n (brk s) s1)" if "loop_inv s1 ts2 ps" "core_inv s1 ts2 ps" for ts2
      proof -
        have "s_commands ! nat (ci_requestNumber ci) = ci" using t(3,4) self_check_ok unfolding self_check_def ci_def by (metis nat_int nat_less_iff order_trans zero_le_one)
        moreover have "brk s \<in> set (s_pendingRequests s1)" "infos s1 (brk s) = Some i" "pCI i = ci" by (simp_all add: s1_def i_def)
        ultimately show ?thesis using R that unfolding radio_ok_def by metis
      qed
      then show ?thesis using ts1 lib_keeps_trans[OF k1]
        by (cases "onRequest_of R (ci_requestNumber ci) d n (brk s) s1") auto
    qed
    ultimately show ?thesis using k1 reg1 by (auto split: option.split)
  qed
qed

text \<open>The loop over the records; the stream is consumed.\<close>

definition keeps_rest :: "'m core \<Rightarrow> addr list \<Rightarrow> addr list \<Rightarrow> 'm core \<Rightarrow> bool" where
  "keeps_rest s ts ps s' \<longleftrightarrow> lib_keeps (s\<lparr>stream := stream s'\<rparr>) ts ps s' \<and> set (stream s') \<subseteq> set (stream s)"

lemma keeps_stream:
  fixes s :: "'m core"
  shows "lib_keeps (s\<lparr>stream := rs\<rparr>) ts ps s' \<longleftrightarrow> stream s' = rs \<and> lib_keeps (s\<lparr>stream := stream s'\<rparr>) ts ps s'"
proof -
  have "event_core (s\<lparr>stream := rs\<rparr>) = event_core s" "watched (s\<lparr>stream := rs\<rparr>) = watched s" for rs
    by (rule loop_same_fields; simp)+
  then show ?thesis unfolding lib_keeps_def by auto
qed

lemma keeps_both:
  fixes s :: "'m core"
  assumes "lib_keeps s ts ps s'"
  shows "lib_keeps (s\<lparr>stream := rs\<rparr>) ts ps (s'\<lparr>stream := rs\<rparr>)"
proof -
  have e: "event_core (s\<lparr>stream := rs\<rparr>) = event_core s" "watched (s\<lparr>stream := rs\<rparr>) = watched s" for s :: "'m core"
    by (rule loop_same_fields; simp)+
  obtain ts' where "loop_inv s' ts' ps" "core_inv s' ts' ps" "set ts' \<subseteq> set ts \<union> {brk s..}" using assms by (auto simp: lib_keeps_def)
  moreover from this have "loop_inv (s'\<lparr>stream := rs\<rparr>) ts' ps" "core_inv (s'\<lparr>stream := rs\<rparr>) ts' ps" by (simp_all add: loop_stream base_stream)
  ultimately show ?thesis using assms unfolding lib_keeps_def e by auto
qed

lemma rest_trans:
  fixes s :: "'m core"
  assumes 1: "lib_keeps (s\<lparr>stream := rs\<rparr>) ts ps s1" and s: "set rs \<subseteq> set (stream s)" and
    2: "\<And>ts1. loop_inv s1 ts1 ps \<Longrightarrow> core_inv s1 ts1 ps \<Longrightarrow> keeps_rest s1 ts1 ps s2"
  shows "keeps_rest s ts ps s2"
proof -
  have st: "stream s1 = rs" using 1 by (simp add: lib_keeps_def)
  have "lib_keeps (s\<lparr>stream := stream s2\<rparr>) ts ps (s1\<lparr>stream := stream s2\<rparr>)" using keeps_both[OF 1, of "stream s2"] by simp
  moreover have "lib_keeps (s1\<lparr>stream := stream s2\<rparr>) ts1 ps s2"
    if "loop_inv (s1\<lparr>stream := stream s2\<rparr>) ts1 ps" "core_inv (s1\<lparr>stream := stream s2\<rparr>) ts1 ps" for ts1
    using 2[of ts1] that base_stream[OF that(2), of "stream s1"] by (simp add: loop_stream keeps_rest_def)
  ultimately have "lib_keeps (s\<lparr>stream := stream s2\<rparr>) ts ps s2" by (rule lib_keeps_trans)
  moreover obtain ts1 where "loop_inv s1 ts1 ps" "core_inv s1 ts1 ps" using 1 by (auto simp: lib_keeps_def)
  then have "set (stream s2) \<subseteq> set rs" using 2 st by (auto simp: keeps_rest_def)
  ultimately show ?thesis using s by (auto simp: keeps_rest_def)
qed

lemma records_keep:
  fixes s :: "'m core"
  assumes "loop_inv s ts ps" "core_inv s ts ps" "radio_ok R" "client_ok X rs" "s_registerCalled s" "stream s = rs"
  shows "outO safe (\<lambda>(eof, s'). keeps_rest s ts ps s') (process_records X R rs s)"
  using assms
proof (induction X R rs s arbitrary: ts rule: process_records.induct)
  case (2 X R r rs s)
  define s0 where "s0 = s\<lparr>stream := rs\<rparr>"
  have i0: "loop_inv s0 ts ps" "core_inv s0 ts ps" "s_registerCalled s0" using "2.prems" by (simp_all add: s0_def loop_stream base_stream)
  have ok: "record_ok X r" "client_ok X rs" using "2.prems"(4) by (auto simp: client_ok_def)
  have 1: "outO safe (lib_keeps s0 ts ps) (processCommandBuffer X R r s0)" by (rule buffer_keeps[OF i0(1,2) "2.prems"(3) ok(1) i0(3)])
  have "outO safe (\<lambda>(eof, s'). keeps_rest s ts ps s') (process_records X R rs s1)" if s1: "processCommandBuffer X R r (s\<lparr>stream := rs\<rparr>) = Inr s1" for s1
  proof -
    have k: "lib_keeps s0 ts ps s1" using 1 s1 by (simp add: s0_def)
    have f: "s_registerCalled s1" "stream s1 = rs" using k i0(3) by (auto simp: lib_keeps_def s0_def)
    have IH: "outO safe (\<lambda>(eof, s'). keeps_rest s1 ts1 ps s') (process_records X R rs s1)" if "loop_inv s1 ts1 ps" "core_inv s1 ts1 ps" for ts1
      by (rule "2.IH"[OF s1 that "2.prems"(3) ok(2) f])
    obtain ts1 where "loop_inv s1 ts1 ps" "core_inv s1 ts1 ps" using k by (auto simp: lib_keeps_def)
    note IH1 = IH[OF this]
    have "keeps_rest s ts ps s2" if "process_records X R rs s1 = Inr (eof, s2)" for eof s2
      by (rule rest_trans[OF k[unfolded s0_def]]) (use IH that "2.prems"(6) in auto)
    then show ?thesis using IH1 by (cases "process_records X R rs s1") auto
  qed
  then show ?case using 1 by (cases "processCommandBuffer X R r (s\<lparr>stream := rs\<rparr>)") (simp_all add: s0_def)
qed (auto simp: keeps_rest_def loop_stream intro!: lib_keeps_refl base_stream)

section \<open>The connection\<close>

text \<open>What a callback that was taken off the pending list guarantees.\<close>

definition cb_keeps :: "'m core \<Rightarrow> addr list \<Rightarrow> 'm core \<Rightarrow> bool" where
  "cb_keeps s ps s' \<longleftrightarrow> (\<exists>ts'. loop_inv s' ts' ps \<and> core_inv s' ts' ps) \<and> fired s' = fired s \<and>
     (\<forall>b \<in> set ps. event_core s' b = event_core s b) \<and> set (stream s') \<subseteq> set (stream s)"

lemma pending_below: "memory_inv s ts ps \<Longrightarrow> a \<in> set ps \<Longrightarrow> a < brk s"
  by (fastforce simp: memory_inv_def static_events_def s_listen_event_def s_commands_event_def s_wakeupfd_event_def)

lemma keepsD:
  assumes "lib_keeps s ts ps s'"
  shows "\<exists>ts'. loop_inv s' ts' ps \<and> core_inv s' ts' ps" "fired s' = fired s" "stream s' = stream s" "brk s \<le> brk s'" "a < brk s \<Longrightarrow> event_core s' a = event_core s a"
    "a < brk s \<Longrightarrow> map_option p_callback (user_callbacks s' a) = map_option p_callback (user_callbacks s a)"
    "s_fdCommand s' = s_fdCommand s" "s_registerCalled s' = s_registerCalled s"
  using assms by (auto simp: lib_keeps_def)

lemma lib_cb:
  assumes "lib_keeps s ts ps s'" "memory_inv s ts ps"
  shows "cb_keeps s ps s'"
proof -
  have "event_core s' b = event_core s b" if "b \<in> set ps" for b using keepsD(5)[OF assms(1)] pending_below[OF assms(2) that] .
  then show ?thesis using keepsD(1-3)[OF assms(1)] by (simp add: cb_keeps_def)
qed

text \<open>Static addresses.\<close>

lemma statics [simp]:
  "s_listen_event \<noteq> s_commands_event" "s_commands_event \<noteq> s_listen_event" "s_listen_event \<noteq> s_wakeupfd_event" "s_wakeupfd_event \<noteq> s_listen_event"
  "s_commands_event \<noteq> s_wakeupfd_event" "s_wakeupfd_event \<noteq> s_commands_event"
  by (simp_all add: s_listen_event_def s_commands_event_def s_wakeupfd_event_def)

lemma static_low: "a \<in> static_events \<Longrightarrow> 2 \<le> a \<and> a < 5"
  by (auto simp: static_events_def s_listen_event_def s_commands_event_def s_wakeupfd_event_def)

text \<open>No static event is a timer, and with three of them the table has room.\<close>

lemma static_new:
  assumes "memory_inv s ts ps" "a \<in> static_events"
  shows "a \<notin> {timer_list, pending_list} \<union> set ts"
proof -
  have "5 \<le> b" if "b \<in> set ts" for b using assms(1) that unfolding memory_inv_def by blast
  then show ?thesis using static_low[OF assms(2)] by (fastforce simp: timer_list_def pending_list_def)
qed

lemma table_room:
  assumes "watch_inv s" "set (watched s) \<subseteq> static_events"
  shows "None \<in> set (watch_table s)"
proof (rule ccontr)
  assume "None \<notin> set (watch_table s)"
  then have "length (somes ws) = length ws" if "set ws \<subseteq> set (watch_table s)" for ws using that by (induction ws rule: somes.induct) auto
  then have "length (watched s) = MAX_FD_EVENTS" using assms(1) by (simp add: watched_def watch_inv_def)
  moreover have "length (watched s) = card (set (watched s))" using watched_distinct[OF assms(1)] by (simp add: distinct_card)
  moreover have "card (set (watched s)) \<le> card static_events" using assms(2) by (rule card_mono[rotated]) (simp add: static_events_def)
  moreover have "card static_events \<le> 3" by (simp add: static_events_def card_insert_if)
  ultimately show False by (simp add: MAX_FD_EVENTS_def)
qed

lemma is_event_alloc: "is_event s a fd p fn q \<Longrightarrow> \<exists>e. heap s a = Some e \<and> ev_fd e = fd \<and> ev_persist e = p \<and> ev_func e = fn \<and> ev_param e = q"
  by (auto simp: is_event_def event_core_def)

lemma is_event_fd: "is_event s a fd p fn q \<Longrightarrow> fd_of s a = fd \<and> persistent s a = p"
  by (auto dest!: is_event_alloc simp: fd_of_def persistent_def)

text \<open>The event that was taken off the list is not missed.\<close>

lemma less_pending:
  "memory_inv s ts (a # ps) \<Longrightarrow> memory_inv s ts ps"
  "a \<noteq> s_listen_event \<Longrightarrow> a \<notin> set ps \<Longrightarrow> conn_inv s (a # ps) \<Longrightarrow> conn_inv s ps"
  "events_inv s (a # ps) \<Longrightarrow> events_inv s ps"
  unfolding memory_inv_def conn_inv_def events_inv_def by (auto split: if_splits)

lemma wake_static: "wake_inv s ts (a # ps) \<Longrightarrow> memory_inv s ts ps \<Longrightarrow> a \<in> static_events \<Longrightarrow> wake_inv s ts ps"
  using static_low[of a] unfolding wake_inv_def wake_timers_def memory_inv_def
  by (metis (no_types, lifting) Un_iff domI linorder_not_less list.set_intros(2) set_ConsD)

lemma listening:
  assumes "core_inv s ts (s_listen_event # ps)" "s_listen_event \<notin> set ps"
  shows "s_registerCalled s" "s_fdCommand s < 0" "s_listen_event \<notin> set (watched s)" "s_commands_event \<notin> set (watched s) \<union> set ps"
    "set (watched s) \<subseteq> {s_wakeupfd_event}" "is_event s s_listen_event (s_fdListen s) False FN_listenCallback 0"
    "memory_inv s ts ps" "wake_inv s ts ps" "requests_inv s" "\<not> s_writeMutex s" "events_inv s ps"
proof -
  have c: "conn_inv s (s_listen_event # ps)" "events_inv s (s_listen_event # ps)" "memory_inv s ts (s_listen_event # ps)"
    "wake_inv s ts (s_listen_event # ps)" "requests_inv s" "\<not> s_writeMutex s"
    using assms(1) by (simp_all add: core_inv_def base_inv_def)
  show r: "s_registerCalled s" "s_fdCommand s < 0" "s_listen_event \<notin> set (watched s)" "s_commands_event \<notin> set (watched s) \<union> set ps"
    using c(1) by (auto simp: conn_inv_def split: if_splits)
  show "set (watched s) \<subseteq> {s_wakeupfd_event}" using c(1) r(3,4) by (auto simp: conn_inv_def static_events_def)
  show "is_event s s_listen_event (s_fdListen s) False FN_listenCallback 0" using c(2) r(1) by (simp add: events_inv_def)
  show m: "memory_inv s ts ps" "events_inv s ps" using less_pending c(2,3) by blast+
  show "wake_inv s ts ps" using wake_static[OF c(4) m(1)] by (simp add: static_events_def)
  show "requests_inv s" "\<not> s_writeMutex s" by fact+
qed

lemma read_wakeup:
  assumes "watch_inv s" "set (watched s) \<subseteq> {s_wakeupfd_event}" "events_inv s ps"
  shows "set (readFds s) \<subseteq> {s_fdWakeupRead s}"
proof -
  have "fd_of s a = s_fdWakeupRead s" if "a \<in> set (watched s)" for a
    using assms(2,3) that is_event_fd[of s s_wakeupfd_event] by (auto simp: events_inv_def)
  then show ?thesis using assms(1) by (auto simp: watch_inv_def)
qed

lemma watch_static:
  fixes s :: "'m core"
  assumes inv: "loop_inv s ts ps" and m: "memory_inv s ts ps" and ev: "events_inv s ps" and w: "set (watched s) \<subseteq> {s_wakeupfd_event}"
    and a: "a \<in> static_events" "is_event s a fd p fn q" "fd \<noteq> s_fdWakeupRead s" "a \<noteq> s_wakeupfd_event"
  shows "\<exists>s'. tgmEventAddWakeup True a s = Inr s' \<and> loop_inv s' ts ps \<and> fired s' = fired s \<and> event_core s' = event_core s \<and>
    loop.more s' = loop.more s \<and> set (watched s') = insert a (set (watched s))"
proof -
  obtain e where e: "heap s a = Some e" "ev_fd e = fd" using is_event_alloc[OF a(2)] by blast
  have wi: "watch_inv s" using inv by (simp add: loop_inv_def)
  have "set (watched s) \<subseteq> static_events" using w by (auto simp: static_events_def)
  note room = table_room[OF wi this]
  have "ev_fd e \<notin> set (readFds s)" using read_wakeup[OF wi w ev] e(2) a(3) by auto
  moreover have "a \<notin> set (watched s)" using w a(4) by auto
  ultimately show ?thesis using add_inv[OF inv e(1) static_new[OF m a(1)]] room by (auto simp: tgmEventAddWakeup_def triggerEvLoop_def)
qed

lemma listen_again:
  fixes s :: "'m core"
  assumes inv: "loop_inv s ts ps" and m: "memory_inv s ts ps" "events_inv s ps" "wake_inv s ts ps" "requests_inv s" "\<not> s_writeMutex s"
    and w: "set (watched s) \<subseteq> {s_wakeupfd_event}" "s_registerCalled s" "s_fdCommand s < 0" "s_listen_event \<notin> set ps" "s_commands_event \<notin> set ps"
  shows "\<exists>s'. tgmEventAddWakeup True s_listen_event s = Inr s' \<and> loop_inv s' ts ps \<and> core_inv s' ts ps \<and> fired s' = fired s \<and>
    event_core s' = event_core s \<and> loop.more s' = loop.more s"
proof -
  have l: "is_event s s_listen_event (s_fdListen s) False FN_listenCallback 0" "s_fdListen s \<noteq> s_fdWakeupRead s"
    using m(2) w(2) by (simp_all add: events_inv_def)
  have "s_listen_event \<in> static_events" by (simp add: static_events_def)
  then obtain s' where s': "tgmEventAddWakeup True s_listen_event s = Inr s'" "loop_inv s' ts ps" "fired s' = fired s" "event_core s' = event_core s"
    "loop.more s' = loop.more s" "set (watched s') = insert s_listen_event (set (watched s))"
    using watch_static[OF inv m(1,2) w(1) _ l] by auto
  note f = more_fields[OF s'(5)]
  have ie: "is_event s' = is_event s" by (intro ext) (simp add: is_event_def s'(4))
  have "conn_inv s' ps" using w unfolding conn_inv_def f s'(6) by (auto simp: static_events_def)
  moreover have "events_inv s' ps" using m(2) w(1,5) unfolding events_inv_def f s'(6) ie by auto
  moreover have "memory_inv s' ts ps \<and> requests_inv s' \<and> wake_inv s' ts ps \<and> \<not> s_writeMutex s'"
    by (rule rest_same[OF m(1,4,3,5) s'(4)]) (simp_all add: f)
  ultimately have "core_inv s' ts ps" by (simp add: core_inv_def base_inv_def)
  then show ?thesis using s' by blast
qed

lemma connect_keeps:
  fixes s :: "'m core"
  assumes "loop_inv s ts ps" "core_inv s ts ps"
  shows "outO safe (lib_keeps s ts ps) (onNewCommandConnect X R now s)"
proof -
  have fit: "unsol_fits X TGM_UNSOLICITED_RADIO_STATE_CHANGED Null 0"
    by (simp add: unsol_fits_def s_unsolResponses_def responseVoid_def TGM_UNSOLICITED_RADIO_STATE_CHANGED_def TGM_UNSOLICITED_SIGNAL_STRENGTH_def)
  have "lib_keeps s ts ps (s1\<lparr>props := p\<rparr>)" if k: "lib_keeps s ts ps s1" for s1 p
  proof -
    have e: "loop_inv (s1\<lparr>props := p\<rparr>) = loop_inv s1" "event_core (s1\<lparr>props := p\<rparr>) = event_core s1" "watched (s1\<lparr>props := p\<rparr>) = watched s1"
      by (rule loop_same_fields; simp)+
    have "core_inv (s1\<lparr>props := p\<rparr>) ts1 ps" if "core_inv s1 ts1 ps" for ts1 by (rule core_cong[OF that]) simp_all
    then show ?thesis using k unfolding lib_keeps_def e by auto
  qed
  then show ?thesis unfolding onNewCommandConnect_def by (intro outO_seqO[OF unsol_keeps[OF assms fit]]) simp
qed

lemma memory_set:
  assumes "memory_inv s ts ps" "a \<in> static_events" "s' = tgm_event_set a fd p fn q s"
  shows "memory_inv s' ts ps" "b \<noteq> a \<Longrightarrow> event_core s' b = event_core s b" "is_event s' a fd p fn q" "watched s' = watched s" "loop.more s' = loop.more s"
proof -
  show core: "event_core s' b = event_core s b" if "b \<noteq> a" for b using that by (simp add: assms(3) tgm_event_set_def event_core_def)
  show "is_event s' a fd p fn q" by (simp add: assms(3) tgm_event_set_def is_event_def event_core_def empty_event_def)
  show "watched s' = watched s" by (simp add: assms(3) tgm_event_set_def watched_def)
  show more: "loop.more s' = loop.more s" by (simp add: assms(3) tgm_event_set_def)
  have low: "a < 5" using static_low[OF assms(2)] by simp
  have m: "5 \<le> brk s" "\<And>b. b \<ge> brk s \<Longrightarrow> heap s b = None \<and> infos s b = None"
    "\<And>b. b \<in> dom (user_callbacks s) \<Longrightarrow> 5 \<le> b \<and> b < brk s \<and> is_event s b (-1) False FN_userTimerCallback b"
    "set ts \<subseteq> dom (user_callbacks s)" "set ps \<subseteq> static_events \<union> dom (user_callbacks s)"
    using assms(1) unfolding memory_inv_def by blast+
  have "heap s' b = heap s b" if "b \<ge> 5" for b using that low by (simp add: assms(3) tgm_event_set_def)
  moreover have "is_event s' b (-1) False FN_userTimerCallback b" if "b \<in> dom (user_callbacks s)" for b
  proof -
    have "b \<noteq> a" using m(3)[OF that] low by auto
    then show ?thesis using m(3)[OF that] is_event_core[OF core] by simp
  qed
  ultimately show "memory_inv s' ts ps" using m unfolding memory_inv_def more_fields[OF more] by auto
qed

lemma accept_keeps:
  fixes s :: "'m core"
  assumes inv: "loop_inv s ts ps" and c: "core_inv s ts (s_listen_event # ps)" "s_listen_event \<notin> set ps" and r: "accepts s = r # rs" "r \<ge> 0"
  shows "\<exists>s'. tgmEventAddWakeup True s_commands_event (tgm_event_set s_commands_event r True FN_processCommandsCallback 0
        (s\<lparr>accepts := rs, s_fdCommand := r, sent := []\<rparr>)) = Inr s' \<and>
    loop_inv s' ts ps \<and> core_inv s' ts ps \<and> fired s' = fired s \<and> (\<forall>b. b \<noteq> s_commands_event \<longrightarrow> event_core s' b = event_core s b) \<and>
    s_fdCommand s' = r \<and> stream s' = stream s"
proof -
  note l = listening[OF c]
  define s1 where "s1 = s\<lparr>accepts := rs, s_fdCommand := r, sent := []\<rparr>"
  define s2 where "s2 = tgm_event_set s_commands_event r True FN_processCommandsCallback 0 s1"
  have st: "s_commands_event \<in> static_events" by (simp add: static_events_def)
  have same: "loop_inv s1 = loop_inv s" "watched s1 = watched s" "event_core s1 = event_core s" "is_event s1 = is_event s"
    by (rule loop_same_fields; simp add: s1_def)+
  have "memory_inv s1 ts ps" by (rule conjunct1[OF rest_same[OF l(7,9,8,10) same(3)]]) (simp_all add: s1_def)
  note m = memory_set[OF this st s2_def]
  note f = more_fields[OF m(5)]
  have fds: "s_fdListen s \<noteq> s_fdWakeupRead s" "r \<noteq> s_fdListen s" "r \<noteq> s_fdWakeupRead s"
    "\<And>fd. fd \<in> set rs \<Longrightarrow> fd \<ge> 0 \<Longrightarrow> fd \<noteq> s_fdListen s \<and> fd \<noteq> s_fdWakeupRead s"
    using l(11,1) r by (auto simp: events_inv_def)
  have new: "s_commands_event \<notin> {timer_list, pending_list} \<union> set ts \<union> set ps" using static_new[OF l(7) st] l(4) by auto
  have inv2: "loop_inv s2 ts ps" unfolding s2_def by (rule set_inv) (use new inv same l(4) in auto)
  have ie: "is_event s2 b = is_event s b" if "b \<noteq> s_commands_event" for b
    using is_event_core[OF m(2)[OF that]] by (simp add: same)
  have v: "s_registerCalled s1" "s_fdListen s1 = s_fdListen s" "s_fdWakeupRead s1 = s_fdWakeupRead s" "s_fdCommand s1 = r" "accepts s1 = rs"
    "\<not> s_writeMutex s1" "stream s1 = stream s" using l(1,10) by (simp_all add: s1_def)
  have w: "s_wakeupfd_event \<in> set (watched s) \<union> set ps \<longrightarrow> is_event s s_wakeupfd_event (s_fdWakeupRead s) True FN_processWakeupCallback 0"
    using l(11) by (simp add: events_inv_def)
  have ev: "events_inv s2 ps" unfolding events_inv_def f v m(4) same ie[OF statics(1)] ie[OF statics(6)] using w l(6,4) fds r by auto
  have wt: "set (watched s2) \<subseteq> {s_wakeupfd_event}" using l(5) m(4) same by simp
  have rw: "r \<noteq> s_fdWakeupRead s2" using fds f v by simp
  obtain s' where s': "tgmEventAddWakeup True s_commands_event s2 = Inr s'" "loop_inv s' ts ps" "fired s' = fired s2" "event_core s' = event_core s2"
    "loop.more s' = loop.more s2" "set (watched s') = insert s_commands_event (set (watched s2))"
    using watch_static[OF inv2 m(1) ev wt st m(3) rw statics(5)] by blast
  note f' = more_fields[OF s'(5)]
  have ie': "is_event s' = is_event s2" by (intro ext) (simp add: is_event_def s'(4))
  have "conn_inv s' ps" using l(3,5) c(2) r(2) v(1) unfolding conn_inv_def f' f v s'(6) m(4) same by (auto simp: static_events_def)
  moreover have "events_inv s' ps" using ev m(3) wt unfolding events_inv_def f' f v s'(6) ie' by auto
  moreover have "memory_inv s' ts ps \<and> requests_inv s' \<and> wake_inv s' ts ps \<and> \<not> s_writeMutex s'"
  proof (rule rest_same[OF m(1) _ _ _ s'(4)])
    show "requests_inv s2" using l(9) by (simp add: requests_inv_def f) (simp add: s1_def)
    show "wake_inv s2 ts ps" by (subst wake_cong[of _ s]) (simp_all add: f l(8), simp_all add: s1_def)
  qed (simp_all add: f' f v)
  ultimately have "core_inv s' ts ps" by (simp add: core_inv_def base_inv_def)
  moreover have "event_core s' b = event_core s b" if "b \<noteq> s_commands_event" for b using m(2)[OF that] by (simp add: s'(4) same)
  moreover have "fired s' = fired s" using s'(3) by (simp add: s2_def tgm_event_set_def s1_def)
  ultimately show ?thesis using s'(1,2) f' f v unfolding s2_def s1_def by auto
qed

lemma listen_keeps:
  fixes s :: "'m core"
  assumes inv: "loop_inv s ts ps" and c: "core_inv s ts (s_listen_event # ps)" "s_listen_event \<notin> set ps"
  shows "outO safe (cb_keeps s ps) (listenCallback X R now (s_fdListen s) s)"
proof (cases "accepts s")
  case Nil
  then show ?thesis using listening(2)[OF c] by (simp add: listenCallback_def)
next
  case (Cons r rs)
  note l = listening[OF c]
  show ?thesis
  proof (cases "r < 0")
    case True
    define s1 where "s1 = s\<lparr>accepts := rs, s_fdCommand := r\<rparr>"
    have same: "loop_inv s1 = loop_inv s" "watched s1 = watched s" "event_core s1 = event_core s" "is_event s1 = is_event s"
      by (rule loop_same_fields; simp add: s1_def)+
    have "memory_inv s1 ts ps \<and> requests_inv s1 \<and> wake_inv s1 ts ps \<and> \<not> s_writeMutex s1"
      by (rule rest_same[OF l(7,9,8,10) same(3)]) (simp_all add: s1_def)
    moreover have "events_inv s1 ps" using l(11,4) True Cons unfolding events_inv_def same by (auto simp: s1_def)
    ultimately obtain s' where s': "tgmEventAddWakeup True s_listen_event s1 = Inr s'" "loop_inv s' ts ps" "core_inv s' ts ps" "fired s' = fired s1"
      "event_core s' = event_core s1" "loop.more s' = loop.more s1"
      using listen_again[of s1 ts ps] inv l(1,4,5) c(2) True by (auto simp: same) (auto simp: s1_def)
    have "cb_keeps s ps s'" using s' more_fields(12)[OF s'(6)] by (auto simp: cb_keeps_def same) (simp_all add: s1_def)
    then show ?thesis using l(2) Cons True s'(1) by (simp add: listenCallback_def s1_def)
  next
    case False
    obtain s' where s': "tgmEventAddWakeup True s_commands_event (tgm_event_set s_commands_event r True FN_processCommandsCallback 0
        (s\<lparr>accepts := rs, s_fdCommand := r, sent := []\<rparr>)) = Inr s'" "loop_inv s' ts ps" "core_inv s' ts ps" "fired s' = fired s"
      "\<And>b. b \<noteq> s_commands_event \<Longrightarrow> event_core s' b = event_core s b" "stream s' = stream s"
      using accept_keeps[OF inv c Cons] False by auto
    have m: "memory_inv s' ts ps" using s'(3) by (simp add: core_inv_def base_inv_def)
    have "cb_keeps s ps s2" if "lib_keeps s' ts ps s2" for s2
    proof -
      have k: "cb_keeps s' ps s2" by (rule lib_cb[OF that m])
      have "event_core s2 b = event_core s b" if "b \<in> set ps" for b
        using k that s'(5)[of b] l(4) by (auto simp: cb_keeps_def)
      then show ?thesis using k s'(4,6) by (simp add: cb_keeps_def)
    qed
    then have "outO safe (cb_keeps s ps) (onNewCommandConnect X R now s')" by (rule outO_mono[OF connect_keeps[OF s'(2,3)]])
    then show ?thesis using l(2) Cons False s'(1) by (simp add: listenCallback_def Let_def)
  qed
qed

text \<open>The socket is closed: its event goes, the listening event comes back, and the requests are marked.\<close>

lemma marked_keeps:
  assumes inv: "loop_inv s ts ps" and c: "core_inv s ts ps"
  shows "\<exists>s'. onCommandsSocketClosed s = Inr s' \<and> loop_inv s' ts ps \<and> core_inv s' ts ps \<and> fired s' = fired s \<and> event_core s' = event_core s \<and> stream s' = stream s"
proof -
  define i where "i = (\<lambda>a. if a \<in> set (s_pendingRequests s) then map_option (\<lambda>i. i\<lparr>cancelled := True\<rparr>) (infos s a) else infos s a)"
  define s' where "s' = s\<lparr>infos := i\<rparr>"
  have b: "base_inv s ts ps" "wake_inv s ts ps" "requests_inv s" "\<forall>a \<ge> brk s. infos s a = None"
    using c by (simp_all add: core_inv_def base_inv_def memory_inv_def)
  have r: "distinct (s_pendingRequests s)" "dom (infos s) = set (s_pendingRequests s)" "\<And>b j. infos s b = Some j \<Longrightarrow> pCI j \<in> set (tl s_commands)"
    using b(3) by (auto simp: requests_inv_def)
  have "infos s a \<noteq> None" if "a \<in> set (s_pendingRequests s)" for a using r(2) that by blast
  then have "onCommandsSocketClosed s = Inr s'" unfolding onCommandsSocketClosed_def s'_def i_def by (intro mark_effect) blast
  moreover have same: "loop_inv s' = loop_inv s" "event_core s' = event_core s" by (rule loop_same_fields; simp add: s'_def)+
  moreover have "core_inv s' ts ps"
  proof -
    have "dom i = dom (infos s)" by (auto simp: i_def split: if_splits)
    moreover have "pCI j \<in> set (tl s_commands)" if "i a = Some j" for a j using that r(3) by (auto simp: i_def split: if_splits)
    ultimately have "requests_inv s'" using r unfolding requests_inv_def s'_def by auto
    moreover have "\<forall>a \<ge> brk s. infos s' a = None" using b(4) by (simp add: s'_def i_def)
    ultimately have "base_inv s' ts ps" by (intro base_same[OF b(1)]) (simp_all add: s'_def)
    moreover have "wake_inv s' ts ps" by (subst wake_cong[of _ s]) (simp_all add: s'_def b(2))
    ultimately show ?thesis by (simp add: core_inv_def)
  qed
  ultimately show ?thesis using inv by (auto simp: s'_def)
qed

lemma close_keeps:
  fixes s :: "'m core"
  assumes inv: "loop_inv s ts ps" and c: "core_inv s ts ps" and reg: "s_registerCalled s" "s_fdCommand s \<ge> 0" "s_commands_event \<notin> set ps"
  shows "\<exists>s'. close_commands s = Inr s' \<and> cb_keeps s ps s'"
proof -
  have k: "conn_inv s ps" "events_inv s ps" "memory_inv s ts ps" "requests_inv s" "\<not> s_writeMutex s" "wake_inv s ts ps"
    using c by (simp_all add: core_inv_def base_inv_def)
  have w: "s_commands_event \<in> set (watched s)" "s_listen_event \<notin> set (watched s) \<union> set ps" "set (watched s) \<subseteq> static_events"
    using k(1) reg by (auto simp: conn_inv_def)
  define s0 where "s0 = s\<lparr>s_fdCommand := -1\<rparr>"
  have same: "loop_inv s0 = loop_inv s" "watched s0 = watched s" "event_core s0 = event_core s" by (rule loop_same_fields; simp add: s0_def)+
  obtain s1 where s1: "tgm_event_del s_commands_event s0 = Inr s1" "loop_inv s1 ts ps" "fired s1 = fired s0" "event_core s1 = event_core s0"
    "set (watched s1) = set (watched s0) - {s_commands_event}" "loop.more s1 = loop.more s0"
    using del_inv[of s0 ts ps s_commands_event] inv w(1) by (auto simp: same)
  note f = more_fields[OF s1(6)]
  have v: "s_registerCalled s0" "s_fdCommand s0 = -1" "s_fdListen s0 = s_fdListen s" "s_fdWakeupRead s0 = s_fdWakeupRead s" "accepts s0 = accepts s"
    "stream s0 = stream s" "fired s0 = fired s" using reg(1) by (simp_all add: s0_def)
  have ie: "is_event s1 = is_event s" by (intro ext) (simp add: is_event_def s1(4) same)
  have m: "memory_inv s1 ts ps \<and> requests_inv s1 \<and> wake_inv s1 ts ps \<and> \<not> s_writeMutex s1"
    by (rule rest_same[OF k(3,4,6,5)]) (simp_all add: f s1(4) same, simp_all add: s0_def)
  have wt: "set (watched s1) \<subseteq> {s_wakeupfd_event}" using w by (auto simp: s1(5) same static_events_def)
  have "events_inv s1 ps" using k(2) reg(1,3) wt w(3) unfolding events_inv_def f v ie s1(5) same by auto
  then obtain s2 where s2: "tgmEventAddWakeup True s_listen_event s1 = Inr s2" "loop_inv s2 ts ps" "core_inv s2 ts ps" "fired s2 = fired s1"
    "event_core s2 = event_core s1" "loop.more s2 = loop.more s1"
    using listen_again[OF s1(2)] m wt w(2) reg(3) f(1,8) v(1,2) by auto
  obtain s3 where s3: "onCommandsSocketClosed s2 = Inr s3" "loop_inv s3 ts ps" "core_inv s3 ts ps" "fired s3 = fired s2" "event_core s3 = event_core s2" "stream s3 = stream s2"
    using marked_keeps[OF s2(2,3)] by blast
  have "close_commands s = Inr s3" using s1(1) s2(1) s3(1) by (simp add: close_commands_def s0_def)
  moreover have "cb_keeps s ps s3" using s3 s2(4,5) s1(3,4) same v(6,7) f(12) more_fields(12)[OF s2(6)] by (auto simp: cb_keeps_def)
  ultimately show ?thesis by blast
qed

lemma commanding:
  assumes "core_inv s ts (s_commands_event # ps)"
  shows "s_registerCalled s" "s_fdCommand s \<ge> 0" "core_inv s ts ps" "is_event s s_commands_event (s_fdCommand s) True FN_processCommandsCallback 0"
proof -
  have c: "conn_inv s (s_commands_event # ps)" "events_inv s (s_commands_event # ps)" "memory_inv s ts (s_commands_event # ps)"
    "wake_inv s ts (s_commands_event # ps)" "requests_inv s" "\<not> s_writeMutex s"
    using assms(1) by (simp_all add: core_inv_def base_inv_def)
  show r: "s_registerCalled s" "s_fdCommand s \<ge> 0" using c(1) by (auto simp: conn_inv_def split: if_splits)
  have "conn_inv s ps" using c(1) r by (auto simp: conn_inv_def)
  moreover have m: "memory_inv s ts ps" "events_inv s ps" using less_pending c(2,3) by blast+
  moreover have "wake_inv s ts ps" using wake_static[OF c(4) m(1)] by (simp add: static_events_def)
  ultimately show "core_inv s ts ps" using c(5,6) by (simp add: core_inv_def base_inv_def)
  show "is_event s s_commands_event (s_fdCommand s) True FN_processCommandsCallback 0" using c(2) by (simp add: events_inv_def)
qed

lemma commands_keep:
  fixes s :: "'m core"
  assumes inv: "loop_inv s ts ps" and c: "core_inv s ts (s_commands_event # ps)" "s_commands_event \<notin> set ps"
    and R: "radio_ok R" and ok: "client_ok X (stream s)"
  shows "outO safe (cb_keeps s ps) (processCommandsCallback X R (s_fdCommand s) s)"
proof -
  note l = commanding[OF c(1)]
  have m: "memory_inv s ts ps" using l(3) by (simp add: core_inv_def base_inv_def)
  have "outO safe (cb_keeps s ps) (if eof then close_commands s1 else Inr s1)" if k: "keeps_rest s ts ps s1" for eof s1
  proof -
    have k': "lib_keeps (s\<lparr>stream := stream s1\<rparr>) ts ps s1" "set (stream s1) \<subseteq> set (stream s)" using k by (simp_all add: keeps_rest_def)
    have e: "event_core (s\<lparr>stream := stream s1\<rparr>) = event_core s" by (rule loop_same_fields; simp)
    have "memory_inv (s\<lparr>stream := stream s1\<rparr>) ts ps" using base_stream[OF l(3)] by (simp add: core_inv_def base_inv_def)
    then have cb: "cb_keeps s ps s1" using lib_cb[OF k'(1)] k'(2) by (auto simp: cb_keeps_def e)
    obtain ts1 where ts1: "loop_inv s1 ts1 ps" "core_inv s1 ts1 ps" using cb by (auto simp: cb_keeps_def)
    have reg: "s_registerCalled s1" "s_fdCommand s1 \<ge> 0" using keepsD(7,8)[OF k'(1)] l(1,2) by simp_all
    obtain s2 where s2: "close_commands s1 = Inr s2" "cb_keeps s1 ps s2" using close_keeps[OF ts1 reg c(2)] by blast
    have "cb_keeps s ps s2" using cb s2(2) by (auto simp: cb_keeps_def)
    then show ?thesis using cb s2(1) by simp
  qed
  then show ?thesis unfolding processCommandsCallback_def
    using outO_seqO[OF records_keep[OF inv l(3) R ok l(1) refl], of "cb_keeps s ps" "\<lambda>(eof, s1). if eof then close_commands s1 else Inr s1"] by auto
qed

section \<open>Wakeups and timers\<close>

lemma wakeup_keeps:
  assumes inv: "loop_inv s ts ps" and c: "core_inv s ts (s_wakeupfd_event # ps)" "s_wakeupfd_event \<notin> set ps"
  shows "\<exists>s'. processWakeupCallback s = Inr s' \<and> cb_keeps s ps s'"
proof -
  define s' where "s' = s\<lparr>wake_bytes := drain (wake_bytes s)\<rparr>"
  have k: "conn_inv s (s_wakeupfd_event # ps)" "events_inv s (s_wakeupfd_event # ps)" "memory_inv s ts (s_wakeupfd_event # ps)"
    "wake_inv s ts (s_wakeupfd_event # ps)" "requests_inv s" "\<not> s_writeMutex s"
    using c(1) by (simp_all add: core_inv_def base_inv_def)
  have m: "memory_inv s ts ps" "events_inv s ps" using less_pending k(2,3) by blast+
  moreover have "conn_inv s ps" using less_pending(2)[OF _ c(2) k(1)] by simp
  moreover have "wake_inv s ts ps" using wake_static[OF k(4) m(1)] by (simp add: static_events_def)
  ultimately have "core_inv s ts ps" using k(5,6) by (simp add: core_inv_def base_inv_def)
  then have "core_inv s' ts ps" by (rule core_cong) (simp_all add: s'_def)
  moreover have same: "loop_inv s' = loop_inv s" "event_core s' = event_core s" by (rule loop_same_fields; simp add: s'_def)+
  ultimately have "cb_keeps s ps s'" using inv by (auto simp: cb_keeps_def) (simp_all add: s'_def)
  then show ?thesis by (simp add: processWakeupCallback_def s'_def)
qed

lemma freed_keeps:
  fixes s s' :: "'m core"
  assumes inv: "loop_inv s ts ps" and b: "base_inv s ts ps" and a: "5 \<le> a" "a \<notin> set ts \<union> set ps"
    and h: "heap s' = (heap s)(a := None)" "user_callbacks s' = (user_callbacks s)(a := None)"
    and f: "readFds s' = readFds s" "nfds s' = nfds s" "watch_table s' = watch_table s" "locked s' = locked s"
      "s_registerCalled s' = s_registerCalled s" "s_fdListen s' = s_fdListen s" "s_fdCommand s' = s_fdCommand s"
      "s_fdWakeupRead s' = s_fdWakeupRead s" "accepts s' = accepts s" "s_writeMutex s' = s_writeMutex s" "brk s' = brk s" "infos s' = infos s"
      "s_pendingRequests s' = s_pendingRequests s"
  shows "loop_inv s' ts ps" "base_inv s' ts ps" "c \<noteq> a \<Longrightarrow> event_core s' c = event_core s c"
proof -
  have k: "conn_inv s ps" "events_inv s ps" "memory_inv s ts ps" "requests_inv s" "\<not> s_writeMutex s" using b by (simp_all add: base_inv_def)
  have nst: "a \<noteq> s_listen_event" "a \<noteq> s_commands_event" "a \<noteq> s_wakeupfd_event" "a \<notin> static_events"
    using a(1) static_low[of a] by (auto simp: static_events_def)
  define s0 where "s0 = s\<lparr>heap := (heap s)(a := None)\<rparr>"
  have nw: "a \<notin> set (watched s)" using k(1) nst(4) by (auto simp: conn_inv_def)
  have "a \<notin> {timer_list, pending_list} \<union> set ts \<union> set ps" using a by (auto simp: timer_list_def pending_list_def)
  then have "loop_inv s0 ts ps" unfolding s0_def by (rule heap_update_inv[OF inv _ nw])
  moreover have same: "loop_inv s' = loop_inv s0" "watched s' = watched s0" "event_core s' = event_core s0"
    by (rule loop_same_fields; simp add: s0_def h f)+
  ultimately show "loop_inv s' ts ps" by simp
  have w: "watched s' = watched s" unfolding same(2) by (simp add: s0_def watched_def)
  show core: "event_core s' c = event_core s c" if "c \<noteq> a" for c using that by (simp add: same s0_def event_core_def)
  have ie: "is_event s' c = is_event s c" if "c \<noteq> a" for c by (rule is_event_core[OF core[OF that]])
  have "conn_inv s' ps = conn_inv s ps" by (simp only: conn_inv_def w f)
  moreover have "events_inv s' ps = events_inv s ps" by (simp only: events_inv_def w f ie[OF nst(1)[symmetric]] ie[OF nst(2)[symmetric]] ie[OF nst(3)[symmetric]])
  moreover have "memory_inv s' ts ps"
  proof -
    have m: "5 \<le> brk s" "\<And>c. c \<ge> brk s \<Longrightarrow> heap s c = None \<and> infos s c = None"
      "\<And>c. c \<in> dom (user_callbacks s) \<Longrightarrow> 5 \<le> c \<and> c < brk s \<and> is_event s c (-1) False FN_userTimerCallback c"
      "set ts \<subseteq> dom (user_callbacks s)" "set ps \<subseteq> static_events \<union> dom (user_callbacks s)"
      using k(3) unfolding memory_inv_def by blast+
    have "dom ((user_callbacks s)(a := None)) = dom (user_callbacks s) - {a}" by auto
    moreover have "heap s' c = None" if "c \<ge> brk s" for c using m(2)[OF that] by (simp add: h)
    ultimately show ?thesis using m ie a(2) unfolding memory_inv_def h(2) f by auto
  qed
  moreover have "requests_inv s' = requests_inv s" by (simp only: requests_inv_def f)
  ultimately show "base_inv s' ts ps" using k by (simp add: base_inv_def f)
qed

lemma timer_keeps:
  fixes s :: "'m core"
  assumes inv: "loop_inv s ts ps" and c: "core_inv s ts (a # ps)" and a: "user_callbacks s a = Some u" "a \<notin> set ts \<union> set ps" and R: "radio_ok R"
  shows "outO safe (cb_keeps s ps) (userTimerCallback R a s)"
proof -
  have k: "conn_inv s (a # ps)" "events_inv s (a # ps)" "memory_inv s ts (a # ps)" "wake_inv s ts (a # ps)" "requests_inv s" "\<not> s_writeMutex s"
    using c by (simp_all add: core_inv_def base_inv_def)
  have ab: "5 \<le> a" "a < brk s" using k(3) a(1) unfolding memory_inv_def by blast+
  have m: "memory_inv s ts ps" "events_inv s ps" using less_pending k(2,3) by blast+
  have "a \<noteq> s_listen_event" using ab(1) by (simp add: s_listen_event_def)
  then have "conn_inv s ps" using less_pending(2)[OF _ _ k(1)] a(2) by simp
  then have b: "base_inv s ts ps" using m k(5,6) by (simp add: base_inv_def)
  have wt: "\<And>b. s_last_wake_timeout_info s = Some b \<Longrightarrow> b \<in> set ts \<union> set (a # ps) \<and> user_callbacks s b = Some \<lparr>p_callback = WakeTimeout, userParam = 0\<rparr>"
    "\<And>b. user_callbacks s b = Some \<lparr>p_callback = WakeTimeout, userParam = 0\<rparr> \<Longrightarrow> s_last_wake_timeout_info s = Some b"
    "lock_held s \<Longrightarrow> s_last_wake_timeout_info s \<noteq> None"
    using k(4) unfolding wake_inv_def wake_timers_def by blast+
  show ?thesis
  proof (cases "u = \<lparr>p_callback = WakeTimeout, userParam = 0\<rparr>")
    case True
    then have last: "s_last_wake_timeout_info s = Some a" using wt(2) a(1) by simp
    define s' where "s' = s\<lparr>wake_log := wake_log s @ [False], s_last_wake_timeout_info := None, user_callbacks := (user_callbacks s)(a := None), heap := (heap s)(a := None)\<rparr>"
    have eq: "userTimerCallback R a s = Inr s'"
      using last a(1) True by (simp add: userTimerCallback_def wakeTimeoutCallback_def releaseWakeLock_def s'_def)
    have free: "loop_inv s' ts ps" "base_inv s' ts ps" "\<And>c. c \<noteq> a \<Longrightarrow> event_core s' c = event_core s c"
      by (rule freed_keeps[OF inv b ab(1) a(2)]; simp add: s'_def)+
    have "user_callbacks s' c \<noteq> Some \<lparr>p_callback = WakeTimeout, userParam = 0\<rparr>" for c
      using wt(2)[of c] last by (auto simp: s'_def)
    then have "wake_timers s' A" for A by (simp add: wake_timers_def) (simp add: s'_def)
    then have "wake_inv s' ts ps" by (simp add: wake_inv_def lock_held_def) (simp add: s'_def)
    then have "core_inv s' ts ps" using free(2) by (simp add: core_inv_def)
    moreover have "event_core s' c = event_core s c" if "c \<in> set ps" for c using free(3)[of c] that a(2) by auto
    ultimately have "cb_keeps s ps s'" using free(1) unfolding cb_keeps_def by (auto simp: s'_def)
    then show ?thesis by (simp add: eq)
  next
    case False
    have last: "s_last_wake_timeout_info s \<noteq> Some a" using wt(1) a(1) False by auto
    have "wake_timers s (set ts \<union> set ps)" unfolding wake_timers_def using wt(1,2) last by (metis Un_iff set_ConsD)
    then have "core_inv s ts ps" using b wt(3) by (simp add: core_inv_def wake_inv_def)
    define run where "run = (case p_callback u of WakeTimeout \<Rightarrow> Inr (wakeTimeoutCallback (userParam u) s) | DriverCallback f \<Rightarrow> timed_of R f (userParam u) s)"
    have "outO safe (lib_keeps s ts ps) run"
    proof (cases "p_callback u")
      case WakeTimeout
      then have "userParam u \<noteq> 0" using False by (cases u) auto
      then show ?thesis using WakeTimeout lib_keeps_refl[OF inv \<open>core_inv s ts ps\<close>] by (simp add: run_def wakeTimeoutCallback_def)
    next
      case (DriverCallback f)
      then show ?thesis using R inv \<open>core_inv s ts ps\<close> unfolding radio_ok_def run_def by auto
    qed
    moreover have "cb_keeps s ps (s2\<lparr>user_callbacks := (user_callbacks s2)(a := None), heap := (heap s2)(a := None)\<rparr>) \<and> s_last_wake_timeout_info s2 \<noteq> Some a"
      if k2: "lib_keeps s ts ps s2" for s2
    proof -
      obtain ts2 where t2: "loop_inv s2 ts2 ps" "core_inv s2 ts2 ps" "set ts2 \<subseteq> set ts \<union> {brk s..}" using k2 unfolding lib_keeps_def by blast
      have b2: "base_inv s2 ts2 ps" and w2: "wake_inv s2 ts2 ps" using t2(2) by (simp_all add: core_inv_def)
      have out: "a \<notin> set ts2 \<union> set ps" using t2(3) a(2) ab(2) by auto
      have last2: "s_last_wake_timeout_info s2 \<noteq> Some a" using w2 out unfolding wake_inv_def wake_timers_def by blast
      define s' where "s' = s2\<lparr>user_callbacks := (user_callbacks s2)(a := None), heap := (heap s2)(a := None)\<rparr>"
      have free: "loop_inv s' ts2 ps" "base_inv s' ts2 ps" "\<And>c. c \<noteq> a \<Longrightarrow> event_core s' c = event_core s2 c"
        by (rule freed_keeps[OF t2(1) b2 ab(1) out]; simp add: s'_def)+
      have f: "s_last_wake_timeout_info s' = s_last_wake_timeout_info s2" "user_callbacks s' = (user_callbacks s2)(a := None)" "wake_log s' = wake_log s2"
        "fired s' = fired s2" "stream s' = stream s2"
        by (simp_all add: s'_def)
      have "wake_timers s' (set ts2 \<union> set ps)"
        using w2 last2 unfolding wake_timers_def wake_inv_def f by (metis fun_upd_apply option.distinct(1))
      then have "wake_inv s' ts2 ps" using w2 by (simp add: wake_inv_def lock_held_def f)
      then have "core_inv s' ts2 ps" using free(2) by (simp add: core_inv_def)
      moreover have "event_core s' c = event_core s c" if "c \<in> set ps" for c
        using free(3)[of c] that a(2) lib_cb[OF k2 m(1)] by (auto simp: cb_keeps_def)
      ultimately have "cb_keeps s ps s'" using free(1) keepsD(2,3)[OF k2] unfolding cb_keeps_def by (auto simp: f)
      then show ?thesis using last2 by (simp add: s'_def)
    qed
    ultimately show ?thesis using a(1) unfolding userTimerCallback_def run_def[symmetric] by (auto simp: run_def[symmetric] Let_def intro!: outO_seqO)
  qed
qed

section \<open>The daemon as a client of the event loop\<close>

definition daemon_inv :: "'p ext \<Rightarrow> 'm radio \<Rightarrow> 'm core \<Rightarrow> addr list \<Rightarrow> addr list \<Rightarrow> bool" where
  "daemon_inv X R s ts ps \<longleftrightarrow> radio_ok R \<and> client_ok X (stream s) \<and> core_inv s ts ps"

text \<open>Which event was taken off the list tells its callback.\<close>

lemma callback_of:
  assumes "memory_inv s ts (a # ps)"
  obtains "a = s_listen_event" | "a = s_commands_event" | "a = s_wakeupfd_event" | u where "user_callbacks s a = Some u"
  using assms unfolding memory_inv_def static_events_def by auto

lemma callback_keeps:
  fixes s :: "'m core"
  assumes inv: "loop_inv s ts ps" and K: "daemon_inv X R s ts (a # ps)" and e: "heap s a = Some e" and out: "a \<notin> {timer_list, pending_list} \<union> set ts \<union> set ps"
  shows "outO safe (cb_keeps s ps) (core_callback X R now e s)"
proof -
  have c: "core_inv s ts (a # ps)" and R: "radio_ok R" "client_ok X (stream s)" using K by (simp_all add: daemon_inv_def)
  have m: "memory_inv s ts (a # ps)" "events_inv s (a # ps)" using c by (simp_all add: core_inv_def base_inv_def)
  note fns = FN_listenCallback_def FN_processCommandsCallback_def FN_processWakeupCallback_def FN_userTimerCallback_def
  from m(1) show ?thesis
  proof (cases rule: callback_of)
    case 1
    have l: "s_listen_event \<notin> set ps" "core_inv s ts (s_listen_event # ps)" using out c 1 by auto
    have "ev_fd e = s_fdListen s" "ev_func e = FN_listenCallback"
      using is_event_alloc[OF listening(6)[OF l(2,1)]] e 1 by auto
    then show ?thesis using listen_keeps[OF inv l(2,1)] by (simp add: core_callback_def fns)
  next
    case 2
    have l: "s_commands_event \<notin> set ps" "core_inv s ts (s_commands_event # ps)" using out c 2 by auto
    have "ev_fd e = s_fdCommand s" "ev_func e = FN_processCommandsCallback"
      using is_event_alloc[OF commanding(4)[OF l(2)]] e 2 by auto
    then show ?thesis using commands_keep[OF inv l(2,1) R] by (simp add: core_callback_def fns)
  next
    case 3
    have l: "s_wakeupfd_event \<notin> set ps" "core_inv s ts (s_wakeupfd_event # ps)" using out c 3 by auto
    have "is_event s s_wakeupfd_event (s_fdWakeupRead s) True FN_processWakeupCallback 0" using m(2) 3 by (simp add: events_inv_def)
    then have "ev_func e = FN_processWakeupCallback" using is_event_alloc e 3 by fastforce
    then show ?thesis using wakeup_keeps[OF inv l(2,1)] by (auto simp: core_callback_def fns)
  next
    case (4 u)
    have "is_event s a (-1) False FN_userTimerCallback a" using m(1) 4 unfolding memory_inv_def by blast
    then have "ev_func e = FN_userTimerCallback" "ev_param e = a" using is_event_alloc e by fastforce+
    then show ?thesis using timer_keeps[OF inv c 4 _ R(1)] out by (simp add: core_callback_def fns)
  qed
qed

text \<open>Choosing the expired timers and the ready descriptors.\<close>

lemma due_keeps:
  assumes "core_inv s ts []"
  shows "core_inv s (filter (\<lambda>a. \<not> timeout_of s a < now) ts) (expired s now ts)"
proof -
  have c: "conn_inv s []" "events_inv s []" "memory_inv s ts []" "requests_inv s" "\<not> s_writeMutex s" "wake_inv s ts []"
    using assms by (simp_all add: core_inv_def base_inv_def)
  have sub: "set (expired s now ts) \<subseteq> set ts" "set (filter (\<lambda>a. \<not> timeout_of s a < now) ts) \<union> set (expired s now ts) = set ts"
    by (auto simp: expired_def)
  have "a \<notin> set (expired s now ts)" if "a \<in> static_events" for a using static_new[OF c(3) that] sub(1) by auto
  then have st: "s_listen_event \<notin> set (expired s now ts)" "s_commands_event \<notin> set (expired s now ts)" "s_wakeupfd_event \<notin> set (expired s now ts)"
    by (simp_all add: static_events_def)
  have "conn_inv s (expired s now ts)" using c(1) st unfolding conn_inv_def by auto
  moreover have "events_inv s (expired s now ts)" using c(2) st by (simp add: events_inv_def)
  moreover have "memory_inv s (filter (\<lambda>a. \<not> timeout_of s a < now) ts) (expired s now ts)"
    using c(3) sub unfolding memory_inv_def by blast
  moreover have "wake_inv s (filter (\<lambda>a. \<not> timeout_of s a < now) ts) (expired s now ts)" using c(6) sub(2) by (simp add: wake_inv_def)
  ultimately show ?thesis using c(4,5) by (simp add: core_inv_def base_inv_def)
qed

lemma timers_mono: "wake_timers s A \<Longrightarrow> A \<subseteq> B \<Longrightarrow> wake_timers s B"
  unfolding wake_timers_def by blast

lemma ready_keeps:
  fixes s :: "'m core"
  assumes inv: "loop_inv s ts ps" and c: "core_inv s ts ps" and d: "set (watched s) \<inter> set ps = {}" and r: "processReadReadies rfds n s = Inr s'"
  shows "core_inv s' ts (ps @ chosen rfds n s (watched s))" "stream s' = stream s"
proof -
  define as where "as = chosen rfds n s (watched s)"
  have s': "event_core s' = event_core s" "loop.more s' = loop.more s" "set (watched s') = {a \<in> set (watched s). a \<in> set as \<longrightarrow> persistent s a}"
    using readies_inv[OF inv d, of rfds n] r unfolding as_def by auto
  note f = more_fields[OF s'(2)]
  show "stream s' = stream s" by (rule f)
  have k: "conn_inv s ps" "events_inv s ps" "memory_inv s ts ps" "requests_inv s" "\<not> s_writeMutex s" "wake_inv s ts ps"
    using c by (simp_all add: core_inv_def base_inv_def)
  have sub: "set as \<subseteq> set (watched s)" unfolding as_def by (rule chosen_subset)
  have ie: "is_event s' = is_event s" by (intro ext) (simp add: is_event_def s'(1))
  have pers: "s_wakeupfd_event \<in> set (watched s) \<Longrightarrow> persistent s s_wakeupfd_event" "s_commands_event \<in> set (watched s) \<Longrightarrow> persistent s s_commands_event"
    "s_registerCalled s \<Longrightarrow> \<not> persistent s s_listen_event"
    using k(2) is_event_fd unfolding events_inv_def by blast+
  have "conn_inv s' (ps @ as)"
    using k(1) sub d pers unfolding conn_inv_def f s'(3) by (auto split: if_splits)
  moreover have "events_inv s' (ps @ as)" using k(2) sub unfolding events_inv_def f ie s'(3) by auto
  moreover have "memory_inv s ts (ps @ as)" using k(1,3) sub unfolding memory_inv_def conn_inv_def by auto
  moreover have "wake_inv s ts (ps @ as)" using k(6) timers_mono[of s "set ts \<union> set ps" "set ts \<union> set (ps @ as)"] by (auto simp: wake_inv_def)
  ultimately show "core_inv s' ts (ps @ chosen rfds n s (watched s))"
    using rest_same[of s ts "ps @ as" s'] k(4,5) s'(1) f unfolding as_def core_inv_def base_inv_def by simp
qed

interpretation daemon: event_client "core_callback X R now" "daemon_inv X R" "{Blocked, Exited}" for X :: "'p ext" and R :: "'m radio" and now
proof
  fix s :: "'m core" and ts a ps e
  assume "loop_inv s ts ps" "daemon_inv X R s ts (a # ps)" "heap s a = Some e" "a \<notin> {timer_list, pending_list} \<union> set ts \<union> set ps"
  note k = callback_keeps[OF this, of now]
  have "radio_ok R" "client_ok X (stream s)" using \<open>daemon_inv X R s ts (a # ps)\<close> by (simp_all add: daemon_inv_def)
  then show "outO safe (\<lambda>s'. (\<exists>ts'. loop_inv s' ts' ps \<and> daemon_inv X R s' ts' ps) \<and> fired s' = fired s \<and> (\<forall>b \<in> set ps. event_core s' b = event_core s b))
      (core_callback X R now e s)"
    by (intro outO_mono[OF k]) (auto simp: cb_keeps_def daemon_inv_def client_ok_def)
next
  fix s :: "'m core" and ts ps s'
  assume K: "daemon_inv X R s ts ps" and "same_data s s'"
  then have s': "event_core s' = event_core s" "s' = s\<lparr>heap := heap s'\<rparr>" "watched s' = watched s" "loop.more s' = loop.more s"
    using same_data_core[of s s'] same_data_fields[of s s'] by (simp_all add: same_data_def watched_def)
  note f = more_fields[OF s'(4)]
  have k: "conn_inv s ps" "events_inv s ps" "memory_inv s ts ps" "requests_inv s" "\<not> s_writeMutex s" "wake_inv s ts ps"
    using K by (simp_all add: daemon_inv_def core_inv_def base_inv_def)
  have ie: "is_event s' = is_event s" by (intro ext) (simp add: is_event_def s'(1))
  have "conn_inv s' ps = conn_inv s ps" by (simp only: conn_inv_def f s'(3))
  moreover have "events_inv s' ps = events_inv s ps" by (simp only: events_inv_def f s'(3) ie)
  moreover have "memory_inv s' ts ps \<and> requests_inv s' \<and> wake_inv s' ts ps \<and> \<not> s_writeMutex s'"
    by (rule rest_same[OF k(3,4,6,5) s'(1)]) (simp_all add: f)
  ultimately show "daemon_inv X R s' ts ps" using K k by (simp add: daemon_inv_def core_inv_def base_inv_def f)
next
  fix s :: "'m core" and ts ps f
  assume "daemon_inv X R s ts ps"
  moreover have "core_inv s ts ps \<Longrightarrow> core_inv (s\<lparr>fired := f\<rparr>) ts ps" by (erule core_cong) simp_all
  ultimately show "daemon_inv X R (s\<lparr>fired := f\<rparr>) ts ps" by (simp add: daemon_inv_def)
next
  fix s :: "'m core" and ts now'
  assume "daemon_inv X R s ts []"
  then show "daemon_inv X R s (filter (\<lambda>a. \<not> timeout_of s a < now') ts) (expired s now' ts)"
    using due_keeps[of s ts now'] by (simp add: daemon_inv_def)
next
  fix s s' :: "'m core" and ts ps rfds n
  assume "loop_inv s ts ps" "daemon_inv X R s ts ps" "set (watched s) \<inter> set ps = {}" "processReadReadies rfds n s = Inr s'"
  then show "daemon_inv X R s' ts (ps @ chosen rfds n s (watched s))"
    using ready_keeps[of s ts ps rfds n s'] by (simp add: daemon_inv_def)
qed

end
