(* ===== verification/Tgm_Reach.thy ===== *)
theory Tgm_Reach
  imports Tgm_Callbacks
begin

text \<open>
  The states the daemon reaches: from the static variables' initial values through the start of
  the event loop and the registration of the driver, by rounds of the loop, calls of the driver's
  own threads and new input; and the properties of the whole daemon.
\<close>

section \<open>Reachable states\<close>

text \<open>The initial values of the static variables; the scripts are empty.\<close>

definition initial_core :: "'m \<Rightarrow> 'm core" where
  "initial_core m = \<lparr>heap = Map.empty, readFds = [], nfds = 0, watch_table = [], locked = False, fired = [],
     s_started = False, s_registerCalled = False, infos = Map.empty, s_pendingRequests = [],
     user_callbacks = Map.empty, s_last_wake_timeout_info = None, brk = 5, s_fdListen = -1, s_fdCommand = -1, s_fdWakeupRead = 0,
     wake_bytes = 0, s_writeMutex = False, writes = [], accepts = [], stream = [], sent = [], wake_log = [], props = [], driver = m\<rparr>"

text \<open>The kernel gives no descriptor twice that is still open.\<close>

definition fresh_fds :: "int list \<Rightarrow> 'm core \<Rightarrow> bool" where
  "fresh_fds fds s \<longleftrightarrow> (\<forall>fd \<in> set fds. fd \<ge> 0 \<longrightarrow> fd \<noteq> s_fdListen s \<and> fd \<noteq> s_fdWakeupRead s)"

text \<open>
  The event loop's thread goes on after its signal in the step \<open>watch\<close>, once and at any time: before
  or after the registration. A round is admitted before it too, so that the reachable states are
  those of the code and some more. The calls of the library are those of the driver's own threads.
\<close>

inductive daemon_reach :: "'p ext \<Rightarrow> 'm radio \<Rightarrow> 'm core \<Rightarrow> bool" for X :: "'p ext" and R :: "'m radio" where
  start: "TGM_startEventLoop True (initial_core m) = Inr s \<Longrightarrow> daemon_reach X R s"
| watch: "daemon_reach X R s \<Longrightarrow> s_wakeupfd_event \<notin> set (watched s) \<Longrightarrow> accepts s = [] \<Longrightarrow> fd \<notin> {s_fdListen s, s_fdCommand s} \<Longrightarrow>
    eventLoop (Some fd) s = Inr s' \<Longrightarrow> daemon_reach X R s'"
| register: "daemon_reach X R s \<Longrightarrow> s_started s \<Longrightarrow> sock \<noteq> s_fdWakeupRead s \<Longrightarrow> accepts s = [] \<Longrightarrow>
    TGM_register_lib (Some R) True sock s = Inr s' \<Longrightarrow> daemon_reach X R s'"
| round: "daemon_reach X R s \<Longrightarrow> dl s timer_list ts \<Longrightarrow> length ts + MAX_FD_EVENTS < k \<Longrightarrow> n \<ge> 0 \<Longrightarrow>
    loop_round (core_callback X R now) k eintr n rfds now s = Inr (Some s') \<Longrightarrow> daemon_reach X R s'"
| complete: "daemon_reach X R s \<Longrightarrow> TGM_onRequestComplete_lib X t e d n s = Inr s' \<Longrightarrow> daemon_reach X R s'"
| unsolicited: "daemon_reach X R s \<Longrightarrow> TGM_onUnsolicitedResponse_lib X R False now u d n s = Inr s' \<Longrightarrow> daemon_reach X R s'"
| timed: "daemon_reach X R s \<Longrightarrow> TGM_requestTimedCallback_lib False now f p rt s = Inr s' \<Longrightarrow> daemon_reach X R s'"
| input: "daemon_reach X R s \<Longrightarrow> client_ok X rs \<Longrightarrow> fresh_fds fds s \<Longrightarrow>
    daemon_reach X R (s\<lparr>stream := rs, accepts := fds, writes := ws, driver := m\<rparr>)"

definition idle_inv :: "'p ext \<Rightarrow> 'm core \<Rightarrow> bool" where
  "idle_inv X s \<longleftrightarrow> client_ok X (stream s) \<and> (\<exists>ts. loop_inv s ts [] \<and> core_inv s ts [])"

text \<open>The thread of the event loop is up, and its caller goes on.\<close>

lemma start_idle:
  "\<exists>s. TGM_startEventLoop True (initial_core m) = Inr s \<and> idle_inv X s \<and> s_started s \<and> \<not> s_registerCalled s \<and> s_fdWakeupRead s = 0 \<and> accepts s = [] \<and>
    watched s = [] \<and> s_fdListen s = -1 \<and> s_fdCommand s = -1"
proof -
  define s where "s = (tgm_event_init (initial_core m\<lparr>s_started := False\<rparr>))\<lparr>s_started := True\<rparr>"
  have "loop_inv s = loop_inv (tgm_event_init (initial_core m\<lparr>s_started := False\<rparr>))" by (rule loop_same_fields; simp add: s_def)
  then have i: "loop_inv s [] []" using init_inv by simp
  have w: "watched s = []" by (simp add: s_def tgm_event_init_def init_list_def watched_def MAX_FD_EVENTS_def)
  have v: "s_registerCalled s = False" "infos s = Map.empty" "s_pendingRequests s = []" "user_callbacks s = Map.empty" "s_last_wake_timeout_info s = None"
    "brk s = 5" "s_fdCommand s = -1" "s_fdListen s = -1" "s_fdWakeupRead s = 0" "s_writeMutex s = False" "stream s = []" "wake_log s = []" "s_started s" "accepts s = []"
    by (simp_all add: s_def tgm_event_init_def init_list_def initial_core_def)
  have h: "heap s a = None" if "a \<ge> 5" for a
    using that by (simp add: s_def tgm_event_init_def init_list_def initial_core_def timer_list_def pending_list_def)
  have "core_inv s [] []"
    unfolding core_inv_def base_inv_def conn_inv_def events_inv_def memory_inv_def requests_inv_def wake_inv_def wake_timers_def lock_held_def v w
    using h by auto
  moreover have "TGM_startEventLoop True (initial_core m) = Inr s" by (simp add: TGM_startEventLoop_def eventLoop_ready_def s_def)
  ultimately show ?thesis using i v w by (auto simp: idle_inv_def client_ok_def)
qed

text \<open>The thread of the event loop sets up its wakeup pipe, before or after the registration.\<close>

lemma wake_read:
  assumes "watch_inv s" "conn_inv s []" "events_inv s []" "s_wakeupfd_event \<notin> set (watched s)"
  shows "set (readFds s) \<subseteq> {s_fdListen s, s_fdCommand s}"
proof -
  have "fd_of s a \<in> {s_fdListen s, s_fdCommand s}" if a: "a \<in> set (watched s)" for a
  proof -
    have "s_registerCalled s" if "a = s_listen_event" using assms(2) a that by (auto simp: conn_inv_def split: if_splits)
    moreover have "a = s_listen_event \<or> a = s_commands_event" using assms(2,4) a by (auto simp: conn_inv_def static_events_def)
    ultimately show ?thesis using assms(3) a is_event_fd[of s a] by (auto simp: events_inv_def)
  qed
  then show ?thesis using assms(1) by (auto simp: watch_inv_def)
qed

lemma watch_idle:
  fixes s :: "'m core"
  assumes i: "idle_inv X s" and h: "s_wakeupfd_event \<notin> set (watched s)" "accepts s = []" "fd \<notin> {s_fdListen s, s_fdCommand s}"
  shows "\<exists>s'. eventLoop (Some fd) s = Inr s' \<and> idle_inv X s' \<and> s_registerCalled s' = s_registerCalled s \<and> s_fdWakeupRead s' = fd \<and>
    s_fdListen s' = s_fdListen s \<and> s_fdCommand s' = s_fdCommand s \<and> accepts s' = [] \<and> s_started s' = s_started s \<and> set (watched s') = insert s_wakeupfd_event (set (watched s))"
proof -
  obtain ts where ts: "loop_inv s ts []" "core_inv s ts []" using i by (auto simp: idle_inv_def)
  have k: "conn_inv s []" "events_inv s []" "memory_inv s ts []" "requests_inv s" "\<not> s_writeMutex s" "wake_inv s ts []"
    using ts(2) by (simp_all add: core_inv_def base_inv_def)
  define s1 where "s1 = s\<lparr>s_fdWakeupRead := fd, wake_bytes := 0\<rparr>"
  define s2 where "s2 = tgm_event_set s_wakeupfd_event fd True FN_processWakeupCallback 0 s1"
  have st: "s_wakeupfd_event \<in> static_events" by (simp add: static_events_def)
  have same: "loop_inv s1 = loop_inv s" "watched s1 = watched s" "event_core s1 = event_core s" "is_event s1 = is_event s"
    by (rule loop_same_fields; simp add: s1_def)+
  have "memory_inv s1 ts []" by (rule conjunct1[OF rest_same[OF k(3,4,6,5) same(3)]]) (simp_all add: s1_def)
  note m = memory_set[OF this st s2_def]
  note f = more_fields[OF m(5)]
  have v: "s_registerCalled s1 = s_registerCalled s" "s_fdListen s1 = s_fdListen s" "s_fdWakeupRead s1 = fd" "s_fdCommand s1 = s_fdCommand s" "accepts s1 = []"
    "\<not> s_writeMutex s1" "stream s1 = stream s" using h k(5) by (simp_all add: s1_def)
  have new: "s_wakeupfd_event \<notin> {timer_list, pending_list} \<union> set ts" using static_new[OF k(3) st] .
  have inv2: "loop_inv s2 ts []" unfolding s2_def by (rule set_inv) (use new same ts(1) h in auto)
  have others: "is_event s2 s_listen_event = is_event s s_listen_event" "is_event s2 s_commands_event = is_event s s_commands_event"
    using is_event_core[OF m(2)[OF statics(3)]] is_event_core[OF m(2)[OF statics(5)]] by (simp_all add: same)
  have wi: "watch_inv s2" using inv2 by (simp add: loop_inv_def)
  have w: "set (watched s2) \<subseteq> static_events" "s_wakeupfd_event \<notin> set (watched s2)" using k(1) h(1) m(4) same by (simp_all add: conn_inv_def)
  have "readFds s2 = readFds s" by (simp add: s2_def s1_def tgm_event_set_def)
  moreover have "watch_inv s" using ts(1) by (simp add: loop_inv_def)
  ultimately have "fd \<notin> set (readFds s2)" using wake_read[OF _ k(1,2) h(1)] h(3) by auto
  moreover obtain e where e: "heap s2 s_wakeupfd_event = Some e" "ev_fd e = fd" using is_event_alloc[OF m(3)] by blast
  ultimately obtain s' where s': "tgm_event_add s_wakeupfd_event s2 = Inr s'" "loop_inv s' ts []" "event_core s' = event_core s2"
    "loop.more s' = loop.more s2" "set (watched s') = insert s_wakeupfd_event (set (watched s2))"
    using add_inv[OF inv2 e(1) new w(2)] table_room[OF wi w(1)] by auto
  note f' = more_fields[OF s'(4)]
  have ie': "is_event s' = is_event s2" by (intro ext) (simp add: is_event_def s'(3))
  have "conn_inv s' []" using k(1) unfolding conn_inv_def f' f v s'(5) m(4) same by (auto simp: static_events_def)
  moreover have "events_inv s' []" using k(2) m(3) h(3) unfolding events_inv_def f' f v s'(5) m(4) same ie' others by auto
  moreover have "memory_inv s' ts [] \<and> requests_inv s' \<and> wake_inv s' ts [] \<and> \<not> s_writeMutex s'"
  proof (rule rest_same[OF m(1) _ _ _ s'(3)])
    show "requests_inv s2" using k(4) by (simp add: requests_inv_def f) (simp add: s1_def)
    show "wake_inv s2 ts []" by (subst wake_cong[of _ s]) (simp_all add: f k(6), simp_all add: s1_def)
  qed (simp_all add: f' f v)
  ultimately have "core_inv s' ts []" by (simp add: core_inv_def base_inv_def)
  moreover have "eventLoop (Some fd) s = Inr s'"
    using s'(1) by (simp add: eventLoop_def s2_def s1_def tgmEventAddWakeup_def triggerEvLoop_def)
  moreover have "s_started s' = s_started s" using s'(4) by (cases s'; cases s) (simp add: s2_def s1_def tgm_event_set_def)
  ultimately show ?thesis using i s'(2,5) by (auto simp: idle_inv_def f' f v m(4) same)
qed

lemma started_idle:
  assumes "fd \<ge> 0"
  shows "\<exists>s0 s. TGM_startEventLoop True (initial_core m) = Inr s0 \<and> eventLoop (Some fd) s0 = Inr s \<and> daemon_reach X R s \<and> idle_inv X s \<and> s_started s \<and>
    \<not> s_registerCalled s \<and> s_fdWakeupRead s = fd \<and> accepts s = [] \<and> s_fdCommand s < 0"
proof -
  obtain s0 :: "'a core" where s0: "TGM_startEventLoop True (initial_core m) = Inr s0" "idle_inv X s0" "s_started s0" "\<not> s_registerCalled s0" "accepts s0 = []"
    "watched s0 = []" "s_fdListen s0 = -1" "s_fdCommand s0 = -1"
    using start_idle[of m X] by blast
  obtain s where s: "eventLoop (Some fd) s0 = Inr s" "idle_inv X s" "s_registerCalled s = s_registerCalled s0" "s_fdWakeupRead s = fd"
    "s_fdCommand s = s_fdCommand s0" "accepts s = []" "s_started s = s_started s0"
    using watch_idle[OF s0(2), of fd] s0(5-8) assms by auto
  have "daemon_reach X R s"
    by (rule daemon_reach.watch[OF daemon_reach.start[OF s0(1)] _ s0(5) _ s(1)]) (use s0(6-8) assms in auto)
  then show ?thesis using s0 s by auto
qed

text \<open>The registration adds the listening socket.\<close>

lemma register_idle:
  fixes s :: "'m core"
  assumes i: "idle_inv X s" and h: "s_started s" "sock \<noteq> s_fdWakeupRead s" "accepts s = []" and R: "rf_version R = TGM_VERSION \<or> rf_version R = 1" "\<not> s_registerCalled s" "sock \<ge> 0"
  shows "\<exists>s'. TGM_register_lib (Some R) created sock s = Inr s' \<and> idle_inv X s' \<and> s_registerCalled s' \<and> s_fdCommand s' = s_fdCommand s \<and>
    s_fdCommand s' < 0 \<and> s_fdListen s' = sock \<and> accepts s' = [] \<and> set (watched s') = insert s_listen_event (set (watched s))"
proof -
  obtain ts where ts: "loop_inv s ts []" "core_inv s ts []" using i by (auto simp: idle_inv_def)
  have k: "conn_inv s []" "events_inv s []" "memory_inv s ts []" "requests_inv s" "\<not> s_writeMutex s" "wake_inv s ts []"
    using ts(2) by (simp_all add: core_inv_def base_inv_def)
  have w: "set (watched s) \<subseteq> {s_wakeupfd_event}" "s_fdCommand s < 0" using k(1) R(2) by (auto simp: conn_inv_def static_events_def)
  define s1 where "s1 = s\<lparr>s_registerCalled := True, s_fdListen := sock\<rparr>"
  define s2 where "s2 = tgm_event_set s_listen_event sock False FN_listenCallback 0 s1"
  have st: "s_listen_event \<in> static_events" by (simp add: static_events_def)
  have same: "loop_inv s1 = loop_inv s" "watched s1 = watched s" "event_core s1 = event_core s" "is_event s1 = is_event s"
    by (rule loop_same_fields; simp add: s1_def)+
  have "memory_inv s1 ts []" by (rule conjunct1[OF rest_same[OF k(3,4,6,5) same(3)]]) (simp_all add: s1_def)
  note m = memory_set[OF this st s2_def]
  note f = more_fields[OF m(5)]
  have v: "s_registerCalled s1" "s_fdListen s1 = sock" "s_fdWakeupRead s1 = s_fdWakeupRead s" "s_fdCommand s1 = s_fdCommand s" "accepts s1 = []"
    "\<not> s_writeMutex s1" "stream s1 = stream s" using h k(5) by (simp_all add: s1_def)
  have new: "s_listen_event \<notin> {timer_list, pending_list} \<union> set ts" using static_new[OF k(3) st] .
  have inv2: "loop_inv s2 ts []" unfolding s2_def by (rule set_inv) (use new same ts(1) w in auto)
  have wk: "is_event s2 s_wakeupfd_event = is_event s s_wakeupfd_event" using is_event_core[OF m(2)[OF statics(4)]] by (simp add: same)
  have ev: "events_inv s2 []" using k(2) w h(2) m(3) unfolding events_inv_def f v m(4) same wk by auto
  have wt: "set (watched s2) \<subseteq> {s_wakeupfd_event}" using w m(4) same by simp
  have nb: "sock \<noteq> s_fdWakeupRead s2" using h(2) f v by simp
  obtain s3 where s3: "tgmEventAddWakeup True s_listen_event s2 = Inr s3" "loop_inv s3 ts []" "event_core s3 = event_core s2"
    "loop.more s3 = loop.more s2" "set (watched s3) = insert s_listen_event (set (watched s2))"
    using watch_static[OF inv2 m(1) ev wt st m(3) nb statics(3)] by blast
  note f' = more_fields[OF s3(4)]
  have ie': "is_event s3 = is_event s2" by (intro ext) (simp add: is_event_def s3(3))
  have "conn_inv s3 []" using w v(1) unfolding conn_inv_def f' f v s3(5) m(4) same by (auto simp: static_events_def)
  moreover have "events_inv s3 []" using ev m(3) wt unfolding events_inv_def f' f v s3(5) ie' by auto
  moreover have "memory_inv s3 ts [] \<and> requests_inv s3 \<and> wake_inv s3 ts [] \<and> \<not> s_writeMutex s3"
  proof (rule rest_same[OF m(1) _ _ _ s3(3)])
    show "requests_inv s2" using k(4) by (simp add: requests_inv_def f) (simp add: s1_def)
    show "wake_inv s2 ts []" by (subst wake_cong[of _ s]) (simp_all add: f k(6), simp_all add: s1_def)
  qed (simp_all add: f' f v)
  ultimately have ci: "core_inv s3 ts []" by (simp add: core_inv_def base_inv_def)
  define s' where "s' = s3\<lparr>wake_bytes := wake_bytes s3 + 1\<rparr>"
  have same': "loop_inv s' = loop_inv s3" "watched s' = watched s3" unfolding s'_def by (rule loop_same_fields; simp)+
  have ws: "set (watched s') = insert s_listen_event (set (watched s))" using s3(5) m(4) same same' by simp
  have i': "loop_inv s' ts []" "core_inv s' ts []" using s3(2) ci core_cong[of s3 ts "[]" s'] by (simp_all add: same') (simp_all add: s'_def)
  have "tgm_event_add s_listen_event s2 = Inr s3" using s3(1) by (cases "tgm_event_add s_listen_event s2") (simp_all add: tgmEventAddWakeup_def triggerEvLoop_def)
  then have "TGM_register_lib (Some R) created sock s = Inr s'"
    using R h(1) self_check_ok by (auto simp: TGM_register_lib_def tgmEventAddWakeup_def triggerEvLoop_def s2_def s1_def s'_def)
  then show ?thesis using i i' w(2) ws by (auto simp: idle_inv_def s'_def f' f v)
qed

text \<open>A call of a driver's thread between two rounds, when it returns.\<close>

lemma lib_idle:
  assumes "idle_inv X s" "\<And>ts. loop_inv s ts [] \<Longrightarrow> core_inv s ts [] \<Longrightarrow> allO (lib_keeps s ts []) m"
  shows "allO (idle_inv X) m"
proof -
  obtain ts where ts: "loop_inv s ts []" "core_inv s ts []" "client_ok X (stream s)" using assms(1) by (auto simp: idle_inv_def)
  show ?thesis
  proof (rule allO_mono[OF assms(2)[OF ts(1,2)]])
    fix s' assume "lib_keeps s ts [] s'"
    then show "idle_inv X s'" using keepsD(1,3)[of s ts "[]" s'] ts(3) by (auto simp: idle_inv_def)
  qed
qed

lemma calls_idle:
  assumes "idle_inv X s"
  shows "allO (idle_inv X) (TGM_onRequestComplete_lib X t e d n s)"
    "allO (idle_inv X) (TGM_onUnsolicitedResponse_lib X R b now u d n s)"
    "allO (idle_inv X) (TGM_requestTimedCallback_lib b now f p rt s)"
  by (rule lib_idle[OF assms], erule (1) complete_all unsol_all outO_allO[OF timed_keeps])+

lemma round_idle:
  assumes "idle_inv X s" "radio_ok R" "dl s timer_list ts" "length ts + MAX_FD_EVENTS < k" "n \<ge> 0"
  shows "outO safe (\<lambda>r. \<exists>s'. r = Some s' \<and> idle_inv X s') (loop_round (core_callback X R now) k eintr n rfds now s)"
proof -
  obtain ts' where i: "loop_inv s ts' []" "core_inv s ts' []" "client_ok X (stream s)" using assms(1) by (auto simp: idle_inv_def)
  have t: "ts = ts'" by (rule loop_inv_timers[OF i(1) assms(3)])
  have K: "daemon_inv X R s ts []" using i(2,3) assms(2) t by (simp add: daemon_inv_def)
  have "outO safe (\<lambda>r. \<exists>s'. r = Some s' \<and> (\<exists>ts'. loop_inv s' ts' [] \<and> daemon_inv X R s' ts' []) \<and>
      fired s' = fired s @ map (call_of s) (expired s now ts @ chosen rfds n s (watched s))) (loop_round (core_callback X R now) k eintr n rfds now s)"
    by (rule daemon.round_inv[OF i(1)[folded t] K assms(4,5)])
  then show ?thesis by (rule outO_mono) (auto simp: daemon_inv_def idle_inv_def)
qed

lemma input_idle:
  fixes s :: "'m core"
  assumes "idle_inv X s" "client_ok X rs" "fresh_fds fds s"
  shows "idle_inv X (s\<lparr>stream := rs, accepts := fds, writes := ws, driver := m\<rparr>)" (is "idle_inv X ?s'")
proof -
  obtain ts where ts: "loop_inv s ts []" "core_inv s ts []" using assms(1) by (auto simp: idle_inv_def)
  have k: "conn_inv s []" "events_inv s []" "memory_inv s ts []" "requests_inv s" "\<not> s_writeMutex s" "wake_inv s ts []"
    using ts(2) by (simp_all add: core_inv_def base_inv_def)
  have same: "loop_inv ?s' = loop_inv s" "watched ?s' = watched s" "event_core ?s' = event_core s" "is_event ?s' = is_event s"
    by (rule loop_same_fields; simp)+
  have "conn_inv ?s' [] = conn_inv s []" by (simp add: conn_inv_def same)
  moreover have "events_inv ?s' []" using k(2) assms(3) unfolding events_inv_def same by (auto simp: fresh_fds_def)
  moreover have "memory_inv ?s' ts [] \<and> requests_inv ?s' \<and> wake_inv ?s' ts [] \<and> \<not> s_writeMutex ?s'"
    by (rule rest_same[OF k(3,4,6,5) same(3)]) simp_all
  ultimately have "core_inv ?s' ts []" using k(1) by (simp add: core_inv_def base_inv_def)
  then show ?thesis using ts(1) assms(2) by (auto simp: idle_inv_def same)
qed

lemma daemon_idle: "daemon_reach X R s \<Longrightarrow> radio_ok R \<Longrightarrow> idle_inv X s"
proof (induction rule: daemon_reach.induct)
  case (start m s)
  then show ?case using start_idle[of m X] by auto
next
  case (watch s fd s')
  then show ?case using watch_idle[of X s fd] by auto
next
  case (register s sock s')
  show ?case
  proof (cases "(rf_version R \<noteq> TGM_VERSION \<and> rf_version R \<noteq> 1) \<or> s_registerCalled s")
    case True
    then have "s' = s" using register.hyps by (auto simp: TGM_register_lib_def split: if_splits)
    then show ?thesis using register by simp
  next
    case False
    then have "sock \<ge> 0" using register.hyps self_check_ok by (auto simp: TGM_register_lib_def split: if_splits)
    then show ?thesis using register_idle[of X s sock R True] register False by auto
  qed
next
  case (round s ts k n now eintr rfds s')
  then show ?case using round_idle[of X s R ts k n now eintr rfds] by simp
next
  case (complete s t e d n s')
  then show ?case using calls_idle(1)[of X s t e d n] by simp
next
  case (unsolicited s now u d n s')
  then show ?case using calls_idle(2)[of X s R False now u d n] by simp
next
  case (timed s now f p rt s')
  then show ?case using calls_idle(3)[of X s False now f p rt] by simp
next
  case (input s rs fds ws m)
  then show ?case by (simp add: input_idle)
qed

section \<open>A driver and a run\<close>

text \<open>A driver that refuses every request.\<close>

definition refusing_radio :: "'p ext \<Rightarrow> unit radio" where
  "refusing_radio X = \<lparr>rf_version = 1, onRequest_of = (\<lambda>n d len a s. TGM_onRequestComplete_lib X (Some a) (errno_code TGM_E_REQUEST_NOT_SUPPORTED) Null 0 s),
     onStateRequest_of = (\<lambda>s. 0), getVersion_of = None, timed_of = (\<lambda>f p s. Inr s)\<rparr>"

lemma refusing_ok: "radio_ok (refusing_radio X)"
proof -
  have "fits X t 6 d n s" for t d n and s :: "unit core" by (auto simp: fits_def solicited_parcel_def Let_def)
  then show ?thesis unfolding radio_ok_def by (auto simp: refusing_radio_def intro: complete_keeps lib_keeps_refl)
qed

text \<open>The loop is started, the driver registered, and an unsolicited response sent: the wake lock is held.\<close>

definition started_core :: "unit core" where
  "started_core = (case seqO (TGM_startEventLoop True (initial_core ())) (eventLoop (Some 3)) of Inr s \<Rightarrow> s)"

definition registered_core :: "unit core" where
  "registered_core = (case TGM_register_lib (Some (refusing_radio (item_ext 4))) True 4 started_core of Inr s \<Rightarrow> s)"

definition awake_core :: "unit core" where
  "awake_core = (case TGM_onUnsolicitedResponse_lib (item_ext 4) (refusing_radio (item_ext 4)) False (Timeval 5 0) 1003 Null 0 registered_core of Inr s \<Rightarrow> s)"

lemma started_eq: "seqO (TGM_startEventLoop True (initial_core ())) (eventLoop (Some 3)) = Inr started_core"
  by (simp add: started_core_def TGM_startEventLoop_def eventLoop_ready_def eventLoop_def Let_def tgmEventAddWakeup_def triggerEvLoop_def initial_core_def loop_eval s_wakeupfd_event_def)

lemma started_fields: "s_started started_core" "\<not> s_registerCalled started_core" "s_fdWakeupRead started_core = 3" "accepts started_core = []"
  by (simp_all add: started_core_def TGM_startEventLoop_def eventLoop_ready_def eventLoop_def Let_def tgmEventAddWakeup_def triggerEvLoop_def initial_core_def loop_eval s_wakeupfd_event_def)

lemmas run_eval = loop_eval TGM_startEventLoop_def eventLoop_ready_def eventLoop_def tgmEventAddWakeup_def triggerEvLoop_def initial_core_def s_wakeupfd_event_def
  s_listen_event_def Let_def

lemma registered_eq: "TGM_register_lib (Some (refusing_radio (item_ext 4))) True 4 started_core = Inr registered_core"
  by (simp add: registered_core_def TGM_register_lib_def self_check_ok started_fields refusing_radio_def TGM_VERSION_def)
    (simp add: started_core_def run_eval)

lemma registered_fields: "s_registerCalled registered_core" "s_last_wake_timeout_info registered_core = None" "brk registered_core = 5" "s_fdCommand registered_core = -1"
  "wake_log registered_core = []"
  by (simp_all add: registered_core_def TGM_register_lib_def self_check_ok started_fields refusing_radio_def TGM_VERSION_def)
    (simp_all add: started_core_def run_eval)

lemma unsol_radio_state: "s_unsolResponses ! nat (1003 - TGM_UNSOLICITED_BASE) = (1003, ResponseVoid, WAKE_PARTIAL)"
  by (simp add: s_unsolResponses_def TGM_UNSOLICITED_BASE_def TGM_UNSOLICITED_RADIO_STATE_CHANGED_def)

lemmas send_eval = TGM_onUnsolicitedResponse_lib_def registered_fields unsol_radio_state Let_def TGM_UNSOLICITED_BASE_def s_unsolResponses_def
  responseVoid_def sendResponse_def sendResponseRaw_def grabPartialWakeLock_def internalRequestTimedCallback_def TIMEVAL_WAKE_TIMEOUT_def

lemma awake_eq: "TGM_onUnsolicitedResponse_lib (item_ext 4) (refusing_radio (item_ext 4)) False (Timeval 5 0) 1003 Null 0 registered_core = Inr awake_core"
  by (simp add: awake_core_def send_eval)
   (simp add: registered_core_def TGM_register_lib_def self_check_ok started_fields refusing_radio_def TGM_VERSION_def started_core_def run_eval
      find_place.simps(2)[of 5, simplified])

lemma awake_fields: "s_last_wake_timeout_info awake_core = Some 5" "wake_log awake_core = [True]" "s_registerCalled awake_core" "s_fdCommand awake_core = -1"
  "user_callbacks awake_core = [5 \<mapsto> \<lparr>p_callback = WakeTimeout, userParam = 0\<rparr>]"
  by (simp_all add: awake_core_def send_eval)
   (simp_all add: registered_core_def TGM_register_lib_def self_check_ok started_fields refusing_radio_def TGM_VERSION_def started_core_def run_eval
      find_place.simps(2)[of 5, simplified])

lemma awake_reach: "daemon_reach (item_ext 4) (refusing_radio (item_ext 4)) awake_core"
proof -
  obtain s0 s :: "unit core" where s: "TGM_startEventLoop True (initial_core ()) = Inr s0" "eventLoop (Some 3) s0 = Inr s"
    "daemon_reach (item_ext 4) (refusing_radio (item_ext 4)) s"
    using started_idle[of 3 "()" "item_ext 4" "refusing_radio (item_ext 4)"] by auto
  then have "daemon_reach (item_ext 4) (refusing_radio (item_ext 4)) started_core" using started_eq by simp
  then have "daemon_reach (item_ext 4) (refusing_radio (item_ext 4)) registered_core"
    by (rule daemon_reach.register[OF _ _ _ _ registered_eq]) (simp_all add: started_fields)
  then show ?thesis by (rule daemon_reach.unsolicited[OF _ awake_eq])
qed

section \<open>Properties\<close>

text \<open>
  C28. One client at a time, with any driver that \<open>radio_ok\<close> admits, such as the Huawei one
  (\<open>huawei_ok\<close> in \<open>Daemon_Safety\<close>): from the registration on the daemon listens exactly when no command
  socket is open, watches the command socket exactly when one is, and watches nothing else but
  its wakeup pipe.
\<close>

theorem one_client_at_a_time:
  assumes "daemon_reach X R s" "radio_ok R" "s_registerCalled s"
  shows "(s_listen_event \<in> set (watched s) \<longleftrightarrow> s_fdCommand s < 0) \<and> (s_commands_event \<in> set (watched s) \<longleftrightarrow> s_fdCommand s \<ge> 0) \<and>
    set (watched s) \<subseteq> {s_listen_event, s_commands_event, s_wakeupfd_event}"
proof -
  obtain ts where "core_inv s ts []" using daemon_idle[OF assms(1,2)] by (auto simp: idle_inv_def)
  then have "conn_inv s []" by (simp add: core_inv_def base_inv_def)
  then show ?thesis using assms(3) by (auto simp: conn_inv_def static_events_def split: if_splits)
qed

theorem one_client_at_a_time_witness: "s_listen_event \<in> set (watched awake_core)"
  using one_client_at_a_time[OF awake_reach refusing_ok] awake_fields by simp

text \<open>
  C29. With any driver that \<open>radio_ok\<close> admits, every event that can fire has the callback that belongs to it: a linked timer is the event
  of a live user callback and calls \<open>userTimerCallback\<close> with its own address, a watched event calls the
  function of its descriptor, and every pending request is allocated, with an entry of the
  command table that is not the empty one.
\<close>

theorem events_well_typed:
  assumes "daemon_reach X R s" "radio_ok R" "dl s timer_list ts"
  shows "(\<forall>a \<in> set ts. user_callbacks s a \<noteq> None \<and> call_of s a = (FN_userTimerCallback, -1, a)) \<and>
    (\<forall>a \<in> set (watched s). call_of s a \<in> {(FN_listenCallback, s_fdListen s, 0), (FN_processCommandsCallback, s_fdCommand s, 0), (FN_processWakeupCallback, s_fdWakeupRead s, 0)}) \<and>
    distinct (s_pendingRequests s) \<and> (\<forall>a \<in> set (s_pendingRequests s). \<exists>i. infos s a = Some i \<and> pCI i \<in> set (tl s_commands))"
proof -
  obtain ts' where i: "loop_inv s ts' []" "core_inv s ts' []" using daemon_idle[OF assms(1,2)] by (auto simp: idle_inv_def)
  have t: "ts = ts'" by (rule loop_inv_timers[OF i(1) assms(3)])
  have k: "conn_inv s []" "events_inv s []" "memory_inv s ts []" "requests_inv s" using i(2) by (simp_all add: t core_inv_def base_inv_def)
  have call: "call_of s a = (fn, fd, q)" if "is_event s a fd p fn q" for a fd p fn q
    using is_event_alloc[OF that] by (auto simp: call_of_def Let_def)
  have 1: "user_callbacks s a \<noteq> None \<and> call_of s a = (FN_userTimerCallback, -1, a)" if "a \<in> set ts" for a
    using k(3) that call unfolding memory_inv_def by blast
  have 2: "call_of s a \<in> {(FN_listenCallback, s_fdListen s, 0), (FN_processCommandsCallback, s_fdCommand s, 0), (FN_processWakeupCallback, s_fdWakeupRead s, 0)}"
    if a: "a \<in> set (watched s)" for a
  proof -
    have "s_registerCalled s" if "a = s_listen_event" using k(1) a that by (auto simp: conn_inv_def split: if_splits)
    moreover have "a = s_listen_event \<or> a = s_commands_event \<or> a = s_wakeupfd_event" using k(1) a by (auto simp: conn_inv_def static_events_def)
    ultimately show ?thesis using k(2) a call by (auto simp: events_inv_def)
  qed
  have 3: "\<exists>i. infos s a = Some i \<and> pCI i \<in> set (tl s_commands)" if "a \<in> set (s_pendingRequests s)" for a
    using k(4) that unfolding requests_inv_def by blast
  show ?thesis using 1 2 3 k(4) by (simp add: requests_inv_def)
qed

theorem events_well_typed_witness: "\<exists>ts. dl awake_core timer_list ts \<and> (\<forall>a \<in> set ts. call_of awake_core a = (FN_userTimerCallback, -1, a))"
proof -
  obtain ts where "dl awake_core timer_list ts"
    using daemon_idle[OF awake_reach refusing_ok] by (auto simp: idle_inv_def loop_inv_def rings_are_def)
  then show ?thesis using events_well_typed[OF awake_reach refusing_ok] by blast
qed

text \<open>
  C24. With any driver that \<open>radio_ok\<close> admits, while the wake lock is held there is a linked timer that releases it: it is the last wake
  timer, all others are cancelled, and its callback releases the lock and frees it.
\<close>

theorem wake_lock_released:
  assumes "daemon_reach X R s" "radio_ok R" "lock_held s"
  shows "\<exists>a ts s'. dl s timer_list ts \<and> a \<in> set ts \<and> s_last_wake_timeout_info s = Some a \<and>
    (\<forall>b. b \<noteq> a \<longrightarrow> user_callbacks s b \<noteq> Some \<lparr>p_callback = WakeTimeout, userParam = 0\<rparr>) \<and>
    userTimerCallback R a s = Inr s' \<and> \<not> lock_held s' \<and> user_callbacks s' a = None \<and> s_last_wake_timeout_info s' = None"
proof -
  obtain ts where i: "loop_inv s ts []" "core_inv s ts []" using daemon_idle[OF assms(1,2)] by (auto simp: idle_inv_def)
  have w: "wake_timers s (set ts)" "s_last_wake_timeout_info s \<noteq> None" using i(2) assms(3) by (simp_all add: core_inv_def wake_inv_def)
  then obtain a where a: "s_last_wake_timeout_info s = Some a" by blast
  have u: "a \<in> set ts" "user_callbacks s a = Some \<lparr>p_callback = WakeTimeout, userParam = 0\<rparr>"
    "\<And>b. user_callbacks s b = Some \<lparr>p_callback = WakeTimeout, userParam = 0\<rparr> \<Longrightarrow> b = a"
    using w(1) a unfolding wake_timers_def by auto
  define s' where "s' = s\<lparr>wake_log := wake_log s @ [False], s_last_wake_timeout_info := None, user_callbacks := (user_callbacks s)(a := None), heap := (heap s)(a := None)\<rparr>"
  have "userTimerCallback R a s = Inr s'"
    using a u(2) by (simp add: userTimerCallback_def wakeTimeoutCallback_def releaseWakeLock_def s'_def)
  moreover have "\<not> lock_held s'" "user_callbacks s' a = None" "s_last_wake_timeout_info s' = None" by (simp_all add: s'_def lock_held_def)
  moreover have "dl s timer_list ts" using i(1) by (simp add: loop_inv_def rings_are_def)
  ultimately show ?thesis using a u by blast
qed

theorem wake_lock_released_witness:
  "\<exists>s'. userTimerCallback (refusing_radio (item_ext 4)) 5 awake_core = Inr s' \<and> \<not> lock_held s'"
  using wake_lock_released[OF awake_reach refusing_ok] awake_fields by (fastforce simp: lock_held_def)

text \<open>
  The pointer to the last wake timer is not protected: when the event loop runs that timer
  between the test of the pointer and the write through it by another thread's
  \<open>TGM_onUnsolicitedResponse\<close>, the write goes to freed memory.
\<close>

theorem wake_timer_race:
  assumes "daemon_reach X R s" "radio_ok R" "s_last_wake_timeout_info s = Some a"
  shows "\<exists>s1. cancel_wake a s = Inr s1 \<and> (\<exists>s2. userTimerCallback R a s = Inr s2 \<and> cancel_wake a s2 = Inl Undef)"
proof -
  obtain ts where "core_inv s ts []" using daemon_idle[OF assms(1,2)] by (auto simp: idle_inv_def)
  then have "user_callbacks s a = Some \<lparr>p_callback = WakeTimeout, userParam = 0\<rparr>"
    using assms(3) unfolding core_inv_def wake_inv_def wake_timers_def by blast
  then show ?thesis using assms(3) by (auto simp: userTimerCallback_def wakeTimeoutCallback_def releaseWakeLock_def cancel_wake_def)
qed

theorem wake_timer_race_witness:
  "\<exists>s2. userTimerCallback (refusing_radio (item_ext 4)) 5 awake_core = Inr s2 \<and> cancel_wake 5 s2 = Inl Undef"
  using wake_timer_race[OF awake_reach refusing_ok] awake_fields(1) by blast

end
