(* ===== verification/Driver_Calls.thy ===== *)
theory Driver_Calls
  imports Driver_Daemon Tgm_Reach
begin

text \<open>
  The Huawei driver as the driver of the daemon: the calls a request or a timed callback of the
  driver makes into the library, in any order it may make them, keep the daemon's invariant.
\<close>

section \<open>The calls\<close>

text \<open>The functions the driver is given in \<open>struct TGM_Env\<close>.\<close>

datatype lib_call = Complete token TGM_Errno payload | Unsolicited int | Timed timed_cb int

text \<open>The number of a timed callback among the driver's functions.\<close>

fun callback_number :: "timed_cb \<Rightarrow> nat" where
  "callback_number InitializeCallback = 0"
| "callback_number PollSIMState = 1"

fun perform :: "'p ext \<Rightarrow> modem radio \<Rightarrow> bool \<Rightarrow> timeval \<Rightarrow> lib_call \<Rightarrow> modem core \<Rightarrow> modem core outcome" where
  "perform X R on_loop now (Complete t e p) s = TGM_onRequestComplete_lib X (Some t) (errno_code e) (payload_data p) (data_length X (payload_data p)) s"
| "perform X R on_loop now (Unsolicited u) s = TGM_onUnsolicitedResponse_lib X R on_loop now u Null 0 s"
| "perform X R on_loop now (Timed c d) s = TGM_requestTimedCallback_lib on_loop now (callback_number c) 0 (Some (Timeval d 0)) s"

text \<open>
  A call, with the time at which it is made and the state the driver is in then. After the last
  call the driver is in the state \<open>m'\<close>.
\<close>

type_synonym timed_call = "timeval \<times> modem \<times> lib_call"

definition the_call :: "timed_call \<Rightarrow> lib_call" where
  "the_call c = snd (snd c)"

lemma the_call_simps [simp]: "the_call (now, m, c) = c"
  by (simp add: the_call_def)

fun perform_all :: "'p ext \<Rightarrow> modem radio \<Rightarrow> bool \<Rightarrow> timed_call list \<Rightarrow> modem \<Rightarrow> modem core \<Rightarrow> modem core outcome" where
  "perform_all X R on_loop [] m' s = Inr (s\<lparr>driver := m'\<rparr>)"
| "perform_all X R on_loop ((now, m, c) # cs) m' s =
     seqO (perform X R on_loop now c (s\<lparr>driver := m\<rparr>)) (perform_all X R on_loop cs m')"

text \<open>
  The calls between two states of the driver: those of each kind are what it recorded, in their
  order; between the kinds any order is possible.
\<close>

definition completions_of :: "lib_call list \<Rightarrow> (token \<times> TGM_Errno \<times> payload) list" where
  "completions_of = List.map_filter (\<lambda>c. case c of Complete t e p \<Rightarrow> Some (t, e, p) | _ \<Rightarrow> None)"

definition notices_of :: "lib_call list \<Rightarrow> int list" where
  "notices_of = List.map_filter (\<lambda>c. case c of Unsolicited u \<Rightarrow> Some u | _ \<Rightarrow> None)"

definition timed_calls_of :: "lib_call list \<Rightarrow> (timed_cb \<times> int) list" where
  "timed_calls_of = List.map_filter (\<lambda>c. case c of Timed c d \<Rightarrow> Some (c, d) | _ \<Rightarrow> None)"

definition calls_between :: "modem \<Rightarrow> modem \<Rightarrow> lib_call list \<Rightarrow> bool" where
  "calls_between m m' cs \<longleftrightarrow> completions m' = completions m @ completions_of cs \<and> notices m' = notices m @ notices_of cs \<and>
     timed m' = timed m @ timed_calls_of cs"

lemma calls_of_simps [simp]:
  "completions_of [] = []" "completions_of (Complete t e p # cs) = (t, e, p) # completions_of cs"
  "completions_of (Unsolicited u # cs) = completions_of cs" "completions_of (Timed f d # cs) = completions_of cs"
  "notices_of [] = []" "notices_of (Complete t e p # cs) = notices_of cs"
  "notices_of (Unsolicited u # cs) = u # notices_of cs" "notices_of (Timed f d # cs) = notices_of cs"
  "timed_calls_of [] = []" "timed_calls_of (Complete t e p # cs) = timed_calls_of cs"
  "timed_calls_of (Unsolicited u # cs) = timed_calls_of cs" "timed_calls_of (Timed f d # cs) = (f, d) # timed_calls_of cs"
  by (simp_all add: completions_of_def notices_of_def timed_calls_of_def List.map_filter_def)

lemma calls_of_append [simp]:
  "completions_of (cs @ ds) = completions_of cs @ completions_of ds" "notices_of (cs @ ds) = notices_of cs @ notices_of ds"
  "timed_calls_of (cs @ ds) = timed_calls_of cs @ timed_calls_of ds"
  by (simp_all add: completions_of_def notices_of_def timed_calls_of_def List.map_filter_def)

lemma in_completions: "Complete t e p \<in> set cs \<Longrightarrow> (t, e, p) \<in> set (completions_of cs)"
  by (force simp: completions_of_def List.map_filter_def)

lemma in_notices: "Unsolicited u \<in> set cs \<Longrightarrow> u \<in> set (notices_of cs)"
  by (force simp: notices_of_def List.map_filter_def)

section \<open>What the client sees of the calls\<close>

text \<open>The requests and the connection, and with the bytes sent.\<close>

definition requests_of :: "'m core \<Rightarrow> (addr \<Rightarrow> RequestInfo option) \<times> addr list \<times> int \<times> bool" where
  "requests_of s = (infos s, s_pendingRequests s, s_fdCommand s, s_writeMutex s)"

definition client_of :: "'m core \<Rightarrow> ((addr \<Rightarrow> RequestInfo option) \<times> addr list \<times> int \<times> bool) \<times> byte list" where
  "client_of s = (requests_of s, sent s)"

text \<open>Packets with unsolicited responses.\<close>

definition unsolicited_bytes :: "'p ext \<Rightarrow> ('p \<Rightarrow> item list \<Rightarrow> bool) \<Rightarrow> byte list \<Rightarrow> bool" where
  "unsolicited_bytes X written bs \<longleftrightarrow> (\<exists>qs. bs = concat (map (\<lambda>q. frame (parcel_data X q)) qs) \<and>
     (\<forall>q \<in> set qs. \<exists>xs. written q (Int32 RESPONSE_UNSOLICITED # xs)))"

lemma no_bytes [simp]: "unsolicited_bytes X written []"
  by (auto simp: unsolicited_bytes_def intro: exI[of _ "[]"])

lemma more_bytes: "unsolicited_bytes X written bs \<Longrightarrow> unsolicited_bytes X written cs \<Longrightarrow> unsolicited_bytes X written (bs @ cs)"
  unfolding unsolicited_bytes_def by (metis (no_types, lifting) Un_iff concat_append map_append set_append)

lemma one_packet: "written q (Int32 RESPONSE_UNSOLICITED # xs) \<Longrightarrow> unsolicited_bytes X written (frame (parcel_data X q))"
  by (auto simp: unsolicited_bytes_def intro!: exI[of _ "[q]"])

text \<open>\<open>s'\<close> has the requests of \<open>s\<close>, and only unsolicited responses were sent.\<close>

definition same_requests :: "'p ext \<Rightarrow> ('p \<Rightarrow> item list \<Rightarrow> bool) \<Rightarrow> 'm core \<Rightarrow> 'm core \<Rightarrow> bool" where
  "same_requests X written s s' \<longleftrightarrow> requests_of s' = requests_of s \<and> (\<exists>bs. unsolicited_bytes X written bs \<and> sent s' = sent s @ bs)"

lemma same_requests_refl [simp]: "same_requests X written s s"
  by (auto simp: same_requests_def intro!: exI[of _ "[]"])

lemma same_requests_client: "client_of s' = client_of s \<Longrightarrow> same_requests X written s s'"
  by (auto simp: same_requests_def client_of_def intro!: exI[of _ "[]"])

lemma same_requests_trans: "same_requests X written s s1 \<Longrightarrow> same_requests X written s1 s2 \<Longrightarrow> same_requests X written s s2"
  unfolding same_requests_def using more_bytes by fastforce

lemma same_requests_driver [simp]: "same_requests X written (s\<lparr>driver := m\<rparr>) s' = same_requests X written s s'"
  "same_requests X written s (s'\<lparr>driver := m\<rparr>) = same_requests X written s s'"
  by (simp_all add: same_requests_def requests_of_def)

lemma store_more: "loop.more s = x \<Longrightarrow> allO (\<lambda>s'. loop.more s' = x) (store p f s)"
  by (auto simp: store_def split: option.split)

lemma addToList_more: "loop.more s = x \<Longrightarrow> allO (\<lambda>s'. loop.more s' = x) (addToList ev l s)"
  unfolding addToList_def by (intro allO_seqO[OF store_more] allO_any store_more)

lemma timer_add_more: "loop.more s = x \<Longrightarrow> allO (\<lambda>s'. loop.more s' = x) (tgm_timer_add n now ev tv s)"
proof -
  assume x: "loop.more s = x"
  have "allO (\<lambda>s'. loop.more s' = x) (case tv of None \<Rightarrow> Inr s1 | Some d \<Rightarrow> seqO (load (Some timer_list) s1) (\<lambda>head.
      seqO (store (Some ev) (\<lambda>e. e\<lparr>ev_fd := -1, ev_timeout := timeradd now d\<rparr>) s1) (\<lambda>s2. case ev_next head of None \<Rightarrow> Inl Undef
        | Some first \<Rightarrow> seqO (find_place n (timeradd now d) first s2) (\<lambda>l. addToList ev l s2))))" if "loop.more s1 = x" for s1
  proof (cases tv)
    case (Some d)
    show ?thesis unfolding Some option.case
      by (rule allO_any, rule allO_seqO[OF store_more[OF that]]) (auto intro!: allO_any addToList_more split: option.split)
  qed (use that in simp)
  then show ?thesis
    using x unfolding tgm_timer_add_def mutex_acquire_def
    by (cases "locked s") (auto simp: mutex_release_def intro!: allO_seqO)
qed

lemma timer_client: "allO (\<lambda>(a, s'). client_of s' = client_of s) (internalRequestTimedCallback on_loop now cb p rt s)"
proof -
  have m: "client_of s' = client_of s1" if "loop.more s' = loop.more s1" for s' s1 :: "'m core"
    using that by (simp add: client_of_def requests_of_def more_fields[OF that])
  have r: "client_of (triggerEvLoop b s') = client_of s'" for b and s' :: "'m core" by (simp add: triggerEvLoop_def client_of_def requests_of_def)
  show ?thesis unfolding internalRequestTimedCallback_def Let_def
  proof (rule allO_seqO[OF timer_add_more[OF refl]])
    fix s3 assume "loop.more s3 = loop.more (tgm_event_set (brk s) (-1) False FN_userTimerCallback (brk s)
      (s\<lparr>brk := brk s + 1, user_callbacks := (user_callbacks s)(brk s \<mapsto> \<lparr>p_callback = cb, userParam = p\<rparr>)\<rparr>))"
    from m[OF this] have "client_of s3 = client_of s" by (simp add: tgm_event_set_def client_of_def requests_of_def)
    then show "allO (\<lambda>(a, s'). client_of s' = client_of s) (Inr (brk s, triggerEvLoop on_loop s3))" by (simp add: r)
  qed
qed

lemma timed_client: "allO (\<lambda>s'. client_of s' = client_of s) (TGM_requestTimedCallback_lib on_loop now f p rt s)"
  unfolding TGM_requestTimedCallback_lib_def by (rule allO_seqO[OF timer_client]) auto

lemma send_requests: "\<not> s_writeMutex s \<Longrightarrow>
    allO (\<lambda>(r, s'). requests_of s' = requests_of s \<and> sent s' = sent s @ (if sendable (parcel_data X p) s then frame (parcel_data X p) else [])) (sendResponse X p s)"
  unfolding sendResponse_def by (rule allO_mono[OF send_effect]) (auto simp: requests_of_def)

lemma radio_change_entry: "s_unsolResponses ! nat (TGM_UNSOLICITED_RADIO_STATE_CHANGED - TGM_UNSOLICITED_BASE) =
    (TGM_UNSOLICITED_RADIO_STATE_CHANGED, ResponseVoid, WAKE_PARTIAL)"
  by (simp add: s_unsolResponses_def TGM_UNSOLICITED_RADIO_STATE_CHANGED_def TGM_UNSOLICITED_BASE_def)

lemma unsol_requests:
  fixes s :: "'m core"
  assumes X: "parcel_laws X written reads" and s: "\<not> s_writeMutex s"
  shows "allO (same_requests X written s) (TGM_onUnsolicitedResponse_lib X R on_loop now TGM_UNSOLICITED_RADIO_STATE_CHANGED Null 0 s)"
proof -
  define g where "g = grabPartialWakeLock s"
  define p where "p = writeInt32 X (onStateRequest_of R g) (writeInt32 X TGM_UNSOLICITED_RADIO_STATE_CHANGED (writeInt32 X RESPONSE_UNSOLICITED (parcel_new X)))"
  have w: "written p [Int32 RESPONSE_UNSOLICITED, Int32 TGM_UNSOLICITED_RADIO_STATE_CHANGED, Int32 (onStateRequest_of R g)]"
    using parcel_write(2)[OF X parcel_write(2)[OF X parcel_write(2)[OF X parcel_write(1)[OF X]]]] by (simp add: p_def)
  have b: "unsolicited_bytes X written (frame (parcel_data X p))" by (rule one_packet) (rule w)
  have g: "\<not> s_writeMutex g" "client_of g = client_of s" using s by (simp_all add: g_def grabPartialWakeLock_def client_of_def requests_of_def)
  have c: "allO (\<lambda>s'. client_of s' = client_of s2) (case s_last_wake_timeout_info s2 of None \<Rightarrow> Inr s2 | Some a \<Rightarrow> cancel_wake a s2)" for s2 :: "'m core"
    by (auto simp: cancel_wake_def client_of_def requests_of_def split: option.split)
  have wake: "allO (\<lambda>s'. client_of s' = client_of s2) (seqO (case s_last_wake_timeout_info s2 of None \<Rightarrow> Inr s2 | Some a \<Rightarrow> cancel_wake a s2) (\<lambda>s3.
      seqO (internalRequestTimedCallback on_loop now WakeTimeout 0 (Some TIMEVAL_WAKE_TIMEOUT) s3) (\<lambda>(a, s4). Inr (s4\<lparr>s_last_wake_timeout_info := Some a\<rparr>))))"
    for s2 :: "'m core"
    by (rule allO_seqO[OF c], rule allO_seqO[OF timer_client]) (auto simp: client_of_def requests_of_def)
  have send: "allO (\<lambda>(r, s'). same_requests X written s s') (sendResponse X p g)"
    by (rule allO_mono[OF send_requests[OF g(1)]]) (use g(2) b in \<open>auto simp: same_requests_def client_of_def\<close>)
  have "allO (same_requests X written s) (seqO (sendResponse X p g) (\<lambda>(_, s2).
      seqO (case s_last_wake_timeout_info s2 of None \<Rightarrow> Inr s2 | Some a \<Rightarrow> cancel_wake a s2) (\<lambda>s3.
      seqO (internalRequestTimedCallback on_loop now WakeTimeout 0 (Some TIMEVAL_WAKE_TIMEOUT) s3) (\<lambda>(a, s4). Inr (s4\<lparr>s_last_wake_timeout_info := Some a\<rparr>)))))"
    by (rule allO_seqO[OF send]) (auto intro!: allO_mono[OF wake] elim: same_requests_trans[OF _ same_requests_client])
  then show ?thesis
    by (simp add: TGM_onUnsolicitedResponse_lib_def Let_def radio_change_entry responseVoid_def g_def[symmetric] p_def[symmetric])
qed

text \<open>A request that is still pending is the one it was; a completion takes it out of the list.\<close>

definition pending_is :: "addr \<Rightarrow> RequestInfo \<Rightarrow> 'm core \<Rightarrow> bool" where
  "pending_is a info s \<longleftrightarrow> (a \<in> set (s_pendingRequests s) \<longrightarrow> infos s a = Some info)"

lemma pending_requests_of: "requests_of s' = requests_of s \<Longrightarrow> pending_is a info s' = pending_is a info s"
  by (simp add: pending_is_def requests_of_def)

lemma complete_pending:
  assumes "distinct (s_pendingRequests s)" "\<not> s_writeMutex s" "pending_is a info s"
  shows "allO (pending_is a info) (TGM_onRequestComplete_lib X (Some a) e d n s)"
proof (cases "a \<in> set (s_pendingRequests s)")
  case True
  define s1 where "s1 = s\<lparr>s_pendingRequests := remove1 a (s_pendingRequests s)\<rparr>"
  have out: "a \<notin> set (s_pendingRequests s1)" using assms(1) by (simp add: s1_def)
  have gone: "pending_is a info (s2\<lparr>infos := h\<rparr>)" if "requests_of s2 = requests_of s1" for s2 h
    using out that by (simp add: pending_is_def requests_of_def)
  have m: "\<not> s_writeMutex s1" using assms(2) by (simp add: s1_def)
  have send: "allO (pending_is a info) (seqO (sendResponse X p s1) (\<lambda>(_, s2). Inr (s2\<lparr>infos := (infos s2)(a := None)\<rparr>)))" for p
    by (rule allO_seqO[OF send_requests[OF m]]) (use gone in auto)
  then show ?thesis
    using True by (simp add: TGM_onRequestComplete_lib_def dequeue_some Let_def s1_def[symmetric])
      (rule allO_any, simp add: gone, intro impI, rule allO_any, rule send)
next
  case False
  then show ?thesis using assms(3) by (simp add: not_pending_ignored)
qed

section \<open>The calls of the driver are safe\<close>

definition call_ok :: "addr \<Rightarrow> response_fn \<Rightarrow> lib_call \<Rightarrow> bool" where
  "call_ok a fn c \<longleftrightarrow> (case c of Complete t e p \<Rightarrow> t = a \<and> (e = TGM_E_SUCCESS \<longrightarrow> typed fn p)
     | Unsolicited u \<Rightarrow> u = TGM_UNSOLICITED_RADIO_STATE_CHANGED | Timed f d \<Rightarrow> True)"

lemma perform_keeps:
  assumes X: "parcel_laws X written reads" "sizeof_ptr X = 4" and i: "loop_inv s ts ps" "core_inv s ts ps"
    and a: "pending_is a info s" and c: "call_ok a (ci_responseFunction (pCI info)) c"
  shows "outO safe (\<lambda>s'. lib_keeps s ts ps s' \<and> pending_is a info s') (perform X R on_loop now c s)"
proof -
  have b: "\<not> s_writeMutex s" "distinct (s_pendingRequests s)" using i(2) by (simp_all add: core_inv_def base_inv_def requests_inv_def)
  show ?thesis
  proof (cases c)
    case (Complete t e p)
    then have t: "t = a" "e = TGM_E_SUCCESS \<longrightarrow> typed (ci_responseFunction (pCI info)) p" using c by (simp_all add: call_ok_def)
    obtain q where "solicited_parcel X info (errno_code e) (payload_data p) (data_length X (payload_data p)) = Inr q"
      by (rule typed_parcel[OF X t(2)])
    then have "fits X (Some a) (errno_code e) (payload_data p) (data_length X (payload_data p)) s"
      using a by (auto simp: fits_def pending_is_def)
    then show ?thesis unfolding Complete t(1) perform.simps
      by (rule outO_conj[OF complete_keeps[OF i] complete_pending[OF b(2,1) a]])
  next
    case (Unsolicited u)
    have u: "u = TGM_UNSOLICITED_RADIO_STATE_CHANGED" using c Unsolicited by (simp add: call_ok_def)
    have p: "allO (pending_is a info) (TGM_onUnsolicitedResponse_lib X R on_loop now u Null 0 s)"
      unfolding u by (rule allO_mono[OF unsol_requests[OF X(1) b(1)]]) (use a pending_requests_of same_requests_def in blast)
    show ?thesis unfolding Unsolicited perform.simps by (rule outO_conj[OF unsol_keeps[OF i null_fits] p])
  next
    case (Timed f d)
    have p: "allO (pending_is a info) (TGM_requestTimedCallback_lib on_loop now (callback_number f) 0 (Some (Timeval d 0)) s)"
      by (rule allO_mono[OF timed_client]) (use a pending_requests_of in \<open>auto simp: client_of_def\<close>)
    then show ?thesis unfolding Timed perform.simps by (rule outO_conj[OF timed_keeps[OF i]])
  qed
qed

text \<open>The driver's own state is no part of the daemon's invariant.\<close>

lemma driver_keeps:
  assumes "loop_inv s ts ps" "core_inv s ts ps"
  shows "lib_keeps s ts ps (s\<lparr>driver := m\<rparr>)"
proof -
  have "core_inv (s\<lparr>driver := m\<rparr>) ts ps" by (rule core_cong[OF assms(2)]) simp_all
  then show ?thesis by (intro keeps_same[OF assms(1)]) (simp_all add: core_inv_def)
qed

lemma driver_same:
  fixes s :: "'m core"
  shows "loop_inv (s\<lparr>driver := m\<rparr>) = loop_inv s" "event_core (s\<lparr>driver := m\<rparr>) = event_core s" "watched (s\<lparr>driver := m\<rparr>) = watched s"
  by (rule loop_same_fields; simp)+

lemma driver_core: "core_inv (s\<lparr>driver := m\<rparr>) ts ps = core_inv s ts ps"
proof -
  have "core_inv (s\<lparr>driver := m\<rparr>) ts ps" if "core_inv s ts ps" for s :: "'m core" and m by (rule core_cong[OF that]) simp_all
  from this[of s m] this[of "s\<lparr>driver := m\<rparr>" "driver s"] show ?thesis by auto
qed

lemma driver_before: "lib_keeps (s\<lparr>driver := m\<rparr>) ts ps s' \<Longrightarrow> lib_keeps s ts ps s'"
  by (erule keeps_before) (simp_all add: driver_same)

lemma perform_all_keeps:
  assumes X: "parcel_laws X written reads" "sizeof_ptr X = 4"
    and "loop_inv s ts ps" "core_inv s ts ps" "pending_is a info s" "\<forall>c \<in> set cs. call_ok a (ci_responseFunction (pCI info)) (the_call c)"
  shows "outO safe (lib_keeps s ts ps) (perform_all X R on_loop cs m' s)"
  using assms(3-)
proof (induction cs arbitrary: s ts)
  case Nil
  then show ?case using driver_keeps by simp
next
  case (Cons c cs)
  obtain now m k where c: "c = (now, m, k)" by (metis surj_pair)
  define s0 where "s0 = s\<lparr>driver := m\<rparr>"
  have i0: "loop_inv s0 ts ps" "core_inv s0 ts ps" "pending_is a info s0"
    using Cons.prems(1-3) by (simp_all add: s0_def driver_same driver_core pending_is_def)
  have "outO safe (lib_keeps s0 ts ps) (seqO (perform X R on_loop now k s0) (perform_all X R on_loop cs m'))"
  proof (rule outO_seqO[OF perform_keeps[OF X i0]])
    show "call_ok a (ci_responseFunction (pCI info)) k" using Cons.prems(4) by (simp add: c)
    fix s1 assume s1: "lib_keeps s0 ts ps s1 \<and> pending_is a info s1"
    then obtain ts1 where ts1: "loop_inv s1 ts1 ps" "core_inv s1 ts1 ps" by (auto simp: lib_keeps_def)
    have "outO safe (lib_keeps s1 ts1 ps) (perform_all X R on_loop cs m' s1)" if "loop_inv s1 ts1 ps" "core_inv s1 ts1 ps" for ts1
      by (rule Cons.IH[OF that]) (use s1 Cons.prems(4) in auto)
    then have "outO safe (\<lambda>s2. \<forall>ts1. loop_inv s1 ts1 ps \<longrightarrow> core_inv s1 ts1 ps \<longrightarrow> lib_keeps s1 ts1 ps s2) (perform_all X R on_loop cs m' s1)"
      using ts1 by (cases "perform_all X R on_loop cs m' s1") auto
    then show "outO safe (lib_keeps s0 ts ps) (perform_all X R on_loop cs m' s1)"
      by (rule outO_mono) (use s1 lib_keeps_trans in blast)
  qed
  then show ?case unfolding c perform_all.simps s0_def[symmetric] by (rule outO_mono) (simp add: s0_def driver_before)
qed

text \<open>The completions and the unsolicited responses of a request.\<close>

lemma request_calls_ok:
  assumes "onRequest np request data a m = Inr m'" "calls_between m m' cs"
  shows "\<forall>c \<in> set cs. call_ok a (answers_with request) c"
proof
  fix c assume c: "c \<in> set cs"
  have b: "completions m' = completions m @ completions_of cs" "notices m' = notices m @ notices_of cs"
    using assms(2) by (simp_all add: calls_between_def)
  show "call_ok a (answers_with request) c"
  proof (cases c)
    case (Complete t e p)
    then have new: "(t, e, p) \<in> set (completions_of cs)" using c in_completions by blast
    have "e = TGM_E_SUCCESS \<longrightarrow> typed (answers_with request) p"
      using request_typed[where m = m and request = request and np = np and data = data and t = a] assms(1) new b(1) by auto
    moreover have "t = a"
      using request_completions[of request m a np data] assms(1) new b(1) by (auto simp: once_def split: if_splits)
    ultimately show ?thesis by (simp add: Complete call_ok_def)
  next
    case (Unsolicited u)
    then have "u \<in> set (notices_of cs)" using c in_notices by blast
    moreover have "announced (sState m) (notices m) m'"
      using announce_req.onRequest_keeps[of "sState m" "notices m" m np request data a] assms(1) by (simp add: announced_def)
    ultimately show ?thesis using b(2) by (auto simp: announced_def Unsolicited call_ok_def)
  qed (simp add: call_ok_def)
qed

lemma timed_calls_ok:
  assumes "run_timed np f m = Inr m'" "calls_between m m' cs"
  shows "\<forall>c \<in> set cs. call_ok a fn c"
proof
  fix c assume c: "c \<in> set cs"
  have b: "completions m' = completions m @ completions_of cs" "notices m' = notices m @ notices_of cs"
    using assms(2) by (simp_all add: calls_between_def)
  show "call_ok a fn c"
  proof (cases c)
    case (Complete t e p)
    then have new: "(t, e, p) \<in> set (completions_of cs)" using c in_completions by blast
    have "request_state m' = request_state m" using keep_request.run_timed_all[OF refl, of m np f] assms(1) by simp
    then have "completions m' = completions m" by (rule completions_request_state)
    then show ?thesis using new b(1) by simp
  next
    case (Unsolicited u)
    then have "u \<in> set (notices_of cs)" using c in_notices by blast
    moreover have "announced (sState m) (notices m) m'"
      using announce.run_timed_all[of "sState m" "notices m" m np f] assms(1) by (simp add: announced_def)
    ultimately show ?thesis using b(2) by (auto simp: announced_def Unsolicited call_ok_def)
  qed (simp add: call_ok_def)
qed

section \<open>Properties\<close>

text \<open>
  C6. The Huawei driver as the driver of the daemon: the completions, unsolicited responses and
  timed callbacks that a call of \<open>onRequest\<close> with a pending request, or of one of the driver's
  timed callbacks, makes of the library, in any order it may make them, either wait for the
  client, end the process on a failed write, or keep the invariant of the event loop and of the
  daemon. No call is undefined, whatever the modem answered.
\<close>

theorem driver_calls_safe:
  assumes "parcel_laws X written reads" "sizeof_ptr X = 4" "loop_inv s ts ps" "core_inv s ts ps" "calls_between (driver s) m' (map the_call cs)"
    "(onRequest np request data a (driver s) = Inr m' \<and> a \<in> set (s_pendingRequests s) \<and> (\<exists>info. infos s a = Some info \<and> pCI info = s_commands ! nat request))
      \<or> run_timed np f (driver s) = Inr m'"
  shows "outO {Blocked, Exited} (lib_keeps s ts ps) (perform_all X R True cs m' s)"
proof -
  obtain a' info where ok: "pending_is a' info s" "\<forall>c \<in> set (map the_call cs). call_ok a' (ci_responseFunction (pCI info)) c"
  proof (cases "run_timed np f (driver s) = Inr m'")
    case True
    obtain b where "b \<notin> set (s_pendingRequests s)" using ex_new_if_finite[OF infinite_UNIV_nat finite_set] by blast
    then show thesis using that[of b] timed_calls_ok[OF True assms(5)] by (auto simp: pending_is_def)
  next
    case False
    then obtain info where "onRequest np request data a (driver s) = Inr m'" "infos s a = Some info" "pCI info = s_commands ! nat request"
      using assms(6) by blast
    then show thesis using that[of a info] request_calls_ok[OF _ assms(5), of np request data a] by (simp add: pending_is_def answers_with_def)
  qed
  show ?thesis by (rule perform_all_keeps[OF assms(1-4) ok(1)]) (use ok(2) in simp)
qed

text \<open>The SIM poll of a daemon that was just started, answered with \<open>SIM PIN\<close>.\<close>

definition demo_radio :: "modem radio" where
  "demo_radio = \<lparr>rf_version = TGM_VERSION, onRequest_of = (\<lambda>n d len a s. Inl Blocked), onStateRequest_of = (\<lambda>s. radio_state_code (currentState (driver s))),
     getVersion_of = None, timed_of = (\<lambda>f p s. Inr s)\<rparr>"

theorem driver_calls_safe_witness:
  "\<exists>s ts m'. driver s = demo_modem TGM_STATE_SIM_NOT_READY [EvLine ''+CPIN: SIM PIN'', EvLine ''OK'', EvWakeup] \<and>
    run_timed True PollSIMState (driver s) = Inr m' \<and> notices m' = [TGM_UNSOLICITED_RADIO_STATE_CHANGED] \<and>
    loop_inv s ts [] \<and> core_inv s ts [] \<and>
    outO {Blocked, Exited} (lib_keeps s ts []) (perform_all (item_ext 4) demo_radio True [(Timeval 0 0, m', Unsolicited TGM_UNSOLICITED_RADIO_STATE_CHANGED)] m' s)"
proof -
  let ?m = "demo_modem TGM_STATE_SIM_NOT_READY [EvLine ''+CPIN: SIM PIN'', EvLine ''OK'', EvWakeup]"
  define m' where "m' = (demo_modem TGM_STATE_SIM_LOCKED_OR_ABSENT [])\<lparr>s_type := SINGLELINE, wire := ''AT+CPIN?'' @ [CR], notices := [1003]\<rparr>"
  have run: "run_timed True PollSIMState ?m = Inr m'" unfolding m'_def by code_simp
  have n: "notices m' = [TGM_UNSOLICITED_RADIO_STATE_CHANGED]" by (simp add: m'_def TGM_UNSOLICITED_RADIO_STATE_CHANGED_def)
  obtain s0 :: "modem core" and ts where s0: "loop_inv s0 ts []" "core_inv s0 ts []"
    using start_idle[of ?m "item_ext 4"] by (auto simp: idle_inv_def)
  define s where "s = s0\<lparr>driver := ?m\<rparr>"
  have l: "loop_inv s = loop_inv s0" by (rule loop_same_fields; simp add: s_def)
  have i: "loop_inv s ts []" "core_inv s ts []"
    using s0 core_cong[OF s0(2), of s] by (simp_all add: l) (simp add: s_def)
  have c: "calls_between (driver s) m' (map the_call [(Timeval 0 0, m', Unsolicited TGM_UNSOLICITED_RADIO_STATE_CHANGED)])"
    by (simp add: calls_between_def s_def m'_def demo_modem_def TGM_UNSOLICITED_RADIO_STATE_CHANGED_def)
  have psz: "sizeof_ptr (item_ext 4) = 4" by (simp add: item_ext_def)
  have d: "driver s = ?m" by (simp add: s_def)
  have r: "run_timed True PollSIMState (driver s) = Inr m'" using run d by (simp only:)
  have "outO {Blocked, Exited} (lib_keeps s ts [])
    (perform_all (item_ext 4) demo_radio True [(Timeval 0 0, m', Unsolicited TGM_UNSOLICITED_RADIO_STATE_CHANGED)] m' s)"
    by (rule driver_calls_safe[OF item_ext_laws psz i c disjI2[OF r]])
  then show ?thesis using d r n i by blast
qed

end
