(* ===== verification/Client_Request.thy ===== *)
theory Client_Request
  imports Driver_Calls
begin

text \<open>
  A request of the client on its whole way: \<open>processCommandBuffer\<close> of \<open>libtgm/tgm.cpp\<close> reads it
  from a record of the command socket, \<open>onRequest\<close> of the Huawei driver carries it out, and
  \<open>TGM_onRequestComplete\<close> sends the answer.
\<close>

section \<open>The driver of the daemon\<close>

text \<open>The data of a request as the driver reads it: an array of strings, or none.\<close>

fun driver_args :: "c_data \<Rightarrow> string option list" where
  "driver_args (Strings ss) = ss"
| "driver_args _ = []"

fun callback_of :: "nat \<Rightarrow> timed_cb" where
  "callback_of 0 = InitializeCallback"
| "callback_of (Suc n) = PollSIMState"

definition getVersion :: string where
  "getVersion = ''camangi huawei 3G modem stack''"

text \<open>
  The functions the driver registers: whenever the driver's own function returns, its calls of
  the library were made, in some order.
\<close>

definition runs_driver :: "'p ext \<Rightarrow> bool \<Rightarrow> modem radio \<Rightarrow> bool" where
  "runs_driver X np R \<longleftrightarrow> rf_version R = TGM_VERSION \<and> getVersion_of R = Some getVersion \<and>
     (\<forall>s. onStateRequest_of R s = radio_state_code (currentState (driver s))) \<and>
     (\<forall>n d len a s m'. onRequest np n (driver_args d) a (driver s) = Inr m' \<longrightarrow>
        (\<exists>cs. calls_between (driver s) m' (map the_call cs) \<and> onRequest_of R n d len a s = perform_all X R True cs m' s)) \<and>
     (\<forall>f p s m'. run_timed np (callback_of f) (driver s) = Inr m' \<longrightarrow>
        (\<exists>cs. calls_between (driver s) m' (map the_call cs) \<and> timed_of R f p s = perform_all X R True cs m' s))"

text \<open>
  A function of the driver that waits for ever does so on the thread of the daemon, and one whose
  own code ends in \<open>exit\<close> or is undefined ends the process with it.
\<close>

definition ends_process :: "bool \<Rightarrow> modem radio \<Rightarrow> bool" where
  "ends_process np R \<longleftrightarrow>
     (\<forall>n d len a s e. onRequest np n (driver_args d) a (driver s) = Inl e \<longrightarrow> onRequest_of R n d len a s = Inl (if e = Blocked then Blocked else Exited)) \<and>
     (\<forall>f p s e. run_timed np (callback_of f) (driver s) = Inl e \<longrightarrow> timed_of R f p s = Inl (if e = Blocked then Blocked else Exited))"

section \<open>The calls of one request\<close>

lemma perform_quiet:
  assumes X: "parcel_laws X written reads" and s: "\<not> s_writeMutex s" "a \<notin> set (s_pendingRequests s) \<or> (\<forall>t e p. c \<noteq> Complete t e p)"
    and c: "call_ok a fn c"
  shows "allO (same_requests X written s) (perform X R on_loop now c s)"
proof (cases c)
  case (Complete t e p)
  then show ?thesis using s(2) c by (simp add: call_ok_def not_pending_ignored)
next
  case (Unsolicited u)
  then show ?thesis using c unsol_requests[OF X s(1)] by (simp add: call_ok_def)
next
  case (Timed f d)
  then show ?thesis using allO_mono[OF timed_client same_requests_client] by simp
qed

lemma quiet_calls:
  assumes X: "parcel_laws X written reads" and "\<not> s_writeMutex s" "\<forall>c \<in> set cs. call_ok a fn (the_call c)"
    and "a \<notin> set (s_pendingRequests s) \<or> completions_of (map the_call cs) = []"
  shows "allO (same_requests X written s) (perform_all X R on_loop cs m' s)"
  using assms(2-)
proof (induction cs arbitrary: s)
  case (Cons c cs)
  obtain now m k where c: "c = (now, m, k)" by (metis surj_pair)
  define s0 where "s0 = s\<lparr>driver := m\<rparr>"
  have k: "call_ok a fn k" "a \<notin> set (s_pendingRequests s0) \<or> (\<forall>t e p. k \<noteq> Complete t e p)" "\<not> s_writeMutex s0"
    using Cons.prems by (auto simp: c s0_def)
  have rest: "completions_of (map the_call (c # cs)) = [] \<Longrightarrow> completions_of (map the_call cs) = []" by (cases k) (simp_all add: c)
  have "allO (same_requests X written s0) (seqO (perform X R on_loop now k s0) (perform_all X R on_loop cs m'))"
  proof (rule allO_seqO[OF perform_quiet[OF X k(3,2,1)]])
    fix s1 assume s1: "same_requests X written s0 s1"
    then have r: "s_pendingRequests s1 = s_pendingRequests s" "s_writeMutex s1 = s_writeMutex s" by (simp_all add: same_requests_def requests_of_def s0_def)
    have "allO (same_requests X written s1) (perform_all X R on_loop cs m' s1)"
      by (rule Cons.IH) (use Cons.prems r rest in auto)
    then show "allO (same_requests X written s0) (perform_all X R on_loop cs m' s1)"
      by (rule allO_mono) (rule same_requests_trans[OF s1])
  qed
  moreover have "same_requests X written s0 = same_requests X written s" by (intro ext) (simp add: s0_def)
  ultimately show ?case by (simp add: c s0_def)
qed simp

lemma perform_append:
  "perform_all X R on_loop (xs @ (now, m, c) # ys) m' s =
     seqO (perform_all X R on_loop xs m s) (\<lambda>s1. seqO (perform X R on_loop now c s1) (perform_all X R on_loop ys m'))"
proof (induction xs arbitrary: s)
  case (Cons x xs)
  obtain now' m1 k where "x = (now', m1, k)" by (metis surj_pair)
  then show ?case using Cons by (cases "perform X R on_loop now' k (s\<lparr>driver := m1\<rparr>)") simp_all
qed simp

lemma first_completion:
  "completions_of (map the_call cs) = (t, e, p) # rest \<Longrightarrow>
    \<exists>xs now m ys. cs = xs @ (now, m, Complete t e p) # ys \<and> completions_of (map the_call xs) = [] \<and> completions_of (map the_call ys) = rest"
proof (induction cs)
  case (Cons c cs)
  obtain now m k where c: "c = (now, m, k)" by (metis surj_pair)
  show ?case
  proof (cases k)
    case (Complete t' e' p')
    then show ?thesis using Cons.prems c by (intro exI[of _ "[]"]) auto
  next
    case (Unsolicited u)
    then obtain xs now' m' ys where "cs = xs @ (now', m', Complete t e p) # ys" "completions_of (map the_call xs) = []" "completions_of (map the_call ys) = rest"
      using Cons c by auto
    then show ?thesis using c Unsolicited by (intro exI[of _ "c # xs"] exI) auto
  next
    case (Timed f d)
    then obtain xs now' m' ys where "cs = xs @ (now', m', Complete t e p) # ys" "completions_of (map the_call xs) = []" "completions_of (map the_call ys) = rest"
      using Cons c by auto
    then show ?thesis using c Timed by (intro exI[of _ "c # xs"] exI) auto
  qed
qed simp

text \<open>The first completion of the request is its answer.\<close>

definition answered :: "'p ext \<Rightarrow> ('p \<Rightarrow> item list \<Rightarrow> bool) \<Rightarrow> addr \<Rightarrow> item list \<Rightarrow> 'm core \<Rightarrow> 'm core \<Rightarrow> bool" where
  "answered X written a xs s s' \<longleftrightarrow> a \<notin> set (s_pendingRequests s') \<and> (\<exists>us q vs. unsolicited_bytes X written us \<and> unsolicited_bytes X written vs \<and>
     written q xs \<and> sent s' = sent s @ us @ (if sendable (parcel_data X q) s then frame (parcel_data X q) else []) @ vs)"

lemma completion_sent:
  assumes X: "parcel_laws X written reads" "sizeof_ptr X = 4"
    and s: "distinct (s_pendingRequests s)" "a \<in> set (s_pendingRequests s)" "infos s a = Some info" "\<not> cancelled info" "\<not> local info" "\<not> s_writeMutex s"
    and p: "e = TGM_E_SUCCESS \<longrightarrow> typed (ci_responseFunction (pCI info)) p"
  shows "allO (\<lambda>s'. (\<exists>q. written q (response_of X (ci_responseFunction (pCI info)) (ri_token info) e p) \<and>
      sent s' = sent s @ (if sendable (parcel_data X q) s then frame (parcel_data X q) else [])) \<and> a \<notin> set (s_pendingRequests s') \<and> \<not> s_writeMutex s')
    (perform X R on_loop now (Complete a e p) s)"
proof -
  obtain q where q: "solicited_parcel X info (errno_code e) (payload_data p) (data_length X (payload_data p)) = Inr q"
    "written q (response_of X (ci_responseFunction (pCI info)) (ri_token info) e p)"
    using typed_parcel[OF X p] by blast
  have "a \<notin> set (remove1 a (s_pendingRequests s))" using s(1) by simp
  then show ?thesis unfolding perform.simps
    by (intro allO_mono[OF completed[OF s(2-5) q(1) s(6)]]) (use q(2) s(6) in auto)
qed

lemma calls_answered:
  assumes X: "parcel_laws X written reads" "sizeof_ptr X = 4"
    and s: "distinct (s_pendingRequests s)" "a \<in> set (s_pendingRequests s)" "infos s a = Some info" "\<not> cancelled info" "\<not> local info" "\<not> s_writeMutex s"
    and c: "completions_of (map the_call cs) = (t, e, p) # rest" "\<forall>c \<in> set cs. call_ok a (ci_responseFunction (pCI info)) (the_call c)"
  shows "allO (answered X written a (response_of X (ci_responseFunction (pCI info)) (ri_token info) e p) s) (perform_all X R on_loop cs m' s)"
proof -
  obtain xs now m ys where cs: "cs = xs @ (now, m, Complete t e p) # ys" "completions_of (map the_call xs) = []"
    using first_completion[OF c(1)] by blast
  have ok: "\<forall>c \<in> set xs. call_ok a (ci_responseFunction (pCI info)) (the_call c)" "\<forall>c \<in> set ys. call_ok a (ci_responseFunction (pCI info)) (the_call c)"
    "t = a" "e = TGM_E_SUCCESS \<longrightarrow> typed (ci_responseFunction (pCI info)) p"
    using c(2) by (simp_all add: cs(1) call_ok_def)
  have before: "allO (same_requests X written s) (perform_all X R on_loop xs m s)" by (rule quiet_calls[OF X(1) s(6) ok(1)]) (simp add: cs(2))
  show ?thesis unfolding cs(1) perform_append
  proof (rule allO_seqO[OF before])
    fix s1 :: "modem core" assume s1: "same_requests X written s s1"
    then have r: "infos s1 = infos s" "s_pendingRequests s1 = s_pendingRequests s" "s_fdCommand s1 = s_fdCommand s" "s_writeMutex s1 = s_writeMutex s"
      by (simp_all add: same_requests_def requests_of_def)
    have f: "sendable b s1 = sendable b s" for b by (simp add: sendable_def r)
    obtain us where us: "unsolicited_bytes X written us" "sent s1 = sent s @ us" using s1 by (auto simp: same_requests_def)
    have "allO (\<lambda>s2. (\<exists>q. written q (response_of X (ci_responseFunction (pCI info)) (ri_token info) e p) \<and>
        sent s2 = sent s1 @ (if sendable (parcel_data X q) s1 then frame (parcel_data X q) else [])) \<and> a \<notin> set (s_pendingRequests s2) \<and> \<not> s_writeMutex s2)
      (perform X R on_loop now (Complete t e p) s1)"
      unfolding ok(3) by (rule completion_sent[OF X _ _ _ s(4,5) _ ok(4)]) (simp_all add: r s)
    then show "allO (answered X written a (response_of X (ci_responseFunction (pCI info)) (ri_token info) e p) s)
      (seqO (perform X R on_loop now (Complete t e p) s1) (perform_all X R on_loop ys m'))"
    proof (rule allO_seqO)
      fix s2 :: "modem core" assume s2: "(\<exists>q. written q (response_of X (ci_responseFunction (pCI info)) (ri_token info) e p) \<and>
        sent s2 = sent s1 @ (if sendable (parcel_data X q) s1 then frame (parcel_data X q) else [])) \<and> a \<notin> set (s_pendingRequests s2) \<and> \<not> s_writeMutex s2"
      have "allO (same_requests X written s2) (perform_all X R on_loop ys m' s2)" by (rule quiet_calls[OF X(1) _ ok(2)]) (use s2 in auto)
      then show "allO (answered X written a (response_of X (ci_responseFunction (pCI info)) (ri_token info) e p) s) (perform_all X R on_loop ys m' s2)"
      proof (rule allO_mono)
        fix s3 :: "modem core" assume s3: "same_requests X written s2 s3"
        obtain q vs where q: "written q (response_of X (ci_responseFunction (pCI info)) (ri_token info) e p)" "unsolicited_bytes X written vs"
          "sent s3 = sent s @ us @ (if sendable (parcel_data X q) s then frame (parcel_data X q) else []) @ vs" "s_pendingRequests s3 = s_pendingRequests s2"
          using s2 s3 us(2) by (auto simp: same_requests_def requests_of_def f)
        then show "answered X written a (response_of X (ci_responseFunction (pCI info)) (ri_token info) e p) s s3"
          unfolding answered_def by (intro conjI exI[of _ us] exI[of _ q] exI[of _ vs]) (use us(1) s2 q in simp_all)
      qed
    qed
  qed
qed

lemma request_calls_answer:
  assumes X: "parcel_laws X written reads" "sizeof_ptr X = 4"
    and s: "distinct (s_pendingRequests s)" "t \<in> set (s_pendingRequests s)" "infos s t = Some info" "\<not> cancelled info" "\<not> local info" "\<not> s_writeMutex s"
      "pCI info = s_commands ! nat request"
    and m: "onRequest np request data t m = Inr m'" "calls_between m m' (map the_call cs)"
  shows "if unanswered request (sState m) then completions m' = completions m \<and> allO (same_requests X written s) (perform_all X R on_loop cs m2 s)
    else \<exists>e p rest. completions m' = completions m @ (t, e, p) # rest \<and>
      (rest = [] \<or> request = TGM_REQUEST_QUERY_SIGNAL_STRENGTH \<and> rest = [(t, TGM_E_GENERIC_FAILURE, NoData)]) \<and>
      (e = TGM_E_SUCCESS \<longrightarrow> typed (answers_with request) p) \<and>
      allO (answered X written t (response_of X (answers_with request) (ri_token info) e p) s) (perform_all X R on_loop cs m2 s)"
proof -
  have fn: "ci_responseFunction (pCI info) = answers_with request" by (simp add: answers_with_def s(7))
  have ok: "\<forall>c \<in> set cs. call_ok t (answers_with request) (the_call c)" using request_calls_ok[OF m] by simp
  have c: "completions m' = completions m @ completions_of (map the_call cs)" using m(2) by (simp add: calls_between_def)
  note count = request_completions[of request m t np data, unfolded m(1)]
  show ?thesis
  proof (cases "unanswered request (sState m)")
    case True
    then have "completions_of (map the_call cs) = []" using count c by simp
    then show ?thesis using quiet_calls[OF X(1) s(6) ok, of R on_loop m2] c True by simp
  next
    case False
    then obtain e p rest where r: "completions_of (map the_call cs) = (t, e, p) # rest"
      "rest = [] \<or> request = TGM_REQUEST_QUERY_SIGNAL_STRENGTH \<and> rest = [(t, TGM_E_GENERIC_FAILURE, NoData)]"
      using count c by (auto simp: once_def)
    have "allO (answered X written t (response_of X (answers_with request) (ri_token info) e p) s) (perform_all X R on_loop cs m2 s)"
      using calls_answered[OF X s(1-6) r(1), of R on_loop m2] ok by (simp add: fn)
    moreover have "e = TGM_E_SUCCESS \<longrightarrow> typed (answers_with request) p"
      using request_typed[where m = m and request = request and np = np and data = data and t = t] m(1) c r(1) by auto
    ultimately show ?thesis using False r c by auto
  qed
qed

section \<open>The record of the client\<close>

text \<open>
  A record names a request of the table and carries the strings \<open>ss\<close>, if the request takes
  strings; they survive the conversion, and their array fits on the stack.
\<close>

definition request_ok :: "'p ext \<Rightarrow> int \<Rightarrow> string option list \<Rightarrow> item list \<Rightarrow> bool" where
  "request_ok X request ss xs \<longleftrightarrow> 1 \<le> request \<and> request < int (length s_commands) \<and>
     (case ci_dispatchFunction (s_commands ! nat request) of
        DispatchVoid \<Rightarrow> ss = []
      | DispatchStrings \<Rightarrow> ss \<noteq> [] \<and> (\<forall>s \<in> set ss. converts X s) \<and> length ss * sizeof_ptr X \<le> stack_free X \<and>
          (\<exists>ys. xs = Int32 (int (length ss)) # string_items X ss @ ys)
      | _ \<Rightarrow> False)"

text \<open>The state with the new request.\<close>

definition accepted :: "int \<Rightarrow> int \<Rightarrow> 'm core \<Rightarrow> 'm core" where
  "accepted request tok s = s\<lparr>brk := brk s + 1,
     infos := (infos s)(brk s \<mapsto> \<lparr>ri_token = tok, pCI = s_commands ! nat request, cancelled = False, local = False\<rparr>),
     s_pendingRequests := brk s # s_pendingRequests s\<rparr>"

lemma accepted_simps [simp]:
  "driver (accepted request tok s) = driver s" "sent (accepted request tok s) = sent s" "s_fdCommand (accepted request tok s) = s_fdCommand s"
  "s_writeMutex (accepted request tok s) = s_writeMutex s" "s_pendingRequests (accepted request tok s) = brk s # s_pendingRequests s"
  "infos (accepted request tok s) (brk s) = Some \<lparr>ri_token = tok, pCI = s_commands ! nat request, cancelled = False, local = False\<rparr>"
  "s_registerCalled (accepted request tok s) = s_registerCalled s"
  by (simp_all add: accepted_def)

lemma accepted_answered [simp]: "answered X written a xs (accepted request tok s) s' = answered X written a xs s s'"
  by (simp add: answered_def sendable_def)

lemma record_dispatched:
  assumes X: "parcel_laws X written reads" and w: "written p (Int32 request # Int32 tok # xs)" "request_ok X request ss xs" and reg: "s_registerCalled s"
  shows "\<exists>d n. driver_args d = ss \<and> processCommandBuffer X R (parcel_data X p) s = onRequest_of R request d n (brk s) (accepted request tok s)"
proof -
  have "reads (setData X (parcel_data X p)) (Int32 request # Int32 tok # xs)" by (rule parcel_write(6)[OF X w(1)])
  then obtain p1 where p1: "readInt32 X (setData X (parcel_data X p)) = (Some request, p1)" "reads p1 (Int32 tok # xs)"
    using parcel_read(1)[OF X] by blast
  obtain p2 where p2: "readInt32 X p1 = (Some tok, p2)" "reads p2 xs" using parcel_read(1)[OF X p1(2)] by blast
  have range: "1 \<le> request" "request < int (length s_commands)" using w(2) by (simp_all add: request_ok_def)
  then have num: "ci_requestNumber (s_commands ! nat request) = request" using self_check_ok unfolding self_check_def by (metis nat_less_iff int_nat_eq zless_nat_conj zero_le_one order_trans)
  have eq: "processCommandBuffer X R (parcel_data X p) s = dispatchFunction (ci_dispatchFunction (s_commands ! nat request)) X
      (\<lambda>d n s'. if s_registerCalled s' then onRequest_of R request d n (brk s) s' else Inl Undef) p2 (accepted request tok s)"
    using range by (simp add: processCommandBuffer_def p1(1) p2(1) Let_def accepted_def) (simp only: num)
  show ?thesis
  proof (cases "ci_dispatchFunction (s_commands ! nat request)")
    case DispatchVoid
    then show ?thesis using w(2) reg eq by (intro exI[of _ Null] exI[of _ 0]) (simp add: request_ok_def dispatchVoid_def)
  next
    case DispatchStrings
    then obtain ys where ss: "ss \<noteq> []" "\<forall>s \<in> set ss. converts X s" "length ss * sizeof_ptr X \<le> stack_free X" "xs = Int32 (int (length ss)) # string_items X ss @ ys"
      using w(2) by (auto simp: request_ok_def)
    show ?thesis unfolding eq DispatchStrings dispatchFunction.simps dispatchStrings_items[OF X p2(2)[unfolded ss(4)] ss(1-3)]
      by (intro exI[of _ "Strings ss"] exI) (simp add: reg)
  qed (use w(2) in \<open>simp_all add: request_ok_def\<close>)
qed

lemma perform_all_driver: "allO (\<lambda>s'. driver s' = m') (perform_all X R on_loop cs m' s)"
proof (induction cs arbitrary: s)
  case (Cons c cs)
  obtain now m k where "c = (now, m, k)" by (metis surj_pair)
  then show ?case using Cons by (auto intro: allO_any)
qed simp

lemma table_entry: "1 \<le> request \<Longrightarrow> request < int (length s_commands) \<Longrightarrow> s_commands ! nat request \<in> set (tl s_commands)"
proof -
  assume "1 \<le> request" "request < int (length s_commands)"
  then have "nat request - 1 < length (tl s_commands)" "s_commands ! nat request = tl s_commands ! (nat request - 1)" by (auto simp: nth_tl)
  then show ?thesis using nth_mem by metis
qed

lemma lib_keeps_outO:
  assumes "lib_keeps s ts ps s1" "\<And>ts1. loop_inv s1 ts1 ps \<Longrightarrow> core_inv s1 ts1 ps \<Longrightarrow> outO E (lib_keeps s1 ts1 ps) m"
  shows "outO E (lib_keeps s ts ps) m"
proof (cases m)
  case (Inl e)
  then show ?thesis using assms by (auto simp: lib_keeps_def)
next
  case (Inr s2)
  then show ?thesis using assms(2) lib_keeps_trans[OF assms(1)] by simp
qed

text \<open>What the calls of a request do for it, in the state where it was accepted.\<close>

lemma request_answered:
  assumes X: "parcel_laws X written reads" "sizeof_ptr X = 4" and i: "requests_inv s" "brk s \<notin> set (s_pendingRequests s)" "\<not> s_writeMutex s"
    and m: "onRequest np request ss (brk s) (driver s) = Inr m'" "calls_between (driver s) m' (map the_call cs)"
  shows "allO (\<lambda>s'. if unanswered request (sState (driver s))
      then brk s \<in> set (s_pendingRequests s') \<and> (\<exists>us. unsolicited_bytes X written us \<and> sent s' = sent s @ us)
      else \<exists>e d rest. completions m' = completions (driver s) @ (brk s, e, d) # rest \<and>
        answered X written (brk s) (response_of X (answers_with request) tok e d) s s')
    (perform_all X R on_loop cs m' (accepted request tok s))"
proof -
  have s: "distinct (s_pendingRequests (accepted request tok s))" "brk s \<in> set (s_pendingRequests (accepted request tok s))" "\<not> s_writeMutex (accepted request tok s)"
    using i by (simp_all add: requests_inv_def)
  note run = request_calls_answer[OF X s(1,2) accepted_simps(6) _ _ s(3) _ m, of R on_loop m']
  show ?thesis
  proof (cases "unanswered request (sState (driver s))")
    case True
    then have "allO (same_requests X written (accepted request tok s)) (perform_all X R on_loop cs m' (accepted request tok s))" using run by simp
    then show ?thesis using True by (elim allO_mono) (auto simp: same_requests_def requests_of_def)
  next
    case False
    then obtain e d rest where r: "completions m' = completions (driver s) @ (brk s, e, d) # rest"
      "allO (answered X written (brk s) (response_of X (answers_with request) tok e d) (accepted request tok s)) (perform_all X R on_loop cs m' (accepted request tok s))"
      using run by auto
    show ?thesis using r(1) False by (intro allO_mono[OF r(2)]) auto
  qed
qed

section \<open>Properties\<close>


text \<open>A signal strength query that the driver refuses because its radio is still unavailable.\<close>

lemma unavailable_answer:
  "onRequest True 5 [] 7 (TGM_Init [] [] [] [] []) = Inr (TGM_onRequestComplete 7 TGM_E_RADIO_NOT_AVAILABLE NoData (TGM_Init [] [] [] [] []))"
  "\<not> unanswered 5 (sState (TGM_Init [] [] [] [] []))" "completions (TGM_Init [] [] [] [] []) = []" "notices (TGM_Init [] [] [] [] []) = []"
  "timed (TGM_Init [] [] [] [] []) = []"
  by (simp_all add: onRequest_def TGM_Init_def unanswered_def request_codes)

definition asked_core :: "modem core" where
  "asked_core = (initial_core (TGM_Init [] [] [] [] []))\<lparr>infos := [7 \<mapsto> \<lparr>ri_token = 42, pCI = s_commands ! nat 5, cancelled = False, local = False\<rparr>],
     s_pendingRequests := [7], s_fdCommand := 6, s_registerCalled := True\<rparr>"


text \<open>
  C4. A record of the client whose request the driver's \<open>onRequest\<close> takes and returns from is
  dispatched, and either the write to the client waits or ends the process, or what follows holds.
  Unless the request is one of \<open>unanswered\<close> (dialling before the SIM is ready, disconnecting
  without pppd, setting the pppd authentication, a number without a meaning), it is no longer
  pending, and its answer is exactly one packet with the token of the record and the error code
  and data of the driver's first completion, sent when a client is connected and the packet has at
  most 8192 bytes. A request of \<open>unanswered\<close> gets no packet and stays pending. Nothing but
  unsolicited responses is sent beside that, and the invariant of the event loop and of the daemon
  holds afterwards.
\<close>

theorem client_request_answered:
  assumes "parcel_laws X written reads" "sizeof_ptr X = 4" "runs_driver X np R"
    "loop_inv s ts ps" "core_inv s ts ps" "s_registerCalled s"
    "written p (Int32 request # Int32 tok # xs)" "request_ok X request ss xs"
    "onRequest np request ss (brk s) (driver s) = Inr m'"
  shows "outO {Blocked, Exited} (\<lambda>s'. lib_keeps s ts ps s' \<and> driver s' = m' \<and>
      (if unanswered request (sState (driver s))
       then brk s \<in> set (s_pendingRequests s') \<and> (\<exists>us. unsolicited_bytes X written us \<and> sent s' = sent s @ us)
       else \<exists>e d rest. completions m' = completions (driver s) @ (brk s, e, d) # rest \<and>
         answered X written (brk s) (response_of X (answers_with request) tok e d) s s'))
    (processCommandBuffer X R (parcel_data X p) s)"
proof -
  have b: "requests_inv s" "memory_inv s ts ps" "\<not> s_writeMutex s" using assms(5) by (simp_all add: core_inv_def base_inv_def)
  have "brk s \<notin> dom (infos s)" using b(2) by (simp add: memory_inv_def domIff)
  then have new: "brk s \<notin> set (s_pendingRequests s)" using b(1) by (simp add: requests_inv_def)
  obtain d n where d: "driver_args d = ss" "processCommandBuffer X R (parcel_data X p) s = onRequest_of R request d n (brk s) (accepted request tok s)"
    using record_dispatched[OF assms(1,7,8,6)] by blast
  obtain cs where cs: "calls_between (driver s) m' (map the_call cs)"
    "onRequest_of R request d n (brk s) (accepted request tok s) = perform_all X R True cs m' (accepted request tok s)"
    using assms(3,9) d(1) unfolding runs_driver_def by (metis accepted_simps(1))
  have k: "lib_keeps s ts ps (accepted request tok s)"
    unfolding accepted_def by (rule new_request_keeps[OF assms(4,5)]) (use table_entry[of request] assms(8) in \<open>simp add: request_ok_def\<close>)
  have all: "outO safe (lib_keeps (accepted request tok s) ts1 ps) (perform_all X R True cs m' (accepted request tok s))"
    if "loop_inv (accepted request tok s) ts1 ps" "core_inv (accepted request tok s) ts1 ps" for ts1
    by (rule perform_all_keeps[OF assms(1,2) that, where a = "brk s" and info = "\<lparr>ri_token = tok, pCI = s_commands ! nat request, cancelled = False, local = False\<rparr>"])
      (use request_calls_ok[OF assms(9) cs(1)] in \<open>simp_all add: pending_is_def answers_with_def\<close>)
  have "outO safe (lib_keeps s ts ps) (perform_all X R True cs m' (accepted request tok s))" by (rule lib_keeps_outO[OF k all])
  then show ?thesis unfolding d(2) cs(2)
    by (rule outO_mono[OF outO_conj[OF outO_conj[OF _ perform_all_driver] request_answered[OF assms(1,2) b(1) new b(3) assms(9) cs(1)]]]) blast
qed

text \<open>A radio that makes the calls of a request when the driver's function has returned.\<close>

definition calls_since :: "modem \<Rightarrow> modem \<Rightarrow> lib_call list" where
  "calls_since m m' = map (\<lambda>(t, e, p). Complete t e p) (drop (length (completions m)) (completions m')) @
     map Unsolicited (drop (length (notices m)) (notices m')) @ map (\<lambda>(c, d). Timed c d) (drop (length (timed m)) (timed m'))"

definition late_calls :: "'p ext \<Rightarrow> modem outcome \<Rightarrow> modem core \<Rightarrow> modem core outcome" where
  "late_calls X r s = (case r of Inl e \<Rightarrow> Inl (if e = Blocked then Blocked else Exited) | Inr m' \<Rightarrow> perform_all X demo_radio True (map (\<lambda>c. (Timeval 0 0, m', c)) (calls_since (driver s) m')) m' s)"

definition huawei_radio :: "'p ext \<Rightarrow> bool \<Rightarrow> modem radio" where
  "huawei_radio X np = demo_radio\<lparr>onRequest_of := \<lambda>n d len a s. late_calls X (onRequest np n (driver_args d) a (driver s)) s,
     getVersion_of := Some getVersion, timed_of := \<lambda>f p s. late_calls X (run_timed np (callback_of f) (driver s)) s\<rparr>"

lemma calls_of_maps [simp]:
  "completions_of (map (\<lambda>(t, e, p). Complete t e p) cs) = cs" "notices_of (map (\<lambda>(t, e, p). Complete t e p) cs) = []"
  "timed_calls_of (map (\<lambda>(t, e, p). Complete t e p) cs) = []"
  "completions_of (map Unsolicited us) = []" "notices_of (map Unsolicited us) = us" "timed_calls_of (map Unsolicited us) = []"
  "completions_of (map (\<lambda>(c, d). Timed c d) ts) = []" "notices_of (map (\<lambda>(c, d). Timed c d) ts) = []"
  "timed_calls_of (map (\<lambda>(c, d). Timed c d) ts) = ts"
proof -
  show "completions_of (map (\<lambda>(t, e, p). Complete t e p) cs) = cs" "notices_of (map (\<lambda>(t, e, p). Complete t e p) cs) = []"
    "timed_calls_of (map (\<lambda>(t, e, p). Complete t e p) cs) = []" by (induction cs) auto
  show "completions_of (map Unsolicited us) = []" "notices_of (map Unsolicited us) = us" "timed_calls_of (map Unsolicited us) = []"
    by (induction us) auto
  show "completions_of (map (\<lambda>(c, d). Timed c d) ts) = []" "notices_of (map (\<lambda>(c, d). Timed c d) ts) = []"
    "timed_calls_of (map (\<lambda>(c, d). Timed c d) ts) = ts" by (induction ts) auto
qed

lemma calls_since_between: "appends (completions m) (notices m) (timed m) m' \<Longrightarrow> calls_between m m' (calls_since m m')"
  by (auto simp: appends_def calls_between_def calls_since_def prefix_def)

lemma perform_radio:
  assumes "onStateRequest_of R = onStateRequest_of R'"
  shows "perform_all X R on_loop cs m' s = perform_all X R' on_loop cs m' s"
proof -
  have one: "perform X R on_loop now c s = perform X R' on_loop now c s" for now c s
    by (cases c) (simp_all only: perform.simps TGM_onUnsolicitedResponse_lib_def assms)
  show ?thesis
  proof (induction cs arbitrary: s)
    case (Cons c cs)
    then have eq: "perform_all X R on_loop cs m' = perform_all X R' on_loop cs m'" by blast
    obtain now m k where "c = (now, m, k)" by (metis surj_pair)
    then show ?case by (simp add: one eq)
  qed simp
qed

lemma late_calls_between:
  assumes "r = Inr m'" "appends (completions (driver s)) (notices (driver s)) (timed (driver s)) m'"
  shows "\<exists>cs. calls_between (driver s) m' (map the_call cs) \<and> late_calls X r s = perform_all X (huawei_radio X np) True cs m' s"
proof (intro exI conjI)
  let ?cs = "map (\<lambda>c. (Timeval 0 0, m', c)) (calls_since (driver s) m')"
  show "calls_between (driver s) m' (map the_call ?cs)" using calls_since_between[OF assms(2)] by (simp add: o_def)
  show "late_calls X r s = perform_all X (huawei_radio X np) True ?cs m' s"
    unfolding late_calls_def assms(1) sum.case by (rule perform_radio) (simp add: huawei_radio_def)
qed

lemma huawei_runs: "runs_driver X np (huawei_radio X np)"
proof -
  have a: "appends (completions m) (notices m) (timed m) m" for m by (simp add: appends_def)
  have "\<exists>cs. calls_between (driver s) m' (map the_call cs) \<and>
      onRequest_of (huawei_radio X np) n d len a s = perform_all X (huawei_radio X np) True cs m' s"
    if "onRequest np n (driver_args d) a (driver s) = Inr m'" for n d len a s m'
    using late_calls_between[OF that] appends_req.onRequest_keeps[OF a, of "driver s" np n "driver_args d" a] that by (simp add: huawei_radio_def)
  moreover have "\<exists>cs. calls_between (driver s) m' (map the_call cs) \<and>
      timed_of (huawei_radio X np) f p s = perform_all X (huawei_radio X np) True cs m' s"
    if "run_timed np (callback_of f) (driver s) = Inr m'" for f p s m'
    using late_calls_between[OF that] appends.run_timed_all[OF a, of "driver s" np "callback_of f"] that by (simp add: huawei_radio_def)
  ultimately show ?thesis unfolding runs_driver_def by (simp add: huawei_radio_def demo_radio_def)
qed

lemma huawei_ends: "ends_process np (huawei_radio X np)"
  by (simp add: ends_process_def huawei_radio_def late_calls_def)

text \<open>A daemon with the client it just accepted, from the start of its event loop on.\<close>

lemma wake_timers_more: "wake_timers s A \<Longrightarrow> A \<subseteq> B \<Longrightarrow> wake_timers s B"
  unfolding wake_timers_def by (metis subsetD)

lemma connected_exists:
  "\<exists>(s :: modem core) ts. loop_inv s ts [] \<and> core_inv s ts [] \<and> s_fdCommand s = 6 \<and> s_registerCalled s \<and> driver s = m \<and> writes s = ws"
proof -
  obtain s0 :: "modem core" and ts where s0: "loop_inv s0 ts []" "core_inv s0 ts []" "\<not> s_registerCalled s0" "s_fdWakeupRead s0 = 3"
    using started_idle[of 3 m "item_ext 4" "huawei_radio (item_ext 4) True"] by (auto simp: idle_inv_def)
  have k: "conn_inv s0 []" "events_inv s0 []" "memory_inv s0 ts []" "requests_inv s0" "\<not> s_writeMutex s0" "wake_inv s0 ts []"
    using s0(2) by (simp_all add: core_inv_def base_inv_def)
  have w: "set (watched s0) \<subseteq> {s_wakeupfd_event}" "s_fdCommand s0 < 0" using k(1) s0(3) by (auto simp: conn_inv_def static_events_def)
  define s1 where "s1 = s0\<lparr>s_registerCalled := True, s_fdListen := 4, accepts := [6]\<rparr>"
  define s2 where "s2 = tgm_event_set s_listen_event 4 False FN_listenCallback 0 s1"
  have st: "s_listen_event \<in> static_events" by (simp add: static_events_def)
  have same: "loop_inv s1 = loop_inv s0" "watched s1 = watched s0" "event_core s1 = event_core s0" "is_event s1 = is_event s0"
    by (rule loop_same_fields; simp add: s1_def)+
  have "memory_inv s1 ts []" by (rule conjunct1[OF rest_same[OF k(3,4,6,5) same(3)]]) (simp_all add: s1_def)
  note mm = memory_set[OF this st s2_def]
  note f = more_fields[OF mm(5)]
  have v: "s_registerCalled s1" "s_fdListen s1 = 4" "s_fdWakeupRead s1 = 3" "s_fdCommand s1 = s_fdCommand s0" "accepts s1 = [6]" "\<not> s_writeMutex s1"
    using s0(4) k(5) by (simp_all add: s1_def)
  have inv2: "loop_inv s2 ts []" unfolding s2_def by (rule set_inv) (use static_new[OF k(3) st] same s0(1) w in auto)
  have wk: "is_event s2 s_wakeupfd_event = is_event s0 s_wakeupfd_event" using is_event_core[OF mm(2)[OF statics(4)]] by (simp add: same)
  have c: "conn_inv s2 [s_listen_event]" using w v(1) unfolding conn_inv_def f v mm(4) same by (auto simp: static_events_def)
  have e: "events_inv s2 [s_listen_event]" using k(2) s0(4) w mm(3) unfolding events_inv_def f v mm(4) same wk by auto
  have m2: "memory_inv s2 ts [s_listen_event]" using mm(1) st by (auto simp: memory_inv_def)
  have r2: "requests_inv s2" using k(4) by (simp add: requests_inv_def f) (simp add: s1_def)
  have w2: "wake_inv s2 ts [s_listen_event]"
  proof -
    have "wake_inv s2 ts []" by (subst wake_cong[of _ s0]) (simp_all add: f k(6), simp_all add: s1_def)
    note h = this[unfolded wake_inv_def]
    have "wake_timers s2 (set ts \<union> set [s_listen_event])" by (rule wake_timers_more[OF conjunct1[OF h]]) auto
    with conjunct2[OF h] show ?thesis unfolding wake_inv_def by (rule conjI[rotated])
  qed
  have "core_inv s2 ts [s_listen_event]" using c e m2 r2 w2 v(6) by (simp add: core_inv_def base_inv_def f)
  then obtain s3 :: "modem core" where s3: "loop_inv s3 ts []" "core_inv s3 ts []" "s_fdCommand s3 = 6"
    using accept_keeps[OF inv2, of 6 "[]"] v(5) by (auto simp: f)
  then have r: "s_registerCalled s3" by (auto simp: core_inv_def base_inv_def conn_inv_def split: if_splits)
  define s where "s = s3\<lparr>driver := m, writes := ws\<rparr>"
  have "core_inv s ts []" by (rule core_cong[OF s3(2)]) (simp_all add: s_def)
  moreover have "loop_inv s = loop_inv s3" by (rule loop_same_fields; simp add: s_def)
  ultimately show ?thesis using s3 r by (intro exI[of _ s] exI[of _ ts]) (simp add: s_def)
qed

text \<open>The client asks for the radio state, and the write takes its packet in two parts.\<close>

definition ask_state :: "item list \<times> nat" where
  "ask_state = ([Int32 14, Int32 42], 2)"

lemma ask_state_ok: "ask_state = ([Int32 14, Int32 42], length [Int32 14, Int32 42])" "request_ok (item_ext 4) 14 [] []"
  by (simp_all add: ask_state_def request_ok_def s_commands_def command_def)

lemma state_query: "onRequest True 14 [] a (TGM_Init [] [] [] [] []) =
    Inr ((TGM_Init [] [] [] [] [])\<lparr>completions := [(a, TGM_E_SUCCESS, StateData TGM_STATE_UNAVAILABLE)]\<rparr>)"
  "\<not> unanswered 14 (sState (TGM_Init [] [] [] [] []))" "completions (TGM_Init [] [] [] [] []) = []" "notices (TGM_Init [] [] [] [] []) = []"
  "timed (TGM_Init [] [] [] [] []) = []"
  by (simp_all add: onRequest_def handle_request_def request_codes unanswered_def TGM_Init_def TGM_onRequestComplete_def)

lemma ask_returns:
  assumes "s_fdCommand s = 6" "s_registerCalled s" "\<not> s_writeMutex s" "driver s = TGM_Init [] [] [] [] []"
    "writes s = [Wrote 4, Wrote 10, WriteEINTR, Wrote 5]"
  shows "\<exists>s'. processCommandBuffer (item_ext 4) (huawei_radio (item_ext 4) True) (parcel_data (item_ext 4) ask_state) s = Inr s'"
proof -
  let ?i = "\<lparr>ri_token = 42, pCI = s_commands ! 14, cancelled = False, local = False\<rparr>"
  let ?d = "StateData TGM_STATE_UNAVAILABLE"
  obtain d n where d: "driver_args d = []" "processCommandBuffer (item_ext 4) (huawei_radio (item_ext 4) True) (parcel_data (item_ext 4) ask_state) s =
      onRequest_of (huawei_radio (item_ext 4) True) 14 d n (brk s) (accepted 14 42 s)"
    using record_dispatched[OF item_ext_laws ask_state_ok assms(2)] by blast
  have fn: "ci_responseFunction (s_commands ! 14) = ResponseInts" by (simp add: s_commands_def command_def)
  have p: "solicited_parcel (item_ext 4) ?i 0 (payload_data ?d) (data_length (item_ext 4) (payload_data ?d)) = Inr ([Int32 0, Int32 42, Int32 0, Int32 1, Int32 1], 5)"
    by (simp add: solicited_parcel_def fn responseInts_def item_ext_def put_item_def RESPONSE_SOLICITED_def Let_def)
  have send: "\<exists>r. sendResponse (item_ext 4) ([Int32 0, Int32 42, Int32 0, Int32 1, Int32 1], 5) t = Inr r"
    if "s_fdCommand t = 6" "\<not> s_writeMutex t" "writes t = writes s" for t :: "modem core"
    using that by (simp add: assms sendResponse_def sendResponseRaw_def item_ext_def MAX_COMMAND_BYTES_def htonl_def write_fd_def)
  have sent: "\<exists>s'. seqO (seqO (sendResponse (item_ext 4) ([Int32 0, Int32 42, Int32 0, Int32 1, Int32 1], 5) t) (\<lambda>(_, s2). Inr (h s2))) (\<lambda>s1. Inr (g s1)) = Inr s'"
    if "s_fdCommand t = 6" "\<not> s_writeMutex t" "writes t = writes s" for t and h g :: "modem core \<Rightarrow> modem core"
    using send[OF that] by auto
  have nil: "perform_all X R b [] m' = (\<lambda>s. Inr (s\<lparr>driver := m'\<rparr>))" for X R b m' by (intro ext) simp
  show ?thesis unfolding d(2)
    by (simp add: huawei_radio_def late_calls_def d(1) assms state_query calls_since_def TGM_onRequestComplete_lib_def checkAndDequeueRequestInfo_def
        info_at_def Let_def) (simp add: accepted_def p[simplified] nil, rule sent, simp_all add: assms)
qed

theorem client_request_answered_witness:
  "\<exists>(s :: modem core) ts s'. s_fdCommand s = 6 \<and> loop_inv s ts [] \<and> core_inv s ts [] \<and>
    processCommandBuffer (item_ext 4) (huawei_radio (item_ext 4) True) (parcel_data (item_ext 4) ask_state) s = Inr s' \<and>
    answered (item_ext 4) (\<lambda>p xs. p = (xs, length xs)) (brk s) [Int32 0, Int32 42, Int32 0, Int32 1, Int32 1] s s'"
proof -
  have psz: "sizeof_ptr (item_ext 4) = 4" by (simp add: item_ext_def)
  obtain s :: "modem core" and ts where s: "loop_inv s ts []" "core_inv s ts []" "s_fdCommand s = 6" "s_registerCalled s" "driver s = TGM_Init [] [] [] [] []"
    "writes s = [Wrote 4, Wrote 10, WriteEINTR, Wrote 5]"
    using connected_exists by blast
  have m: "\<not> s_writeMutex s" using s(2) by (simp add: core_inv_def base_inv_def)
  obtain s' where s': "processCommandBuffer (item_ext 4) (huawei_radio (item_ext 4) True) (parcel_data (item_ext 4) ask_state) s = Inr s'"
    using ask_returns[OF s(3,4) m s(5,6)] by blast
  note run = client_request_answered[OF item_ext_laws psz huawei_runs s(1,2,4) ask_state_ok state_query(1)[folded s(5)]]
  have items: "response_of (item_ext 4) (answers_with 14) 42 TGM_E_SUCCESS (StateData TGM_STATE_UNAVAILABLE) = [Int32 0, Int32 42, Int32 0, Int32 1, Int32 1]"
    by (simp add: response_of_def answers_simps RESPONSE_SOLICITED_def)
  have "answered (item_ext 4) (\<lambda>p xs. p = (xs, length xs)) (brk s) [Int32 0, Int32 42, Int32 0, Int32 1, Int32 1] s s'"
    using run s' state_query(2,3) by (auto simp: s(5) items)
  then show ?thesis using s(1-3) s' by blast
qed

end
