(* ===== verification/Daemon_Safety.thy ===== *)
theory Daemon_Safety
  imports Client_Request
begin

text \<open>
  The whole daemon with the Huawei driver behind it: the driver is one that \<open>radio_ok\<close> admits, so
  that the invariant of \<open>Tgm_Reach\<close> holds in every state, and no round of the event loop and no
  call of the driver's threads into the library is undefined.
\<close>

section \<open>The Huawei driver is admitted\<close>

lemma huawei_request_keeps:
  assumes X: "parcel_laws X written reads" "sizeof_ptr X = 4" and R: "runs_driver X np R" "ends_process np R"
    and i: "loop_inv s ts ps" "core_inv s ts ps" and a: "infos s a = Some info" "pCI info = s_commands ! nat n"
  shows "outO safe (lib_keeps s ts ps) (onRequest_of R n d len a s)"
proof (cases "onRequest np n (driver_args d) a (driver s)")
  case (Inl e)
  then have "onRequest_of R n d len a s = Inl (if e = Blocked then Blocked else Exited)" using R(2) unfolding ends_process_def by blast
  then show ?thesis by simp
next
  case (Inr m')
  then obtain cs where cs: "calls_between (driver s) m' (map the_call cs)" "onRequest_of R n d len a s = perform_all X R True cs m' s"
    using R(1) unfolding runs_driver_def by blast
  show ?thesis unfolding cs(2)
    by (rule perform_all_keeps[OF X i, where a = a and info = info])
      (use a request_calls_ok[OF Inr cs(1)] in \<open>simp_all add: pending_is_def answers_with_def\<close>)
qed

lemma huawei_timed_keeps:
  assumes X: "parcel_laws X written reads" "sizeof_ptr X = 4" and R: "runs_driver X np R" "ends_process np R"
    and i: "loop_inv s ts ps" "core_inv s ts ps"
  shows "outO safe (lib_keeps s ts ps) (timed_of R f p s)"
proof (cases "run_timed np (callback_of f) (driver s)")
  case (Inl e)
  then have "timed_of R f p s = Inl (if e = Blocked then Blocked else Exited)" using R(2) unfolding ends_process_def by blast
  then show ?thesis by simp
next
  case (Inr m')
  then obtain cs where cs: "calls_between (driver s) m' (map the_call cs)" "timed_of R f p s = perform_all X R True cs m' s"
    using R(1) unfolding runs_driver_def by blast
  obtain a where a: "a \<notin> set (s_pendingRequests s)" using ex_new_if_finite[OF infinite_UNIV_nat finite_set] by blast
  show ?thesis unfolding cs(2)
    by (rule perform_all_keeps[OF X i, where a = a]) (use a timed_calls_ok[OF Inr cs(1)] in \<open>simp_all add: pending_is_def\<close>)
qed

lemma huawei_ok:
  assumes "parcel_laws X written reads" "sizeof_ptr X = 4" "runs_driver X np R" "ends_process np R"
  shows "radio_ok R"
  unfolding radio_ok_def using huawei_request_keeps[OF assms] huawei_timed_keeps[OF assms] by blast

section \<open>A daemon with the Huawei driver\<close>

lemma huawei_reach:
  "\<exists>s. daemon_reach (item_ext 4) (huawei_radio (item_ext 4) np) s \<and> s_registerCalled s"
proof -
  let ?R = "huawei_radio (item_ext 4) np"
  obtain s where s: "daemon_reach (item_ext 4) ?R s" "idle_inv (item_ext 4) s" "s_started s" "\<not> s_registerCalled s" "s_fdWakeupRead s = 3" "accepts s = []"
    using started_idle[of 3 "TGM_Init [] [] [] [] []" "item_ext 4" ?R] by auto
  have v: "rf_version ?R = TGM_VERSION \<or> rf_version ?R = 1" by (simp add: huawei_radio_def demo_radio_def)
  obtain s' where s': "TGM_register_lib (Some ?R) True 4 s = Inr s'" "s_registerCalled s'"
    using register_idle[OF s(2,3) _ s(6) v s(4), of 4 True] s(5) by auto
  show ?thesis using daemon_reach.register[OF s(1,3) _ s(6) s'(1)] s(5) s'(2) by auto
qed

section \<open>Properties\<close>

text \<open>
  C3. The daemon with the Huawei driver, in every state it reaches with clients whose records
  carry a request number and, for a request that takes strings, a count of them whose array fits
  on the stack, and with pointers of four bytes. A round of its event loop, the completion of a pending request with an error code
  or, on success, with data of the type that the response function of the request takes, an
  unsolicited response without data, and the request of a timed callback each end in one of these
  ways: they wait for the client, the process ends, or they return in a reachable state again. The
  process ends on a failed write, in an \<open>exit\<close> of the driver, or where the driver's own function
  is undefined, which is counted as its end here. So, as long as a call of another thread falls
  between two rounds and not inside one (\<open>wake_timer_race\<close> is such a case), the code of the daemon
  itself dereferences no NULL, uses no freed memory, fails no assertion of its callbacks and takes
  no lock twice. The loop
  over the pending events ends within the timers and the descriptors.
\<close>

theorem daemon_never_crashes:
  assumes "parcel_laws X written reads" "sizeof_ptr X = 4" "runs_driver X np R" "ends_process np R" "daemon_reach X R s"
  shows "(\<exists>k0. \<forall>k \<ge> k0. \<forall>n \<ge> 0. outO {Blocked, Exited} (\<lambda>r. \<exists>s'. r = Some s' \<and> daemon_reach X R s') (loop_round (core_callback X R now) k eintr n rfds now s)) \<and>
    (\<forall>t e p. (e = TGM_E_SUCCESS \<longrightarrow> (\<forall>info. infos s t = Some info \<longrightarrow> typed (ci_responseFunction (pCI info)) p)) \<longrightarrow>
      outO {Blocked, Exited} (daemon_reach X R) (TGM_onRequestComplete_lib X (Some t) (errno_code e) (payload_data p) (data_length X (payload_data p)) s)) \<and>
    (\<forall>u. outO {Blocked, Exited} (daemon_reach X R) (TGM_onUnsolicitedResponse_lib X R False now u Null 0 s)) \<and>
    (\<forall>f p rt. outO {Blocked, Exited} (daemon_reach X R) (TGM_requestTimedCallback_lib False now f p rt s))"
proof (intro conjI allI impI)
  have ok: "radio_ok R" by (rule huawei_ok[OF assms(1-4)])
  have idle: "idle_inv X s" by (rule daemon_idle[OF assms(5) ok])
  obtain ts where i: "loop_inv s ts []" "core_inv s ts []" using idle by (auto simp: idle_inv_def)
  then have dl: "dl s timer_list ts" by (simp add: loop_inv_def rings_are_def)
  show "\<exists>k0. \<forall>k \<ge> k0. \<forall>n \<ge> 0. outO safe (\<lambda>r. \<exists>s'. r = Some s' \<and> daemon_reach X R s') (loop_round (core_callback X R now) k eintr n rfds now s)"
  proof (intro exI[of _ "Suc (length ts + MAX_FD_EVENTS)"] allI impI)
    fix k and n :: int assume k: "Suc (length ts + MAX_FD_EVENTS) \<le> k" "0 \<le> n"
    have "outO safe (\<lambda>r. \<exists>s'. r = Some s' \<and> idle_inv X s') (loop_round (core_callback X R now) k eintr n rfds now s)"
      by (rule round_idle[OF idle ok dl]) (use k in auto)
    then show "outO safe (\<lambda>r. \<exists>s'. r = Some s' \<and> daemon_reach X R s') (loop_round (core_callback X R now) k eintr n rfds now s)"
      using daemon_reach.round[OF assms(5) dl, of k n now eintr rfds] k
      by (cases "loop_round (core_callback X R now) k eintr n rfds now s") auto
  qed
  show "outO safe (daemon_reach X R) (TGM_onUnsolicitedResponse_lib X R False now u Null 0 s)" for u
    using unsol_keeps[OF i null_fits, of X R False now u] daemon_reach.unsolicited[OF assms(5), of now u Null 0]
    by (cases "TGM_onUnsolicitedResponse_lib X R False now u Null 0 s") auto
  show "outO safe (daemon_reach X R) (TGM_requestTimedCallback_lib False now f p rt s)" for f p rt
    using timed_keeps[OF i, of False now f p rt] daemon_reach.timed[OF assms(5), of now f p rt]
    by (cases "TGM_requestTimedCallback_lib False now f p rt s") auto
  fix t e p assume typed: "e = TGM_E_SUCCESS \<longrightarrow> (\<forall>info. infos s t = Some info \<longrightarrow> typed (ci_responseFunction (pCI info)) p)"
  have "\<exists>q. solicited_parcel X info (errno_code e) (payload_data p) (data_length X (payload_data p)) = Inr q" if i: "infos s t = Some info" for info
  proof -
    obtain q where "solicited_parcel X info (errno_code e) (payload_data p) (data_length X (payload_data p)) = Inr q"
      by (rule typed_parcel[OF assms(1,2), of e info p]) (use typed i in auto)
    then show ?thesis by blast
  qed
  then have "fits X (Some t) (errno_code e) (payload_data p) (data_length X (payload_data p)) s" by (simp add: fits_def)
  then show "outO safe (daemon_reach X R) (TGM_onRequestComplete_lib X (Some t) (errno_code e) (payload_data p) (data_length X (payload_data p)) s)"
    using complete_keeps[OF i] daemon_reach.complete[OF assms(5)]
    by (cases "TGM_onRequestComplete_lib X (Some t) (errno_code e) (payload_data p) (data_length X (payload_data p)) s") fastforce+
qed

theorem daemon_never_crashes_witness:
  "\<exists>s k. s_registerCalled s \<and> daemon_reach (item_ext 4) (huawei_radio (item_ext 4) True) s \<and>
    outO {Blocked, Exited} (\<lambda>r. \<exists>s'. r = Some s' \<and> daemon_reach (item_ext 4) (huawei_radio (item_ext 4) True) s')
      (loop_round (core_callback (item_ext 4) (huawei_radio (item_ext 4) True) (Timeval 7 0)) k False 0 [] (Timeval 7 0) s)"
proof -
  have psz: "sizeof_ptr (item_ext 4) = 4" by (simp add: item_ext_def)
  obtain s where s: "daemon_reach (item_ext 4) (huawei_radio (item_ext 4) True) s" "s_registerCalled s" using huawei_reach by blast
  show ?thesis
    using s daemon_never_crashes[OF item_ext_laws psz huawei_runs huawei_ends s(1), of "Timeval 7 0" False "[]"] by blast
qed

end
