(* ===== verification/Tgmd.thy ===== *)
theory Tgmd
  imports Tgm_Reach At_Tok
begin

text \<open>
  The process \<open>tgmd/tgmd.c\<close>: it starts the daemon and the driver, and then watches the kernel's
  uevents for the modem, which comes up as a USB storage device, to run \<open>usb_modeswitch\<close> on it.

  A message is the array it was received into, with the number of its bytes; behind them the array
  holds whatever was on the stack. \<open>fork\<close>, \<open>malloc\<close>, \<open>select\<close> and \<open>recv\<close> are observations.
\<close>

section \<open>Data\<close>

definition UEVENT_PARAMS_MAX :: nat where "UEVENT_PARAMS_MAX = 32"

datatype uevent_action = action_add | action_remove | action_change

record uevent =
  ue_path :: "string option"
  ue_action :: uevent_action
  ue_subsystem :: "string option"
  ue_param :: "string list"
  ue_seqnum :: int

text \<open>\<open>spawned\<close> counts the children started to run \<open>usb_modeswitch\<close>.\<close>

record tgmd =
  target_inserted :: bool
  pid :: int
  spawned :: nat

definition tgmd_init :: tgmd where
  "tgmd_init = \<lparr>target_inserted = False, pid = -1, spawned = 0\<rparr>"

text \<open>\<open>fork\<close> as the parent or the child sees it; the child's \<open>execl\<close> succeeds or returns.\<close>

datatype fork_result = ForkFailed | ForkParent | ForkChild bool

datatype recv_result = RecvError nat | Received string nat

datatype select_result = SelectError | SelectTimeout | SelectReady recv_result bool fork_result

section \<open>Parsing\<close>

text \<open>\<open>memset\<close> of the event; the action of all zeros is \<open>action_add\<close>.\<close>

definition zero_event :: uevent where
  "zero_event = \<lparr>ue_path = None, ue_action = action_add, ue_subsystem = None, ue_param = [], ue_seqnum = 0\<rparr>"

text \<open>The string at an index of an array; without a NUL the reads leave the array.\<close>

definition c_string :: "string \<Rightarrow> nat \<Rightarrow> string outcome" where
  "c_string buf i = (if NUL \<in> set (drop i buf) then Inr (takeWhile (\<lambda>c. c \<noteq> NUL) (drop i buf)) else Inl Undef)"

text \<open>\<open>atoi\<close> of the C library, stored in an \<open>unsigned int\<close>.\<close>

definition atoi_unsigned :: "string \<Rightarrow> int" where
  "atoi_unsigned s = (case strtol 10 s of None \<Rightarrow> 0 | Some v \<Rightarrow> to_int v) mod 2 ^ 32"

text \<open>The search for the @ looks past the end of the string, and past the end of the message.\<close>

definition read_header :: "string \<Rightarrow> nat \<Rightarrow> uevent \<Rightarrow> uevent outcome" where
  "read_header buf s ev =
     (let p = s + length (takeWhile (\<lambda>c. c \<noteq> CHR ''@'') (drop s buf)) in
      if p < length buf then seqO (c_string buf (p + 1)) (\<lambda>q. Inr (ev\<lparr>ue_path := Some q\<rparr>)) else Inl Undef)"

definition read_field :: "string \<Rightarrow> uevent \<Rightarrow> uevent outcome" where
  "read_field s ev =
     (if prefix ''ACTION='' s then
        (let a = drop (length ''ACTION='') s in
         Inr (if a = ''add'' then ev\<lparr>ue_action := action_add\<rparr>
              else if a = ''change'' then ev\<lparr>ue_action := action_change\<rparr>
              else if a = ''remove'' then ev\<lparr>ue_action := action_remove\<rparr> else ev))
      else if prefix ''SEQNUM='' s then Inr (ev\<lparr>ue_seqnum := atoi_unsigned (drop (length ''SEQNUM='') s)\<rparr>)
      else if prefix ''SUBSYSTEM='' s then Inr (ev\<lparr>ue_subsystem := Some (drop (length ''SUBSYSTEM='') s)\<rparr>)
      else if length (ue_param ev) < UEVENT_PARAMS_MAX then Inr (ev\<lparr>ue_param := ue_param ev @ [s]\<rparr>)
      else Inl Undef)"

text \<open>The loop over the strings between \<open>s\<close> and \<open>end\<close>.\<close>

function read_strings_from :: "string \<Rightarrow> nat \<Rightarrow> nat \<Rightarrow> bool \<Rightarrow> uevent \<Rightarrow> uevent outcome" where
  "read_strings_from buf e s first ev =
     (if s < e then
        (case c_string buf s of Inl x \<Rightarrow> Inl x
         | Inr str \<Rightarrow>
             (case (if first then read_header buf s ev else read_field str ev) of Inl x \<Rightarrow> Inl x
              | Inr ev' \<Rightarrow> read_strings_from buf e (s + length str + 1) False ev'))
      else Inr ev)"
  by auto
termination by (relation "measure (\<lambda>(buf, e, s, first, ev). e - s)") auto

declare read_strings_from.simps [simp del]

section \<open>The device\<close>

text \<open>The child that could not run \<open>usb_modeswitch\<close> returns, and goes on as a second daemon.\<close>

definition run_child :: "bool \<Rightarrow> tgmd \<Rightarrow> tgmd outcome" where
  "run_child execs d = (if execs then Inl Exited else Inr d)"

text \<open>The parent waits for the child.\<close>

definition start_modeswitch :: "fork_result \<Rightarrow> tgmd \<Rightarrow> tgmd outcome" where
  "start_modeswitch f d = (case f of
       ForkFailed \<Rightarrow> Inr (d\<lparr>pid := -1\<rparr>)
     | ForkParent \<Rightarrow> Inr (d\<lparr>pid := -1, spawned := spawned d + 1\<rparr>)
     | ForkChild execs \<Rightarrow> run_child execs (d\<lparr>pid := 0\<rparr>))"

fun find_target :: "fork_result \<Rightarrow> string list \<Rightarrow> tgmd \<Rightarrow> tgmd outcome" where
  "find_target f [] d = Inr d"
| "find_target f (p # ps) d =
     (if prefix ''PRODUCT='' p then
        (let a = drop (length ''PRODUCT='') p in
         if a = ''12d1/1446/0'' then start_modeswitch f (d\<lparr>target_inserted := True\<rparr>) else find_target f ps d)
      else find_target f ps d)"

definition check_uevent :: "fork_result \<Rightarrow> uevent \<Rightarrow> tgmd \<Rightarrow> tgmd outcome" where
  "check_uevent f ev d = (case ue_subsystem ev of None \<Rightarrow> Inl Undef
     | Some sub \<Rightarrow>
         if sub = ''usb'' \<and> ue_action ev = action_add \<and> \<not> target_inserted d then find_target f (ue_param ev) d
         else if sub = ''usb'' \<and> ue_action ev = action_remove \<and> target_inserted d then Inr (d\<lparr>target_inserted := False\<rparr>)
         else Inr d)"

text \<open>The result of the call and the new state; \<open>ENOMEM\<close> is 12.\<close>

definition process_uevent_message :: "recv_result \<Rightarrow> bool \<Rightarrow> fork_result \<Rightarrow> tgmd \<Rightarrow> (int \<times> tgmd) outcome" where
  "process_uevent_message r allocated f d = (case r of
       RecvError err \<Rightarrow> Inr (- int err, d)
     | Received buf count \<Rightarrow>
         if \<not> allocated then Inr (-12, d)
         else seqO (read_strings_from buf count 0 True zero_event) (\<lambda>ev.
              seqO (check_uevent f ev d) (\<lambda>d'. Inr (0, d'))))"

text \<open>One turn of the loop of \<open>main\<close>, and a run of it; the result of the message is only logged.\<close>

definition main_turn :: "select_result \<Rightarrow> tgmd \<Rightarrow> tgmd outcome" where
  "main_turn e d = (case e of SelectError \<Rightarrow> Inr d | SelectTimeout \<Rightarrow> Inr d
     | SelectReady r allocated f \<Rightarrow> seqO (process_uevent_message r allocated f d) (\<lambda>(rc, d'). Inr d'))"

fun main_loop :: "select_result list \<Rightarrow> tgmd \<Rightarrow> tgmd outcome" where
  "main_loop [] d = Inr d"
| "main_loop (e # es) d = seqO (main_turn e d) (main_loop es)"

section \<open>Start\<close>

text \<open>
  What the calls of \<open>main\<close> give before the loop: the uevent socket, its two options and its
  address, the driver's library and its \<open>TGM_Init\<close>.
\<close>

record boot =
  uevent_sock :: int
  rcvbuf_ok :: bool
  reuse_ok :: bool
  bind_ok :: bool
  library_ok :: bool
  init_symbol :: bool

text \<open>
  The rest of the event loop's thread, which gets the pipe \<open>fds\<close>, runs while \<open>main\<close> goes on:
  before the registration of the driver, or after it. The two touch different events, and each
  adds its event under the lock, so that no order in between has another effect.
\<close>

definition main_start :: "boot \<Rightarrow> bool \<Rightarrow> bool \<Rightarrow> int option \<Rightarrow> int \<Rightarrow> ('m core \<Rightarrow> 'm radio option \<times> 'm core) \<Rightarrow> 'm core \<Rightarrow> 'm core outcome" where
  "main_start b created thread_first fds sock tgmInit s =
     (if uevent_sock b < 0 then Inl Exited
      else if \<not> rcvbuf_ok b then Inl Exited
      else if \<not> reuse_ok b then Inl Exited
      else if \<not> bind_ok b then Inl Exited
      else if \<not> library_ok b then Inl Exited
      else seqO (TGM_startEventLoop created s) (\<lambda>s1.
           seqO (if thread_first then eventLoop fds s1 else Inr s1) (\<lambda>s2.
           if \<not> init_symbol b then Inl Exited
           else case tgmInit s2 of (funcs, s3) \<Rightarrow>
             seqO (TGM_register_lib funcs created sock s3) (\<lambda>s4. if thread_first then Inr s4 else eventLoop fds s4))))"

section \<open>Messages\<close>

text \<open>A message of the kernel: its strings, each with its NUL.\<close>

definition message :: "string list \<Rightarrow> string" where
  "message ss = concat (map (\<lambda>s. s @ [NUL]) ss)"

lemma message_simps [simp]: "message [] = []" "message (s # ss) = s @ NUL # message ss"
  by (simp_all add: message_def)

definition no_nul :: "string \<Rightarrow> bool" where
  "no_nul s \<longleftrightarrow> NUL \<notin> set s"

lemma c_string_at: "no_nul s \<Longrightarrow> c_string (pre @ s @ NUL # rest) (length pre) = Inr s"
  by (simp add: c_string_def no_nul_def)

text \<open>What the fields say: the last of each kind counts, and every other field is a parameter.\<close>

definition keys :: "string list" where
  "keys = [''ACTION='', ''SEQNUM='', ''SUBSYSTEM='']"

definition values_of :: "string \<Rightarrow> string list \<Rightarrow> string list" where
  "values_of key fs = map (drop (length key)) (filter (prefix key) fs)"

definition others :: "string list \<Rightarrow> string list" where
  "others fs = filter (\<lambda>f. \<forall>key \<in> set keys. \<not> prefix key f) fs"

definition last_or :: "'a \<Rightarrow> 'a list \<Rightarrow> 'a" where
  "last_or d xs = (if xs = [] then d else last xs)"

fun action_named :: "string \<Rightarrow> uevent_action option" where
  "action_named a = (if a = ''add'' then Some action_add else if a = ''change'' then Some action_change
     else if a = ''remove'' then Some action_remove else None)"

definition actions_of :: "string list \<Rightarrow> uevent_action list" where
  "actions_of fs = List.map_filter action_named (values_of ''ACTION='' fs)"

definition with_fields :: "string list \<Rightarrow> uevent \<Rightarrow> uevent" where
  "with_fields fs ev = ev\<lparr>ue_action := last_or (ue_action ev) (actions_of fs), ue_subsystem := last_or (ue_subsystem ev) (map Some (values_of ''SUBSYSTEM='' fs)),
     ue_param := ue_param ev @ others fs, ue_seqnum := last_or (ue_seqnum ev) (map atoi_unsigned (values_of ''SEQNUM='' fs))\<rparr>"

definition uevent_of :: "string \<Rightarrow> string list \<Rightarrow> uevent" where
  "uevent_of hdr fs = with_fields fs (zero_event\<lparr>ue_path := Some (tl (dropWhile (\<lambda>c. c \<noteq> CHR ''@'') hdr))\<rparr>)"

lemma last_or_Cons: "last_or d (x # xs) = last_or x xs"
  by (simp add: last_or_def)

lemma last_or_Nil [simp]: "last_or d [] = d"
  by (simp add: last_or_def)

fun read_fields :: "string list \<Rightarrow> uevent \<Rightarrow> uevent outcome" where
  "read_fields [] ev = Inr ev"
| "read_fields (f # fs) ev = seqO (read_field f ev) (read_fields fs)"

text \<open>The three keys exclude each other.\<close>

lemma keys_differ:
  "prefix ''ACTION='' f \<Longrightarrow> \<not> prefix ''SEQNUM='' f \<and> \<not> prefix ''SUBSYSTEM='' f" "prefix ''SEQNUM='' f \<Longrightarrow> \<not> prefix ''SUBSYSTEM='' f"
  using prefix_same_cases[of "''ACTION=''" f "''SEQNUM=''"] prefix_same_cases[of "''ACTION=''" f "''SUBSYSTEM=''"]
    prefix_same_cases[of "''SEQNUM=''" f "''SUBSYSTEM=''"] by auto

lemma read_field_spec:
  "read_field f ev = (if prefix ''ACTION='' f \<or> prefix ''SEQNUM='' f \<or> prefix ''SUBSYSTEM='' f \<or> length (ue_param ev) < UEVENT_PARAMS_MAX
     then Inr (with_fields [f] ev) else Inl Undef)"
proof -
  consider "prefix ''ACTION='' f" "\<not> prefix ''SEQNUM='' f" "\<not> prefix ''SUBSYSTEM='' f" | "\<not> prefix ''ACTION='' f" "prefix ''SEQNUM='' f" "\<not> prefix ''SUBSYSTEM='' f"
    | "\<not> prefix ''ACTION='' f" "\<not> prefix ''SEQNUM='' f" "prefix ''SUBSYSTEM='' f" | "\<not> prefix ''ACTION='' f" "\<not> prefix ''SEQNUM='' f" "\<not> prefix ''SUBSYSTEM='' f"
    using keys_differ by blast
  then show ?thesis
    by cases (simp_all add: read_field_def with_fields_def actions_of_def values_of_def others_def keys_def last_or_def List.map_filter_def Let_def)
qed

lemma with_fields_Cons: "with_fields fs (with_fields [f] ev) = with_fields (f # fs) ev"
proof -
  have a: "actions_of (f # fs) = actions_of [f] @ actions_of fs" by (simp add: actions_of_def values_of_def List.map_filter_def)
  have v: "values_of k (f # fs) = values_of k [f] @ values_of k fs" for k by (simp add: values_of_def)
  have l: "last_or d (xs @ ys) = last_or (last_or d xs) ys" for d :: "'b" and xs ys by (simp add: last_or_def)
  show ?thesis unfolding with_fields_def a v map_append by (simp add: l others_def)
qed

lemma read_fields_spec:
  "read_fields fs ev = (if length (ue_param ev) + length (others fs) \<le> UEVENT_PARAMS_MAX \<or> others fs = [] then Inr (with_fields fs ev) else Inl Undef)"
proof (induction fs arbitrary: ev)
  case Nil
  show ?case by (simp add: with_fields_def others_def actions_of_def values_of_def List.map_filter_def)
next
  case (Cons f fs)
  have p: "ue_param (with_fields [f] ev) = ue_param ev @ others [f]" by (simp add: with_fields_def)
  have o: "others (f # fs) = others [f] @ others fs" by (simp add: others_def)
  have one: "others [f] = [] \<longleftrightarrow> prefix ''ACTION='' f \<or> prefix ''SEQNUM='' f \<or> prefix ''SUBSYSTEM='' f" "others [f] \<noteq> [] \<Longrightarrow> others [f] = [f]"
    by (auto simp: others_def keys_def)
  show ?case
    using one by (auto simp: read_field_spec Cons.IH p o with_fields_Cons)
qed

text \<open>The loop over the array is the loop over the strings, whatever lies behind the message.\<close>

lemma fields_read:
  assumes "\<forall>f \<in> set fs. no_nul f"
  shows "read_strings_from (pre @ message fs @ junk) (length pre + length (message fs)) (length pre) False ev = read_fields fs ev"
  using assms
proof (induction fs arbitrary: pre ev)
  case Nil
  show ?case by (simp add: read_strings_from.simps)
next
  case (Cons f fs)
  have c: "c_string (pre @ message (f # fs) @ junk) (length pre) = Inr f" using c_string_at[of f pre] Cons.prems by simp
  have next': "read_strings_from ((pre @ f @ [NUL]) @ message fs @ junk) (length (pre @ f @ [NUL]) + length (message fs)) (length (pre @ f @ [NUL])) False ev'
      = read_fields fs ev'" for ev' by (rule Cons.IH) (use Cons.prems in simp)
  show ?case
    using next' by (subst read_strings_from.simps) (simp add: c[simplified] seqO_def add_ac split: sum.split)
qed

lemma message_read:
  assumes "\<forall>f \<in> set (hdr # fs). no_nul f" "CHR ''@'' \<in> set hdr"
  shows "read_strings_from (message (hdr # fs) @ junk) (length (message (hdr # fs))) 0 True zero_event =
    read_fields fs (zero_event\<lparr>ue_path := Some (tl (dropWhile (\<lambda>c. c \<noteq> CHR ''@'') hdr))\<rparr>)"
proof -
  obtain a q where h: "hdr = a @ CHR ''@'' # q" "CHR ''@'' \<notin> set a" using split_list_first[OF assms(2)] by blast
  have nn: "no_nul hdr" "no_nul q" using assms(1) h(1) by (simp_all add: no_nul_def)
  have c: "c_string (message (hdr # fs) @ junk) 0 = Inr hdr" using c_string_at[OF nn(1), of "[]"] by simp
  have q: "c_string ((a @ [CHR ''@'']) @ q @ NUL # message fs @ junk) (length (a @ [CHR ''@''])) = Inr q" by (rule c_string_at[OF nn(2)])
  have r: "read_header (message (hdr # fs) @ junk) 0 zero_event = Inr (zero_event\<lparr>ue_path := Some q\<rparr>)"
    using q h(2) by (simp add: read_header_def h(1) Let_def)
  have fr: "read_strings_from ((hdr @ [NUL]) @ message fs @ junk) (length (hdr @ [NUL]) + length (message fs)) (length (hdr @ [NUL])) False ev = read_fields fs ev" for ev
    by (rule fields_read) (use assms(1) in simp)
  have pos: "0 < length (message (hdr # fs))" by simp
  have "read_strings_from (message (hdr # fs) @ junk) (length (message (hdr # fs))) 0 True zero_event =
    read_strings_from (message (hdr # fs) @ junk) (length (message (hdr # fs))) (0 + length hdr + 1) False (zero_event\<lparr>ue_path := Some q\<rparr>)"
    by (subst read_strings_from.simps) (simp only: c r pos if_True sum.case)
  also have "\<dots> = read_fields fs (zero_event\<lparr>ue_path := Some q\<rparr>)" using fr by (simp add: add_ac)
  finally show ?thesis using h by simp
qed

text \<open>What stands behind the first @ of the buffer, which the header need not have.\<close>

definition behind_at :: "string \<Rightarrow> string" where
  "behind_at buf = tl (dropWhile (\<lambda>c. c \<noteq> CHR ''@'') buf)"

lemma read_header_spec:
  "read_header buf 0 ev = (if NUL \<in> set (behind_at buf) then Inr (ev\<lparr>ue_path := Some (takeWhile (\<lambda>c. c \<noteq> NUL) (behind_at buf))\<rparr>) else Inl Undef)"
proof -
  let ?n = "length (takeWhile (\<lambda>c. c \<noteq> CHR ''@'') buf)"
  have d: "drop (Suc ?n) buf = behind_at buf" by (simp add: behind_at_def dropWhile_eq_drop tl_drop drop_Suc)
  show ?thesis
  proof (cases "?n < length buf")
    case True
    then show ?thesis by (simp add: read_header_def c_string_def d)
  next
    case False
    then have "behind_at buf = []" using d by simp
    then show ?thesis using False by (simp add: read_header_def)
  qed
qed

lemma header_read:
  assumes "\<forall>f \<in> set (hdr # fs). no_nul f" and buf: "buf = message (hdr # fs) @ junk"
  shows "read_strings_from buf (length (message (hdr # fs))) 0 True zero_event =
    (if NUL \<in> set (behind_at buf) then read_fields fs (zero_event\<lparr>ue_path := Some (takeWhile (\<lambda>c. c \<noteq> NUL) (behind_at buf))\<rparr>) else Inl Undef)"
proof -
  have c: "c_string buf 0 = Inr hdr" using c_string_at[of hdr "[]"] assms(1) by (simp add: buf)
  have fr: "read_strings_from ((hdr @ [NUL]) @ message fs @ junk) (length (hdr @ [NUL]) + length (message fs)) (length (hdr @ [NUL])) False ev = read_fields fs ev" for ev
    by (rule fields_read) (use assms(1) in simp)
  have pos: "0 < length (message (hdr # fs))" by simp
  have "read_strings_from buf (length (message (hdr # fs))) (0 + length hdr + 1) False ev = read_fields fs ev" for ev
    using fr[of ev] by (simp add: buf add_ac)
  then show ?thesis
    by (subst read_strings_from.simps) (simp only: c read_header_spec pos if_True sum.case split: if_split, simp)
qed

section \<open>The device\<close>

definition TARGET :: string where "TARGET = ''PRODUCT=12d1/1446/0''"

definition has_target :: "uevent \<Rightarrow> bool" where
  "has_target ev \<longleftrightarrow> TARGET \<in> set (ue_param ev)"

lemma find_target_spec:
  "find_target f ps d = (if TARGET \<in> set ps then start_modeswitch f (d\<lparr>target_inserted := True\<rparr>) else Inr d)"
proof (induction ps)
  case (Cons p ps)
  have "p = TARGET \<longleftrightarrow> prefix ''PRODUCT='' p \<and> drop (length ''PRODUCT='') p = ''12d1/1446/0''"
    by (auto simp: TARGET_def prefix_def)
  then show ?case using Cons by (auto simp: Let_def)
qed simp

text \<open>The abstract device: an event of the subsystem \<open>usb\<close> comes or goes, and the modem may be known.\<close>

definition comes :: "uevent \<Rightarrow> bool" where
  "comes ev \<longleftrightarrow> ue_subsystem ev = Some ''usb'' \<and> ue_action ev = action_add \<and> has_target ev"

definition goes :: "uevent \<Rightarrow> bool" where
  "goes ev \<longleftrightarrow> ue_subsystem ev = Some ''usb'' \<and> ue_action ev = action_remove"

text \<open>An event comes with the result of the \<open>fork\<close> it may cause.\<close>

fun track :: "bool \<times> nat \<Rightarrow> uevent \<times> bool \<Rightarrow> bool \<times> nat" where
  "track (known, n) (ev, forked) =
     (if comes ev \<and> \<not> known then (True, if forked then n + 1 else n) else if goes ev \<and> known then (False, n) else (known, n))"

definition device :: "tgmd \<Rightarrow> bool \<times> nat" where
  "device d = (target_inserted d, spawned d)"

text \<open>What \<open>fork\<close> returns in the daemon.\<close>

definition fork_of :: "bool \<Rightarrow> fork_result" where
  "fork_of forked = (if forked then ForkParent else ForkFailed)"

lemma check_tracks:
  assumes "ue_subsystem ev \<noteq> None"
  shows "\<exists>d'. check_uevent (fork_of forked) ev d = Inr d' \<and> device d' = track (device d) (ev, forked)"
  using assms by (auto simp: check_uevent_def find_target_spec start_modeswitch_def device_def comes_def goes_def has_target_def fork_of_def)

lemma track_bound:
  "snd (foldl track (known, n) evs) \<le> n + length (filter (\<lambda>e. goes (fst e)) evs) + (if known then 0 else 1) \<and>
   snd (foldl track (known, n) evs) + (if fst (foldl track (known, n) evs) then 0 else 1) \<le> n + length (filter (\<lambda>e. goes (fst e)) evs) + (if known then 0 else 1)"
proof (induction evs arbitrary: known n)
  case (Cons e evs)
  obtain ev forked where e: "e = (ev, forked)" by (cases e)
  have "comes ev \<Longrightarrow> \<not> goes ev" by (simp add: comes_def goes_def)
  then show ?case using Cons[of True "n + 1"] Cons[of True n] Cons[of False n] Cons[of known n] by (auto simp: e)
qed simp

text \<open>
  A message in its buffer, with the result of the \<open>fork\<close>: one turn of the loop of \<open>main\<close>, and the
  event it is.
\<close>

type_synonym arrival = "string \<times> string list \<times> string \<times> bool"

fun turn_of :: "arrival \<Rightarrow> select_result" where
  "turn_of (hdr, fs, junk, forked) = SelectReady (Received (message (hdr # fs) @ junk) (length (message (hdr # fs)))) True (fork_of forked)"

fun event_of :: "arrival \<Rightarrow> uevent \<times> bool" where
  "event_of (hdr, fs, junk, forked) = (uevent_of hdr fs, forked)"

fun sound :: "arrival \<Rightarrow> bool" where
  "sound (hdr, fs, junk, forked) \<longleftrightarrow> (\<forall>f \<in> set (hdr # fs). no_nul f) \<and> CHR ''@'' \<in> set hdr \<and>
     length (others fs) \<le> UEVENT_PARAMS_MAX \<and> values_of ''SUBSYSTEM='' fs \<noteq> []"

lemma turn_tracks:
  assumes "sound m"
  shows "\<exists>d'. main_turn (turn_of m) d = Inr d' \<and> device d' = track (device d) (event_of m)"
proof -
  obtain hdr fs junk forked where m: "m = (hdr, fs, junk, forked)" by (metis surj_pair)
  have p: "\<forall>f \<in> set (hdr # fs). no_nul f" "CHR ''@'' \<in> set hdr" "length (others fs) \<le> UEVENT_PARAMS_MAX" "values_of ''SUBSYSTEM='' fs \<noteq> []"
    using assms by (simp_all add: m)
  have r: "read_strings_from (message (hdr # fs) @ junk) (length (message (hdr # fs))) 0 True zero_event = Inr (uevent_of hdr fs)"
    using message_read[OF p(1,2), of junk] p(3) by (simp only: read_fields_spec) (simp add: uevent_of_def zero_event_def)
  have "ue_subsystem (uevent_of hdr fs) \<noteq> None" using p(4) by (simp add: uevent_of_def with_fields_def last_or_def last_map)
  then obtain d1 where "check_uevent (fork_of forked) (uevent_of hdr fs) d = Inr d1" "device d1 = track (device d) (uevent_of hdr fs, forked)"
    using check_tracks by blast
  then show ?thesis
    by (simp only: m turn_of.simps event_of.simps main_turn_def process_uevent_message_def select_result.case recv_result.case r) simp
qed

lemma loop_tracks:
  "\<forall>m \<in> set ms. sound m \<Longrightarrow> \<exists>d'. main_loop (map turn_of ms) d = Inr d' \<and> device d' = foldl track (device d) (map event_of ms)"
proof (induction ms arbitrary: d)
  case (Cons m ms)
  then obtain d1 where d1: "main_turn (turn_of m) d = Inr d1" "device d1 = track (device d) (event_of m)" using turn_tracks[of m d] by auto
  then show ?case using Cons.IH[of d1] Cons.prems by simp
qed simp

section \<open>Properties\<close>

text \<open>
  C25. A uevent message is parsed as the list of its strings: the path is what stands behind the
  first @ of the header, the last action, subsystem and number count, and the other fields are the
  parameters in their order. What the buffer holds behind the message does not matter. More
  parameters than the array has places are written behind it.
\<close>

theorem uevent_message_parsed:
  assumes "\<forall>f \<in> set (hdr # fs). no_nul f" "CHR ''@'' \<in> set hdr"
  shows "read_strings_from (message (hdr # fs) @ junk) (length (message (hdr # fs))) 0 True zero_event =
    (if length (others fs) \<le> UEVENT_PARAMS_MAX then Inr (uevent_of hdr fs) else Inl Undef)"
  using message_read[OF assms] by (auto simp: read_fields_spec uevent_of_def zero_event_def)

theorem uevent_message_parsed_witness:
  "read_strings_from (message [''add@/devices/usb1'', ''ACTION=add'', ''SUBSYSTEM=usb'', ''PRODUCT=12d1/1446/0''] @ ''xyz'')
    (length (message [''add@/devices/usb1'', ''ACTION=add'', ''SUBSYSTEM=usb'', ''PRODUCT=12d1/1446/0''])) 0 True zero_event =
   Inr \<lparr>ue_path = Some ''/devices/usb1'', ue_action = action_add, ue_subsystem = Some ''usb'', ue_param = [''PRODUCT=12d1/1446/0''], ue_seqnum = 0\<rparr>"
  using uevent_message_parsed[of "''add@/devices/usb1''" "[''ACTION=add'', ''SUBSYSTEM=usb'', ''PRODUCT=12d1/1446/0'']" "''xyz''"]
  by (simp add: no_nul_def uevent_of_def with_fields_def zero_event_def others_def keys_def actions_of_def values_of_def List.map_filter_def
      last_or_def UEVENT_PARAMS_MAX_def)

text \<open>
  C36. A message of strings that end in NUL makes the process fail exactly when it has no field
  SUBSYSTEM, whose string is then NULL, when it has more than 32 parameters, or when the search
  for the path leaves the buffer: no @ stands anywhere in the buffer, or no NUL behind the first
  one. The header need not have an @ for that.
\<close>

theorem uevent_crash_exact:
  assumes "\<forall>f \<in> set (hdr # fs). no_nul f"
  shows "process_uevent_message (Received (message (hdr # fs) @ junk) (length (message (hdr # fs)))) True f d = Inl Undef \<longleftrightarrow>
    values_of ''SUBSYSTEM='' fs = [] \<or> UEVENT_PARAMS_MAX < length (others fs) \<or>
    NUL \<notin> set (tl (dropWhile (\<lambda>c. c \<noteq> CHR ''@'') (message (hdr # fs) @ junk)))"
proof -
  let ?buf = "message (hdr # fs) @ junk"
  define ev where "ev = with_fields fs (zero_event\<lparr>ue_path := Some (takeWhile (\<lambda>c. c \<noteq> NUL) (behind_at ?buf))\<rparr>)"
  have sub: "ue_subsystem ev = None \<longleftrightarrow> values_of ''SUBSYSTEM='' fs = []"
    by (auto simp: ev_def with_fields_def zero_event_def last_or_def last_map)
  have ck: "check_uevent f ev d = Inl Undef \<longleftrightarrow> ue_subsystem ev = None"
    by (auto simp: check_uevent_def find_target_spec start_modeswitch_def run_child_def split: option.split fork_result.split)
  have "read_strings_from ?buf (length (message (hdr # fs))) 0 True zero_event =
      (if NUL \<in> set (behind_at ?buf) \<and> length (others fs) \<le> UEVENT_PARAMS_MAX then Inr ev else Inl Undef)"
    unfolding header_read[OF assms refl] by (auto simp: read_fields_spec ev_def zero_event_def)
  then show ?thesis
    using ck sub unfolding behind_at_def[symmetric]
    by (cases "check_uevent f ev d") (auto simp: process_uevent_message_def simp del: message_simps)
qed

theorem uevent_crash_exact_witness:
  "process_uevent_message (Received (message [''x'', ''SUBSYSTEM=usb''] @ ''@'') (length (message [''x'', ''SUBSYSTEM=usb'']))) True ForkParent tgmd_init = Inl Undef"
  using uevent_crash_exact[of "''x''" "[''SUBSYSTEM=usb'']" "''@''" ForkParent tgmd_init] by (simp add: no_nul_def)

text \<open>
  C26. Over any run of well-formed messages, and whether \<open>fork\<close> succeeds or not, \<open>usb_modeswitch\<close> is
  started exactly when the modem's product appears on the bus while it is not taken for inserted
  and the \<open>fork\<close> succeeds. The modem is taken for inserted from then on even when the \<open>fork\<close>
  failed, so a failed start is not repeated, until any USB device goes, which clears that mark;
  between two starts some USB device went.
\<close>

theorem modeswitch_follows_uevents:
  assumes "\<forall>m \<in> set ms. sound m"
  shows "\<exists>d'. main_loop (map turn_of ms) d = Inr d' \<and> device d' = foldl track (device d) (map event_of ms) \<and>
    spawned d' \<le> spawned d + 1 + length (filter (\<lambda>m. goes (fst (event_of m))) ms)"
proof -
  obtain d' where d': "main_loop (map turn_of ms) d = Inr d'" "device d' = foldl track (device d) (map event_of ms)"
    using loop_tracks[OF assms] by blast
  have "snd (foldl track (device d) evs) \<le> spawned d + 1 + length (filter (\<lambda>e. goes (fst e)) evs)" for evs
    using track_bound[of "target_inserted d" "spawned d" evs] by (auto simp: device_def split: if_splits)
  moreover have "length (filter (\<lambda>e. goes (fst e)) (map event_of ms)) = length (filter (\<lambda>m. goes (fst (event_of m))) ms)"
    by (simp add: filter_map o_def)
  moreover have "spawned d' = snd (device d')" by (simp add: device_def)
  ultimately have "spawned d' \<le> spawned d + 1 + length (filter (\<lambda>m. goes (fst (event_of m))) ms)" unfolding d'(2) by metis
  then show ?thesis using d' by blast
qed

text \<open>
  Five messages: the modem comes, another USB device goes, the modem's interface is bound, which
  counts as coming, and \<open>usb_modeswitch\<close> runs a second time; then a device goes, and when the modem
  comes again the \<open>fork\<close> fails.
\<close>

definition plugged :: "arrival list" where
  "plugged = [(''add@/devices/usb1'', [''ACTION=add'', ''SUBSYSTEM=usb'', ''PRODUCT=12d1/1446/0''], [], True),
     (''remove@/devices/usb2'', [''ACTION=remove'', ''SUBSYSTEM=usb'', ''PRODUCT=46d/c31c/110''], ''junk'', True),
     (''bind@/devices/usb1'', [''ACTION=bind'', ''SUBSYSTEM=usb'', ''PRODUCT=12d1/1446/0''], [], True),
     (''remove@/devices/usb1'', [''ACTION=remove'', ''SUBSYSTEM=usb''], [], True),
     (''add@/devices/usb1'', [''ACTION=add'', ''SUBSYSTEM=usb'', ''PRODUCT=12d1/1446/0''], [], False)]"

theorem modeswitch_follows_uevents_witness:
  "\<exists>d'. main_loop (map turn_of plugged) tgmd_init = Inr d' \<and> device d' = (True, 2)"
proof -
  have t: "foldl track (device tgmd_init) (map event_of plugged) = (True, 2)"
    by (simp add: plugged_def tgmd_init_def device_def uevent_of_def with_fields_def zero_event_def others_def keys_def actions_of_def values_of_def
        List.map_filter_def last_or_def comes_def goes_def has_target_def TARGET_def)
  have w: "\<forall>m \<in> set plugged. sound m"
    by (simp add: plugged_def no_nul_def others_def keys_def values_of_def UEVENT_PARAMS_MAX_def)
  show ?thesis using modeswitch_follows_uevents[OF w, of tgmd_init] unfolding t by blast
qed

text \<open>The rest of the loop's thread in a reachable state where it was not done yet.\<close>

lemma thread_step:
  fixes s :: "'m core"
  assumes "idle_inv X s" "s_wakeupfd_event \<notin> set (watched s)" "accepts s = []" "\<forall>fd. fds = Some fd \<longrightarrow> fd \<notin> {s_fdListen s, s_fdCommand s}"
  shows "\<exists>s'. eventLoop fds s = Inr s' \<and> idle_inv X s' \<and> (\<forall>R. daemon_reach X R s \<longrightarrow> daemon_reach X R s') \<and> s_registerCalled s' = s_registerCalled s \<and>
    s_fdListen s' = s_fdListen s \<and> s_fdCommand s' = s_fdCommand s \<and> s_started s' = s_started s \<and> accepts s' = [] \<and> s_fdWakeupRead s' = (case fds of None \<Rightarrow> s_fdWakeupRead s | Some fd \<Rightarrow> fd) \<and>
    set (watched s') = (if fds = None then {} else {s_wakeupfd_event}) \<union> set (watched s)"
proof (cases fds)
  case None
  then show ?thesis using assms(1,3) by (simp add: eventLoop_def)
next
  case (Some fd)
  have fd: "fd \<notin> {s_fdListen s, s_fdCommand s}" using assms(4) Some by blast
  obtain s' where s': "eventLoop (Some fd) s = Inr s'" "idle_inv X s'" "s_registerCalled s' = s_registerCalled s" "s_fdWakeupRead s' = fd"
    "s_fdListen s' = s_fdListen s" "s_fdCommand s' = s_fdCommand s" "accepts s' = []" "s_started s' = s_started s" "set (watched s') = insert s_wakeupfd_event (set (watched s))"
    using watch_idle[OF assms(1-3) fd] by blast
  have "\<forall>R. daemon_reach X R s \<longrightarrow> daemon_reach X R s'" using daemon_reach.watch[OF _ assms(2,3) fd s'(1)] by blast
  then show ?thesis using s' Some by auto
qed

text \<open>What \<open>TGM_Init\<close> leaves of the daemon's state: the driver has its own.\<close>

lemma driver_set:
  fixes s :: "'m core"
  assumes "idle_inv X s"
  shows "idle_inv X (s\<lparr>driver := m\<rparr>)" "daemon_reach X R s \<Longrightarrow> accepts s = [] \<Longrightarrow> daemon_reach X R (s\<lparr>driver := m\<rparr>)" "watched (s\<lparr>driver := m\<rparr>) = watched s"
proof -
  have c: "client_ok X (stream s)" using assms by (simp add: idle_inv_def)
  have eq: "s\<lparr>driver := m\<rparr> = s\<lparr>stream := stream s, accepts := accepts s, writes := writes s, driver := m\<rparr>" by (cases s) simp
  have "loop_inv (s\<lparr>driver := m\<rparr>) = loop_inv s" by (rule loop_same_fields; simp)
  moreover have "core_inv (s\<lparr>driver := m\<rparr>) ts []" if "core_inv s ts []" for ts by (rule core_cong[OF that]) simp_all
  ultimately show "idle_inv X (s\<lparr>driver := m\<rparr>)" using assms by (auto simp: idle_inv_def)
  show "daemon_reach X R s \<Longrightarrow> accepts s = [] \<Longrightarrow> daemon_reach X R (s\<lparr>driver := m\<rparr>)"
    using daemon_reach.input[where s = s and X = X and R = R and rs = "stream s" and fds = "[]" and ws = "writes s" and m = m] c by (subst eq) (simp add: fresh_fds_def)
  show "watched (s\<lparr>driver := m\<rparr>) = watched s" by (rule loop_same_fields; simp)
qed

text \<open>The state in which \<open>main\<close> registers the driver.\<close>

lemma state_before_register:
  fixes m' :: 'm
  assumes "sock \<noteq> 0" "\<forall>fd. fds = Some fd \<longrightarrow> 0 < fd \<and> fd \<noteq> sock"
  shows "\<exists>s0 t s1. TGM_startEventLoop True (initial_core m) = Inr s0 \<and> eventLoop fds s0 = Inr t \<and> s1 = (if first then t else s0)\<lparr>driver := m'\<rparr> \<and>
    (\<forall>R. daemon_reach X R s1) \<and> idle_inv X s1 \<and> s_registerCalled s1 = False \<and> s_started s1 \<and> accepts s1 = [] \<and> s_fdCommand s1 = -1 \<and>
    sock \<noteq> s_fdWakeupRead s1 \<and> s_fdListen s1 = -1 \<and> set (watched s1) = (if first \<and> fds \<noteq> None then {s_wakeupfd_event} else {})"
proof -
  obtain s0 where s0: "TGM_startEventLoop True (initial_core m) = Inr s0" "idle_inv X s0" "s_started s0" "\<not> s_registerCalled s0" "s_fdWakeupRead s0 = 0"
    "accepts s0 = []" "watched s0 = []" "s_fdListen s0 = -1" "s_fdCommand s0 = -1"
    using start_idle[of m X] by blast
  have fresh0: "\<forall>fd. fds = Some fd \<longrightarrow> fd \<notin> {s_fdListen s0, s_fdCommand s0}" using assms(2) s0(8,9) by auto
  have ev0: "s_wakeupfd_event \<notin> set (watched s0)" using s0(7) by simp
  obtain t where t: "eventLoop fds s0 = Inr t" "idle_inv X t" "\<forall>R. daemon_reach X R s0 \<longrightarrow> daemon_reach X R t" "s_registerCalled t = s_registerCalled s0"
    "s_fdListen t = s_fdListen s0" "s_fdCommand t = s_fdCommand s0" "s_started t = s_started s0" "accepts t = []"
    "s_fdWakeupRead t = (case fds of None \<Rightarrow> s_fdWakeupRead s0 | Some fd \<Rightarrow> fd)"
    "set (watched t) = (if fds = None then {} else {s_wakeupfd_event}) \<union> set (watched s0)"
    using thread_step[OF s0(2) ev0 s0(6) fresh0] by blast
  define s1 where "s1 = (if first then t else s0)\<lparr>driver := m'\<rparr>"
  have reach: "daemon_reach X R s1" for R
    unfolding s1_def using driver_set(2)[OF s0(2) daemon_reach.start[OF s0(1)] s0(6)] driver_set(2)[OF t(2) spec[OF t(3), THEN mp, OF daemon_reach.start[OF s0(1)]] t(8)]
    by simp
  have s1: "idle_inv X s1" "s_registerCalled s1 = False" "s_started s1" "accepts s1 = []" "s_fdCommand s1 = -1" "sock \<noteq> s_fdWakeupRead s1"
    "s_fdListen s1 = -1" "set (watched s1) = (if first \<and> fds \<noteq> None then {s_wakeupfd_event} else {})"
    using driver_set(1,3)[OF s0(2)] driver_set(1,3)[OF t(2)] s0 t assms by (auto simp: s1_def split: option.split)
  show ?thesis using s0(1) t(1) s1_def reach s1 by blast
qed

text \<open>The loop's thread, if it is not done yet when the driver is registered.\<close>

lemma thread_after_register:
  fixes s1 s3 :: "'m core"
  assumes "\<forall>fd. fds = Some fd \<longrightarrow> 0 < fd \<and> fd \<noteq> sock" "set (watched s1) = (if first \<and> fds \<noteq> None then {s_wakeupfd_event} else {})"
    "idle_inv X s3" "accepts s3 = []" "s_fdListen s3 \<in> {sock, -1}" "s_fdCommand s3 = -1" "set (watched s3) = set (watched s1) \<union> A" "A \<subseteq> {s_listen_event}"
  shows "\<exists>s4. (if first then Inr s3 else eventLoop fds s3) = Inr s4 \<and> s_registerCalled s4 = s_registerCalled s3 \<and> s_fdCommand s4 = s_fdCommand s3 \<and>
    (daemon_reach X R s3 \<longrightarrow> daemon_reach X R s4) \<and> set (watched s4) = (if fds = None then {} else {s_wakeupfd_event}) \<union> A"
proof (cases first)
  case True
  then show ?thesis using assms(2,7) by auto
next
  case False
  have out: "s_wakeupfd_event \<notin> set (watched s3)" using assms(2,7,8) False by auto
  have new: "\<forall>fd. fds = Some fd \<longrightarrow> fd \<notin> {s_fdListen s3, s_fdCommand s3}" using assms(1,5,6) by auto
  show ?thesis using thread_step[OF assms(3) out assms(4) new] assms(2,7) False by fastforce
qed

text \<open>
  C27. The start of the process, in both orders of the event loop's thread and of \<open>main\<close>. When a
  system call on the uevent socket or the library fails it exits; when the thread of the event loop
  cannot be created it waits for ever; when the library has no \<open>TGM_Init\<close>, or the socket for the
  client cannot be had, it exits; when \<open>TGM_Init\<close> gives no functions, or functions of another
  version, it goes on without a driver and without listening. Otherwise the driver is registered
  and the daemon is in a reachable state in which it listens for its first client, and it has its
  wakeup descriptor exactly when \<open>pipe\<close> succeeded. The socket and the pipe have different
  descriptors, and neither is 0, which is open already; \<open>TGM_Init\<close> changes only the driver.
\<close>

theorem start_listens:
  assumes "\<And>s. tgmInit s = (funcs, s\<lparr>driver := m'\<rparr>)" "sock \<noteq> 0" "\<forall>fd. fds = Some fd \<longrightarrow> 0 < fd \<and> fd \<noteq> sock"
  shows "if uevent_sock b < 0 \<or> \<not> rcvbuf_ok b \<or> \<not> reuse_ok b \<or> \<not> bind_ok b \<or> \<not> library_ok b
    then main_start b created first fds sock tgmInit (initial_core m) = Inl Exited
    else if \<not> created then main_start b created first fds sock tgmInit (initial_core m) = Inl Blocked
    else if \<not> init_symbol b then main_start b created first fds sock tgmInit (initial_core m) = Inl Exited
    else if funcs = None \<or> rf_version (the funcs) \<noteq> TGM_VERSION \<and> rf_version (the funcs) \<noteq> 1
    then \<exists>s. main_start b created first fds sock tgmInit (initial_core m) = Inr s \<and> \<not> s_registerCalled s \<and> s_listen_event \<notin> set (watched s)
    else if sock < 0 then main_start b created first fds sock tgmInit (initial_core m) = Inl Exited
    else \<exists>s. main_start b created first fds sock tgmInit (initial_core m) = Inr s \<and> daemon_reach X (the funcs) s \<and> s_registerCalled s \<and>
      s_fdCommand s < 0 \<and> s_listen_event \<in> set (watched s) \<and> (s_wakeupfd_event \<in> set (watched s) \<longleftrightarrow> fds \<noteq> None)"
proof -
  let ?early = "uevent_sock b < 0 \<or> \<not> rcvbuf_ok b \<or> \<not> reuse_ok b \<or> \<not> bind_ok b \<or> \<not> library_ok b"
  let ?known = "\<lambda>R. rf_version R = TGM_VERSION \<or> rf_version R = 1"
  obtain s0 t s1 where s0: "TGM_startEventLoop True (initial_core m) = Inr s0" "eventLoop fds s0 = Inr t" "s1 = (if first then t else s0)\<lparr>driver := m'\<rparr>"
    and reach: "\<forall>R. daemon_reach X R s1"
    and s1: "idle_inv X s1" "s_registerCalled s1 = False" "s_started s1" "accepts s1 = []" "s_fdCommand s1 = -1" "sock \<noteq> s_fdWakeupRead s1"
      "s_fdListen s1 = -1" "set (watched s1) = (if first \<and> fds \<noteq> None then {s_wakeupfd_event} else {})"
    using state_before_register[OF assms(2,3), where m = m and first = first and m' = m' and X = X] by blast
  note after = thread_after_register[OF assms(3) s1(8)]
  have start: "main_start b created first fds sock tgmInit (initial_core m) = (if ?early then Inl Exited else if \<not> created then Inl Blocked
      else if \<not> init_symbol b then Inl Exited
      else seqO (TGM_register_lib funcs created sock s1) (\<lambda>s4. if first then Inr s4 else eventLoop fds s4))"
    using s0 by (simp add: main_start_def assms(1) TGM_startEventLoop_def)
  consider (bad) "funcs = None \<or> rf_version (the funcs) \<noteq> TGM_VERSION \<and> rf_version (the funcs) \<noteq> 1"
    | (refused) R where "funcs = Some R" "?known R" "sock < 0" | (listening) R where "funcs = Some R" "?known R" "\<not> sock < 0"
    by (cases funcs) auto
  then show ?thesis
  proof cases
    case bad
    then have quiet: "TGM_register_lib funcs created sock s1 = Inr s1" by (cases funcs) (auto simp: TGM_register_lib_def)
    obtain s4 where "(if first then Inr s1 else eventLoop fds s1) = Inr s4" "s_registerCalled s4 = s_registerCalled s1"
      "set (watched s4) = (if fds = None then {} else {s_wakeupfd_event}) \<union> {}"
      using after[OF s1(1,4), of "{}"] s1(5,7) by auto
    then show ?thesis unfolding start quiet using bad s1(2) by auto
  next
    case refused
    then have "TGM_register_lib funcs created sock s1 = Inl Exited" using s1(2,3) self_check_ok by (auto simp: TGM_register_lib_def)
    then show ?thesis unfolding start using refused by auto
  next
    case listening
    obtain s3 where s3: "TGM_register_lib (Some R) created sock s1 = Inr s3" "idle_inv X s3" "s_registerCalled s3" "s_fdCommand s3 = s_fdCommand s1"
      "s_fdListen s3 = sock" "accepts s3 = []" "set (watched s3) = insert s_listen_event (set (watched s1))"
      using register_idle[OF s1(1,3,6,4) listening(2), of created] s1(2) listening(3) by auto
    have "daemon_reach X R s3" if "created" by (rule daemon_reach.register[OF spec[OF reach] s1(3,6,4)]) (use s3(1) that in simp)
    moreover obtain s4 where "(if first then Inr s3 else eventLoop fds s3) = Inr s4" "s_registerCalled s4 = s_registerCalled s3" "s_fdCommand s4 = s_fdCommand s3"
      "daemon_reach X R s3 \<longrightarrow> daemon_reach X R s4" "set (watched s4) = (if fds = None then {} else {s_wakeupfd_event}) \<union> {s_listen_event}"
      using after[OF s3(2,6), of "{s_listen_event}" R] s3(4,5,7) s1(5) by auto
    ultimately show ?thesis unfolding start using listening s3(1,3,4) s1(5) by auto
  qed
qed

theorem start_listens_witness:
  "\<exists>s. main_start \<lparr>uevent_sock = 5, rcvbuf_ok = True, reuse_ok = True, bind_ok = True, library_ok = True, init_symbol = True\<rparr> True False (Some 3) 4
    (\<lambda>s. (Some (refusing_radio (item_ext 4)), s\<lparr>driver := ()\<rparr>)) (initial_core ()) = Inr s \<and> s_listen_event \<in> set (watched s)"
  using start_listens[of "\<lambda>s. (Some (refusing_radio (item_ext 4)), s\<lparr>driver := ()\<rparr>)" "Some (refusing_radio (item_ext 4))" "()" 4 "Some 3"
      "\<lparr>uevent_sock = 5, rcvbuf_ok = True, reuse_ok = True, bind_ok = True, library_ok = True, init_symbol = True\<rparr>" True False "()" "item_ext 4"]
  by (auto simp: refusing_radio_def TGM_VERSION_def)

end
