(* ===== verification/C_Heap.thy ===== *)
theory C_Heap
  imports Tgm_Prelude
begin

text \<open>
  The heap of \<open>malloc\<close> and \<open>free\<close>, for the components that keep their data in blocks: every
  block is a cell under its address, 0 is NULL, and an access to a block that is not allocated is
  undefined. \<open>malloc\<close> gives addresses it never gave before, so that a stale pointer is seen as
  one. The interface \<open>allocator\<close> holds what its clients rely on.
\<close>

record 'c mem =
  cells :: "nat \<Rightarrow> 'c option"
  next_block :: nat

definition heap_ok :: "'c mem \<Rightarrow> bool" where
  "heap_ok m \<longleftrightarrow> 0 < next_block m \<and> cells m 0 = None \<and> (\<forall>a \<ge> next_block m. cells m a = None)"

definition empty_heap :: "'c mem" where
  "empty_heap = \<lparr>cells = (\<lambda>a. None), next_block = 1\<rparr>"

definition malloc :: "'c \<Rightarrow> 'c mem \<Rightarrow> nat \<times> 'c mem" where
  "malloc c m = (next_block m, m\<lparr>cells := (cells m)(next_block m := Some c), next_block := next_block m + 1\<rparr>)"

definition free :: "nat \<Rightarrow> 'c mem \<Rightarrow> 'c mem outcome" where
  "free a m = (if a = 0 then Inr m else case cells m a of None \<Rightarrow> Inl Undef | Some c \<Rightarrow> Inr (m\<lparr>cells := (cells m)(a := None)\<rparr>))"

definition read_block :: "nat \<Rightarrow> 'c mem \<Rightarrow> 'c outcome" where
  "read_block a m = (case cells m a of None \<Rightarrow> Inl Undef | Some c \<Rightarrow> Inr c)"

definition write_block :: "nat \<Rightarrow> 'c \<Rightarrow> 'c mem \<Rightarrow> 'c mem outcome" where
  "write_block a c m = (case cells m a of None \<Rightarrow> Inl Undef | Some d \<Rightarrow> Inr (m\<lparr>cells := (cells m)(a := Some c)\<rparr>))"

lemma heap_ok_empty [simp]: "heap_ok empty_heap"
  by (simp add: heap_ok_def empty_heap_def)

lemma read_block_Some [simp]: "cells m a = Some c \<Longrightarrow> read_block a m = Inr c"
  by (simp add: read_block_def)

lemma write_block_Some: "cells m a = Some d \<Longrightarrow> write_block a c m = Inr (m\<lparr>cells := (cells m)(a := Some c)\<rparr>)"
  by (simp add: write_block_def)

lemma heap_ok_fresh: "heap_ok m \<Longrightarrow> cells m a = Some c \<Longrightarrow> a \<noteq> 0 \<and> a < next_block m"
  by (metis heap_ok_def not_le_imp_less option.distinct(1))

lemma heap_ok_nonnull: "heap_ok m \<Longrightarrow> cells m a \<noteq> None \<Longrightarrow> a \<noteq> 0"
  by (metis heap_ok_def)

lemma heap_ok_update: "heap_ok m \<Longrightarrow> cells m a = Some d \<Longrightarrow> heap_ok (m\<lparr>cells := (cells m)(a := c)\<rparr>)"
  using heap_ok_fresh[of m a d] by (auto simp: heap_ok_def)

section \<open>The interface\<close>

text \<open>\<open>release\<close> in the order of a list, as the functions that take a structure apart do it.\<close>

fun release_all :: "(nat \<Rightarrow> 'm \<Rightarrow> 'm outcome) \<Rightarrow> nat list \<Rightarrow> 'm \<Rightarrow> 'm outcome" where
  "release_all release [] m = Inr m"
| "release_all release (a # as) m = seqO (release a m) (release_all release as)"

lemma release_all_append: "release_all r (as @ bs) m = seqO (release_all r as m) (release_all r bs)"
  by (induction as arbitrary: m) (simp_all add: seqO_assoc seqO_def split: sum.split)

locale allocator =
  fixes ok :: "'m \<Rightarrow> bool" and peek :: "'m \<Rightarrow> nat \<Rightarrow> 'c option"
    and alloc :: "'c \<Rightarrow> 'm \<Rightarrow> nat \<times> 'm" and release :: "nat \<Rightarrow> 'm \<Rightarrow> 'm outcome"
  assumes alloc_fresh: "ok m \<Longrightarrow> alloc c m = (a, m') \<Longrightarrow> a \<noteq> 0 \<and> peek m a = None \<and> peek m' = (peek m)(a := Some c) \<and> ok m'"
    and release_block: "ok m \<Longrightarrow> peek m a \<noteq> None \<Longrightarrow> \<exists>m'. release a m = Inr m' \<and> peek m' = (peek m)(a := None) \<and> ok m'"
    and release_null: "release 0 m = Inr m"
    and release_twice: "a \<noteq> 0 \<Longrightarrow> peek m a = None \<Longrightarrow> release a m = Inl Undef"
begin

lemma release_blocks:
  assumes "ok m" "distinct as" "\<forall>a \<in> set as. peek m a \<noteq> None"
  shows "\<exists>m'. release_all release as m = Inr m' \<and> ok m' \<and> peek m' = (\<lambda>x. if x \<in> set as then None else peek m x)"
  using assms
proof (induction as arbitrary: m)
  case Nil
  then show ?case by simp
next
  case (Cons a as)
  obtain m1 where m1: "release a m = Inr m1" "peek m1 = (peek m)(a := None)" "ok m1"
    using release_block[OF Cons.prems(1)] Cons.prems(3) by auto
  have "\<exists>m'. release_all release as m1 = Inr m' \<and> ok m' \<and> peek m' = (\<lambda>x. if x \<in> set as then None else peek m1 x)"
    by (rule Cons.IH[OF m1(3)]) (use Cons.prems(2,3) m1(2) in auto)
  then show ?case using m1 by (auto simp: fun_eq_iff)
qed

text \<open>NULL pointers among the released ones do nothing.\<close>

lemma release_nulls: "release_all release as m = release_all release (filter (\<lambda>a. a \<noteq> 0) as) m"
proof (induction as arbitrary: m)
  case (Cons a as)
  then show ?case by (cases "release a m"; cases "a = 0") (simp_all add: release_null)
qed simp

text \<open>A block that is released twice is undefined behaviour.\<close>

lemma release_repeated:
  assumes "ok m" "distinct as" "\<forall>a \<in> set as. peek m a \<noteq> None" "b \<in> set as" "b \<noteq> 0"
  shows "release_all release (as @ b # bs) m = Inl Undef"
proof -
  obtain m' where "release_all release as m = Inr m'" "peek m' b = None"
    using release_blocks[OF assms(1-3)] assms(4) by auto
  then show ?thesis by (simp add: release_all_append release_twice[OF assms(5)])
qed

end

interpretation c_heap: allocator heap_ok cells malloc free
proof unfold_locales
  fix m m' :: "'c mem" and c a
  assume "heap_ok m" "malloc c m = (a, m')"
  then show "a \<noteq> 0 \<and> cells m a = None \<and> cells m' = (cells m)(a := Some c) \<and> heap_ok m'"
    by (auto simp: malloc_def heap_ok_def)
next
  fix m :: "'c mem" and a
  assume "heap_ok m" "cells m a \<noteq> None"
  then show "\<exists>m'. free a m = Inr m' \<and> cells m' = (cells m)(a := None) \<and> heap_ok m'"
    using heap_ok_fresh[of m a] heap_ok_update[of m a _ None] by (auto simp: free_def)
qed (simp_all add: free_def)

section \<open>Accounting\<close>

text \<open>
  The heap \<open>c0\<close> from before a structure was made, the blocks the structure owns, and blocks that
  nothing points to any more: the rest is as in \<open>c0\<close>, and none of these was allocated there.
\<close>

definition accounts :: "(nat \<Rightarrow> 'c option) \<Rightarrow> (nat \<Rightarrow> 'c option) \<Rightarrow> nat list \<Rightarrow> nat list \<Rightarrow> bool" where
  "accounts c0 c owned lost \<longleftrightarrow> distinct (owned @ lost) \<and> (\<forall>a \<in> set (owned @ lost). c a \<noteq> None \<and> c0 a = None) \<and>
     (\<forall>a. a \<notin> set (owned @ lost) \<longrightarrow> c a = c0 a)"

lemma accounts_start [simp]: "accounts c c [] []"
  by (simp add: accounts_def)

lemma accounts_allocated: "accounts c0 c owned lost \<Longrightarrow> a \<in> set owned \<Longrightarrow> c a \<noteq> None"
  unfolding accounts_def by (metis UnCI set_append)

lemma accounts_distinct: "accounts c0 c owned lost \<Longrightarrow> distinct owned"
  by (simp add: accounts_def)

lemma accounts_fresh:
  assumes "accounts c0 c owned lost" "c a = None"
  shows "a \<notin> set owned" "a \<notin> set lost" "c0 a = None"
proof -
  have "\<forall>b \<in> set (owned @ lost). c b \<noteq> None" using assms(1) unfolding accounts_def by blast
  then have "a \<notin> set (owned @ lost)" using assms(2) by metis
  then show n: "a \<notin> set owned" "a \<notin> set lost" by simp_all
  have "a \<notin> set (owned @ lost) \<longrightarrow> c a = c0 a" using assms(1) unfolding accounts_def by blast
  then show "c0 a = None" using n assms(2) by simp
qed

lemma accounts_new:
  assumes "accounts c0 c owned lost" "c a = None"
  shows "accounts c0 (c(a := Some x)) (a # owned) lost"
proof -
  note f = accounts_fresh[OF assms]
  have s: "set ((a # owned) @ lost) = insert a (set (owned @ lost))" by simp
  have "distinct ((a # owned) @ lost)" using assms(1) f by (simp add: accounts_def)
  moreover have "\<forall>b \<in> set ((a # owned) @ lost). (c(a := Some x)) b \<noteq> None \<and> c0 b = None"
    using assms(1) f(3) unfolding s accounts_def by (metis fun_upd_apply insert_iff option.distinct(1))
  moreover have "\<forall>b. b \<notin> set ((a # owned) @ lost) \<longrightarrow> (c(a := Some x)) b = c0 b"
    using assms(1) unfolding s accounts_def by (metis fun_upd_apply insert_iff)
  ultimately show ?thesis unfolding accounts_def by blast
qed

lemma accounts_lose: "accounts c0 c (a # owned) lost \<Longrightarrow> accounts c0 c owned (a # lost)"
  by (auto simp: accounts_def)

text \<open>Changes inside the structure that keep its blocks.\<close>

lemma accounts_change:
  assumes "accounts c0 c owned lost" "set owned' = set owned" "distinct owned'"
    "\<And>a. a \<in> set owned \<Longrightarrow> c' a \<noteq> None" "\<And>a. a \<notin> set owned \<Longrightarrow> c' a = c a"
  shows "accounts c0 c' owned' lost"
proof -
  have "set owned \<inter> set lost = {}" using assms(1) by (simp add: accounts_def)
  then show ?thesis using assms unfolding accounts_def set_append distinct_append by (metis UnE UnI1 UnI2 disjoint_iff)
qed

lemma accounts_store:
  assumes "accounts c0 c owned lost" "a \<in> set owned"
  shows "accounts c0 (c(a := Some x)) owned lost"
  using assms(2) accounts_allocated[OF assms(1)]
  by (intro accounts_change[OF assms(1) refl accounts_distinct[OF assms(1)]]) auto

lemma accounts_perm:
  assumes "accounts c0 c owned lost" "set owned' = set owned" "distinct owned'"
  shows "accounts c0 c owned' lost"
  using accounts_allocated[OF assms(1)] by (intro accounts_change[OF assms]) auto

text \<open>The structure is released: what is left is what was there before, and what was lost.\<close>

lemma accounts_release:
  assumes "accounts c0 (cells m) owned lost" "heap_ok m"
  shows "\<exists>m'. release_all free owned m = Inr m' \<and> heap_ok m' \<and> (\<forall>a. c0 a \<noteq> None \<longrightarrow> cells m' a = c0 a) \<and>
    card {a. c0 a = None \<and> cells m' a \<noteq> None} = length lost"
proof -
  obtain m' where m': "release_all free owned m = Inr m'" "heap_ok m'" "cells m' = (\<lambda>x. if x \<in> set owned then None else cells m x)"
    using c_heap.release_blocks[OF assms(2) accounts_distinct[OF assms(1)]] accounts_allocated[OF assms(1)] by blast
  have c: "cells m' = (\<lambda>a. if a \<in> set lost then cells m a else c0 a)"
    using assms(1) unfolding m'(3) accounts_def by (auto simp: fun_eq_iff)
  have l: "\<forall>a \<in> set lost. cells m a \<noteq> None \<and> c0 a = None" "distinct lost" using assms(1) by (auto simp: accounts_def)
  then have "{a. c0 a = None \<and> cells m' a \<noteq> None} = set lost" by (auto simp: c)
  moreover have "\<forall>a. c0 a \<noteq> None \<longrightarrow> cells m' a = c0 a" using l(1) by (auto simp: c)
  ultimately show ?thesis using m' distinct_card[OF l(2)] by auto
qed

end
