(* ===== verification/Tgmd_Memory.thy ===== *)
theory Tgmd_Memory
  imports Tgmd C_Heap
begin

text \<open>
  The memory of \<open>process_uevent_message\<close> in \<open>tgmd/tgmd.c\<close>: the \<open>struct uevent\<close> and the strings
  it points to as blocks of the heap, from \<open>malloc\<close> and \<open>strdup\<close> to \<open>free_uevent\<close>. It does what
  the functions of Tgmd do on strings, and releases what it allocated.
\<close>

section \<open>Blocks\<close>

text \<open>
  A \<open>struct uevent\<close> with its pointers \<open>path\<close>, \<open>subsystem\<close> and those of \<open>param\<close> up to the first
  NULL, its action and its number; and a string.
\<close>

datatype uevent_cell = UeventBlock nat uevent_action nat "nat list" int | UString string

type_synonym uevent_mem = "uevent_cell mem"

definition load_uevent :: "nat \<Rightarrow> uevent_mem \<Rightarrow> (nat \<times> uevent_action \<times> nat \<times> nat list \<times> int) outcome" where
  "load_uevent e m = seqO (read_block e m) (\<lambda>c. case c of UeventBlock p a s ps n \<Rightarrow> Inr (p, a, s, ps, n) | UString _ \<Rightarrow> Inl Undef)"

definition load_ustring :: "nat \<Rightarrow> uevent_mem \<Rightarrow> string outcome" where
  "load_ustring a m = seqO (read_block a m) (\<lambda>c. case c of UString s \<Rightarrow> Inr s | _ \<Rightarrow> Inl Undef)"

section \<open>The functions\<close>

definition read_header_mem :: "string \<Rightarrow> nat \<Rightarrow> nat \<Rightarrow> uevent_mem \<Rightarrow> uevent_mem outcome" where
  "read_header_mem buf s e m =
     (let p = s + length (takeWhile (\<lambda>c. c \<noteq> CHR ''@'') (drop s buf)) in
      if p < length buf then seqO (c_string buf (p + 1)) (\<lambda>q.
        case malloc (UString q) m of (b, m1) \<Rightarrow>
        seqO (load_uevent e m1) (\<lambda>(path, a, sub, ps, n). write_block e (UeventBlock b a sub ps n) m1))
      else Inl Undef)"

definition read_field_mem :: "string \<Rightarrow> nat \<Rightarrow> uevent_mem \<Rightarrow> uevent_mem outcome" where
  "read_field_mem s e m = seqO (load_uevent e m) (\<lambda>(path, act, sub, ps, n).
     if prefix ''ACTION='' s then
       (let a = drop (length ''ACTION='') s in
        write_block e (UeventBlock path (if a = ''add'' then action_add else if a = ''change'' then action_change
          else if a = ''remove'' then action_remove else act) sub ps n) m)
     else if prefix ''SEQNUM='' s then
       write_block e (UeventBlock path act sub ps (atoi_unsigned (drop (length ''SEQNUM='') s))) m
     else if prefix ''SUBSYSTEM='' s then
       (case malloc (UString (drop (length ''SUBSYSTEM='') s)) m of (b, m1) \<Rightarrow> write_block e (UeventBlock path act b ps n) m1)
     else if length ps < UEVENT_PARAMS_MAX then
       (case malloc (UString s) m of (b, m1) \<Rightarrow> write_block e (UeventBlock path act sub (ps @ [b]) n) m1)
     else Inl Undef)"

function read_strings_mem :: "string \<Rightarrow> nat \<Rightarrow> nat \<Rightarrow> bool \<Rightarrow> nat \<Rightarrow> uevent_mem \<Rightarrow> uevent_mem outcome" where
  "read_strings_mem buf e s first ev m =
     (if s < e then
        (case c_string buf s of Inl x \<Rightarrow> Inl x
         | Inr str \<Rightarrow>
             (case (if first then read_header_mem buf s ev m else read_field_mem str ev m) of Inl x \<Rightarrow> Inl x
              | Inr m' \<Rightarrow> read_strings_mem buf e (s + length str + 1) False ev m'))
      else Inr m)"
  by auto
termination by (relation "measure (\<lambda>(buf, e, s, first, ev, m). e - s)") auto

declare read_strings_mem.simps [simp del]

definition free_uevent :: "nat \<Rightarrow> uevent_mem \<Rightarrow> uevent_mem outcome" where
  "free_uevent e m = seqO (load_uevent e m) (\<lambda>(path, _, sub, ps, _).
     seqO (free path m) (\<lambda>m1. seqO (free sub m1) (\<lambda>m2. seqO (release_all free ps m2) (free e))))"

text \<open>What \<open>check_uevent\<close> sees through the pointers.\<close>

definition load_optional :: "nat \<Rightarrow> uevent_mem \<Rightarrow> string option outcome" where
  "load_optional a m = (if a = 0 then Inr None else seqO (load_ustring a m) (\<lambda>s. Inr (Some s)))"

fun load_params :: "nat list \<Rightarrow> uevent_mem \<Rightarrow> string list outcome" where
  "load_params [] m = Inr []"
| "load_params (a # as) m = seqO (load_ustring a m) (\<lambda>s. seqO (load_params as m) (\<lambda>ss. Inr (s # ss)))"

definition uevent_at :: "nat \<Rightarrow> uevent_mem \<Rightarrow> uevent outcome" where
  "uevent_at e m = seqO (load_uevent e m) (\<lambda>(path, act, sub, ps, n).
     seqO (load_optional path m) (\<lambda>p. seqO (load_optional sub m) (\<lambda>s. seqO (load_params ps m) (\<lambda>ss.
       Inr \<lparr>ue_path = p, ue_action = act, ue_subsystem = s, ue_param = ss, ue_seqnum = n\<rparr>))))"

definition process_uevent_message_mem :: "recv_result \<Rightarrow> bool \<Rightarrow> fork_result \<Rightarrow> tgmd \<Rightarrow> uevent_mem \<Rightarrow> (int \<times> tgmd \<times> uevent_mem) outcome" where
  "process_uevent_message_mem r allocated f d m = (case r of
       RecvError err \<Rightarrow> Inr (- int err, d, m)
     | Received buf count \<Rightarrow>
         if \<not> allocated then Inr (-12, d, m)
         else (case malloc (UeventBlock 0 action_add 0 [] 0) m of (e, m1) \<Rightarrow>
           seqO (read_strings_mem buf count 0 True e m1) (\<lambda>m2.
           seqO (uevent_at e m2) (\<lambda>ev.
           seqO (check_uevent f ev d) (\<lambda>d'.
           seqO (free_uevent e m2) (\<lambda>m3. Inr (0, d', m3)))))))"

section \<open>Refinement\<close>

definition opt_string_at :: "(nat \<Rightarrow> uevent_cell option) \<Rightarrow> nat \<Rightarrow> string option \<Rightarrow> bool" where
  "opt_string_at c a s \<longleftrightarrow> (case s of None \<Rightarrow> a = 0 | Some t \<Rightarrow> a \<noteq> 0 \<and> c a = Some (UString t))"

definition own_uevent :: "nat \<Rightarrow> nat \<Rightarrow> nat \<Rightarrow> nat list \<Rightarrow> nat list" where
  "own_uevent e p s ps = filter (\<lambda>a. a \<noteq> 0) [p, s] @ ps @ [e]"

definition holds_uevent :: "(nat \<Rightarrow> uevent_cell option) \<Rightarrow> uevent_mem \<Rightarrow> nat \<Rightarrow> uevent \<Rightarrow> nat list \<Rightarrow> bool" where
  "holds_uevent c0 m e ev lost \<longleftrightarrow> heap_ok m \<and> (\<exists>p s ps. cells m e = Some (UeventBlock p (ue_action ev) s ps (ue_seqnum ev)) \<and>
     opt_string_at (cells m) p (ue_path ev) \<and> opt_string_at (cells m) s (ue_subsystem ev) \<and>
     map (cells m) ps = map (\<lambda>t. Some (UString t)) (ue_param ev) \<and> accounts c0 (cells m) (own_uevent e p s ps) lost)"

lemma load_uevent_at: "cells m e = Some (UeventBlock p a s ps n) \<Longrightarrow> load_uevent e m = Inr (p, a, s, ps, n)"
  by (simp add: load_uevent_def)

text \<open>A new string for one of the pointers of the event: the old one, if any, is lost.\<close>

lemma replace_string:
  assumes h: "heap_ok m" and e: "cells m e = Some c" and acc: "accounts c0 (cells m) (own_uevent e p s ps) lost"
  shows "\<exists>b m1. malloc (UString t) m = (b, m1) \<and> heap_ok m1 \<and> b \<noteq> 0 \<and> cells m b = None \<and> b \<noteq> e \<and>
    cells m1 = (cells m)(b := Some (UString t)) \<and> accounts c0 (cells m1) (b # own_uevent e p s ps) lost"
proof -
  obtain b m1 where b: "malloc (UString t) m = (b, m1)" by (metis surj_pair)
  have n: "b \<noteq> 0" "cells m b = None" "cells m1 = (cells m)(b := Some (UString t))" "heap_ok m1"
    using c_heap.alloc_fresh[OF h b] by simp_all
  moreover have "b \<noteq> e" using e n(2) by auto
  moreover have "accounts c0 (cells m1) (b # own_uevent e p s ps) lost" unfolding n(3) by (rule accounts_new[OF acc n(2)])
  ultimately show ?thesis using b by blast
qed

lemma opt_string_at_upd [simp]: "a \<noteq> b \<Longrightarrow> opt_string_at (c(b := v)) a s = opt_string_at c a s"
  by (simp add: opt_string_at_def split: option.split)

lemma opt_string_at_new [simp]: "a \<noteq> 0 \<Longrightarrow> opt_string_at (c(a := Some (UString s))) a (Some s)"
  by (simp add: opt_string_at_def)

lemma params_upd [simp]: "b \<notin> set ps \<Longrightarrow> map (c(b := v)) ps = map c ps"
  by (induction ps) auto

lemma holds_ueventI:
  assumes "heap_ok m" "cells m e = Some (UeventBlock p (ue_action ev) s ps (ue_seqnum ev))"
    "opt_string_at (cells m) p (ue_path ev)" "opt_string_at (cells m) s (ue_subsystem ev)"
    "map (cells m) ps = map (\<lambda>t. Some (UString t)) (ue_param ev)" "accounts c0 (cells m) (own_uevent e p s ps) lost"
  shows "holds_uevent c0 m e ev lost"
  using assms unfolding holds_uevent_def by blast

lemma holds_ueventE:
  assumes "holds_uevent c0 m e ev lost"
  obtains p s ps where "heap_ok m" "cells m e = Some (UeventBlock p (ue_action ev) s ps (ue_seqnum ev))"
    "opt_string_at (cells m) p (ue_path ev)" "opt_string_at (cells m) s (ue_subsystem ev)"
    "map (cells m) ps = map (\<lambda>t. Some (UString t)) (ue_param ev)" "accounts c0 (cells m) (own_uevent e p s ps) lost"
    "p \<noteq> e" "s \<noteq> e" "e \<notin> set ps" "e \<in> set (own_uevent e p s ps)" "length ps = length (ue_param ev)"
    "load_uevent e m = Inr (p, ue_action ev, s, ps, ue_seqnum ev)" "s \<noteq> 0 \<longleftrightarrow> ue_subsystem ev \<noteq> None" "p \<noteq> 0 \<longleftrightarrow> ue_path ev \<noteq> None"
proof -
  obtain p s ps where h: "heap_ok m" "cells m e = Some (UeventBlock p (ue_action ev) s ps (ue_seqnum ev))"
    "opt_string_at (cells m) p (ue_path ev)" "opt_string_at (cells m) s (ue_subsystem ev)"
    "map (cells m) ps = map (\<lambda>t. Some (UString t)) (ue_param ev)" "accounts c0 (cells m) (own_uevent e p s ps) lost"
    using assms unfolding holds_uevent_def by blast
  have "p \<noteq> e" "s \<noteq> e" "e \<notin> set ps" "e \<in> set (own_uevent e p s ps)"
    using accounts_distinct[OF h(6)] heap_ok_fresh[OF h(1,2)] by (auto simp: own_uevent_def split: if_splits)
  moreover have "length ps = length (ue_param ev)" using arg_cong[OF h(5), of length] by simp
  moreover have "s \<noteq> 0 \<longleftrightarrow> ue_subsystem ev \<noteq> None" "p \<noteq> 0 \<longleftrightarrow> ue_path ev \<noteq> None"
    using h(3,4) by (auto simp: opt_string_at_def split: option.splits)
  ultimately show ?thesis using that[OF h] load_uevent_at[OF h(2)] by blast
qed

lemma numbers_refined:
  assumes "holds_uevent c0 m e ev lost" "prefix ''ACTION='' t \<or> prefix ''SEQNUM='' t"
  shows "\<exists>ev' m'. read_field t ev = Inr ev' \<and> ue_subsystem ev' = ue_subsystem ev \<and> ue_path ev' = ue_path ev \<and>
    read_field_mem t e m = Inr m' \<and> holds_uevent c0 m' e ev' lost"
proof -
  obtain p s ps where h: "heap_ok m" "cells m e = Some (UeventBlock p (ue_action ev) s ps (ue_seqnum ev))"
    "opt_string_at (cells m) p (ue_path ev)" "opt_string_at (cells m) s (ue_subsystem ev)"
    "map (cells m) ps = map (\<lambda>t. Some (UString t)) (ue_param ev)" "accounts c0 (cells m) (own_uevent e p s ps) lost"
    "p \<noteq> e" "s \<noteq> e" "e \<notin> set ps" "e \<in> set (own_uevent e p s ps)" "load_uevent e m = Inr (p, ue_action ev, s, ps, ue_seqnum ev)"
    using assms(1) by (rule holds_ueventE)
  have step: "\<exists>m'. write_block e (UeventBlock p a s ps n) m = Inr m' \<and> holds_uevent c0 m' e (ev\<lparr>ue_action := a, ue_seqnum := n\<rparr>) lost" for a n
  proof -
    define m' where "m' = m\<lparr>cells := (cells m)(e := Some (UeventBlock p a s ps n))\<rparr>"
    have "holds_uevent c0 m' e (ev\<lparr>ue_action := a, ue_seqnum := n\<rparr>) lost"
      by (rule holds_ueventI[where p = p and s = s and ps = ps])
        (use heap_ok_update[OF h(1,2)] h(3-5,7-10) accounts_store[OF h(6,10)] in \<open>simp_all add: m'_def\<close>)
    then show ?thesis using write_block_Some[OF h(2)] by (simp add: m'_def)
  qed
  let ?ev = "with_fields [t] ev"
  have "read_field t ev = Inr (ev\<lparr>ue_action := ue_action ?ev, ue_seqnum := ue_seqnum ?ev\<rparr>)"
    using assms(2) keys_differ[of t]
    by (auto simp: read_field_def with_fields_def actions_of_def values_of_def others_def keys_def last_or_def List.map_filter_def Let_def)
  moreover have "read_field_mem t e m = write_block e (UeventBlock p (ue_action ?ev) s ps (ue_seqnum ?ev)) m"
    using assms(2) keys_differ[of t]
    by (auto simp: read_field_mem_def h(11) with_fields_def actions_of_def values_of_def last_or_def List.map_filter_def Let_def)
  ultimately show ?thesis using step[of "ue_action ?ev" "ue_seqnum ?ev"] by fastforce
qed

lemma subsystem_refined:
  assumes "holds_uevent c0 m e ev lost" "prefix ''SUBSYSTEM='' t"
  shows "\<exists>m' lost'. read_field t ev = Inr (ev\<lparr>ue_subsystem := Some (drop (length ''SUBSYSTEM='') t)\<rparr>) \<and> read_field_mem t e m = Inr m' \<and>
    holds_uevent c0 m' e (ev\<lparr>ue_subsystem := Some (drop (length ''SUBSYSTEM='') t)\<rparr>) lost' \<and>
    length lost' = length lost + (if ue_subsystem ev \<noteq> None then 1 else 0)"
proof -
  let ?v = "drop (length ''SUBSYSTEM='') t"
  have k: "\<not> prefix ''ACTION='' t" "\<not> prefix ''SEQNUM='' t" using keys_differ assms(2) by blast+
  obtain p s ps where h: "heap_ok m" "cells m e = Some (UeventBlock p (ue_action ev) s ps (ue_seqnum ev))"
    "opt_string_at (cells m) p (ue_path ev)" "map (cells m) ps = map (\<lambda>t. Some (UString t)) (ue_param ev)"
    "accounts c0 (cells m) (own_uevent e p s ps) lost" "p \<noteq> e" "e \<notin> set ps" "e \<in> set (own_uevent e p s ps)"
    "load_uevent e m = Inr (p, ue_action ev, s, ps, ue_seqnum ev)" "s \<noteq> 0 \<longleftrightarrow> ue_subsystem ev \<noteq> None"
    using assms(1) by (rule holds_ueventE)
  obtain b m1 where b: "malloc (UString ?v) m = (b, m1)" "heap_ok m1" "b \<noteq> 0" "cells m b = None" "b \<noteq> e"
    "cells m1 = (cells m)(b := Some (UString ?v))" "accounts c0 (cells m1) (b # own_uevent e p s ps) lost"
    using replace_string[OF h(1,2,5)] by blast
  note d = accounts_distinct[OF b(7)]
  have e1: "cells m1 e = Some (UeventBlock p (ue_action ev) s ps (ue_seqnum ev))" using h(2) b(5,6) by simp
  define m' where "m' = m1\<lparr>cells := (cells m1)(e := Some (UeventBlock p (ue_action ev) b ps (ue_seqnum ev)))\<rparr>"
  have "accounts c0 (cells m') (b # own_uevent e p s ps) lost"
    using accounts_store[OF b(7)] h(8) by (simp add: m'_def del: fun_upd_apply)
  then have "accounts c0 (cells m') ((if s = 0 then [] else [s]) @ own_uevent e p b ps) lost"
    by (rule accounts_perm) (use d b(3) in \<open>auto simp: own_uevent_def split: if_splits\<close>)
  then have acc: "accounts c0 (cells m') (own_uevent e p b ps) (if s = 0 then lost else s # lost)"
    by (auto intro: accounts_lose split: if_splits)
  have nb: "b \<noteq> p" "b \<notin> set ps" using d b(3) by (auto simp: own_uevent_def split: if_splits)
  have "holds_uevent c0 m' e (ev\<lparr>ue_subsystem := Some ?v\<rparr>) (if s = 0 then lost else s # lost)"
    by (rule holds_ueventI[where p = p and s = b and ps = ps])
      (use heap_ok_update[OF b(2) e1] h(3,4,6,7) b(3,5,6) nb acc in \<open>simp_all add: m'_def\<close>)
  moreover have "read_field_mem t e m = Inr m'"
    using assms(2) k b(1) by (simp add: read_field_mem_def h(9) write_block_Some[OF e1] m'_def)
  ultimately show ?thesis using assms(2) k h(10) by (auto simp: read_field_def)
qed

lemma param_refined:
  assumes "holds_uevent c0 m e ev lost" "\<not> prefix ''ACTION='' t" "\<not> prefix ''SEQNUM='' t" "\<not> prefix ''SUBSYSTEM='' t"
  shows "if length (ue_param ev) < UEVENT_PARAMS_MAX
    then read_field t ev = Inr (ev\<lparr>ue_param := ue_param ev @ [t]\<rparr>) \<and> (\<exists>m'. read_field_mem t e m = Inr m' \<and>
      holds_uevent c0 m' e (ev\<lparr>ue_param := ue_param ev @ [t]\<rparr>) lost)
    else read_field t ev = Inl Undef \<and> read_field_mem t e m = Inl Undef"
proof -
  obtain p s ps where h: "heap_ok m" "cells m e = Some (UeventBlock p (ue_action ev) s ps (ue_seqnum ev))"
    "opt_string_at (cells m) p (ue_path ev)" "opt_string_at (cells m) s (ue_subsystem ev)"
    "map (cells m) ps = map (\<lambda>t. Some (UString t)) (ue_param ev)" "accounts c0 (cells m) (own_uevent e p s ps) lost"
    "p \<noteq> e" "s \<noteq> e" "e \<notin> set ps" "e \<in> set (own_uevent e p s ps)" "length ps = length (ue_param ev)"
    "load_uevent e m = Inr (p, ue_action ev, s, ps, ue_seqnum ev)"
    using assms(1) by (rule holds_ueventE)
  obtain b m1 where b: "malloc (UString t) m = (b, m1)" "heap_ok m1" "b \<noteq> 0" "cells m b = None" "b \<noteq> e"
    "cells m1 = (cells m)(b := Some (UString t))" "accounts c0 (cells m1) (b # own_uevent e p s ps) lost"
    using replace_string[OF h(1,2,6)] by blast
  note d = accounts_distinct[OF b(7)]
  have e1: "cells m1 e = Some (UeventBlock p (ue_action ev) s ps (ue_seqnum ev))" using h(2) b(5,6) by simp
  define m' where "m' = m1\<lparr>cells := (cells m1)(e := Some (UeventBlock p (ue_action ev) s (ps @ [b]) (ue_seqnum ev)))\<rparr>"
  have "accounts c0 (cells m') (b # own_uevent e p s ps) lost"
    using accounts_store[OF b(7)] h(10) by (simp add: m'_def del: fun_upd_apply)
  then have acc: "accounts c0 (cells m') (own_uevent e p s (ps @ [b])) lost"
    by (rule accounts_perm) (use d b(3) in \<open>auto simp: own_uevent_def split: if_splits\<close>)
  have "b \<noteq> p" "b \<noteq> s" "b \<notin> set ps" using d b(3) by (auto simp: own_uevent_def split: if_splits)
  then have "holds_uevent c0 m' e (ev\<lparr>ue_param := ue_param ev @ [t]\<rparr>) lost"
    by (intro holds_ueventI[where p = p and s = s and ps = "ps @ [b]"])
      (use heap_ok_update[OF b(2) e1] h(3-5,7-9) b(5,6) acc in \<open>simp_all add: m'_def\<close>)
  moreover have "read_field_mem t e m = (if length (ue_param ev) < UEVENT_PARAMS_MAX then Inr m' else Inl Undef)"
    using assms(2-4) h(11) b(1) by (simp add: read_field_mem_def h(12) write_block_Some[OF e1] m'_def)
  ultimately show ?thesis using assms(2-4) by (auto simp: read_field_def)
qed

section \<open>A whole message\<close>

fun read_fields_mem :: "string list \<Rightarrow> nat \<Rightarrow> uevent_mem \<Rightarrow> uevent_mem outcome" where
  "read_fields_mem [] e m = Inr m"
| "read_fields_mem (f # fs) e m = seqO (read_field_mem f e m) (read_fields_mem fs e)"

text \<open>The loop over the array is the loop over the strings, whatever lies behind the message.\<close>

lemma fields_read_mem:
  assumes "\<forall>f \<in> set fs. no_nul f"
  shows "read_strings_mem (pre @ message fs @ junk) (length pre + length (message fs)) (length pre) False e m = read_fields_mem fs e m"
  using assms
proof (induction fs arbitrary: pre m)
  case Nil
  show ?case by (simp add: read_strings_mem.simps)
next
  case (Cons f fs)
  have c: "c_string (pre @ message (f # fs) @ junk) (length pre) = Inr f" using c_string_at[of f pre] Cons.prems by simp
  have next': "read_strings_mem ((pre @ f @ [NUL]) @ message fs @ junk) (length (pre @ f @ [NUL]) + length (message fs)) (length (pre @ f @ [NUL])) False e m'
      = read_fields_mem fs e m'" for m' by (rule Cons.IH) (use Cons.prems in simp)
  show ?case
    using next' by (subst read_strings_mem.simps) (simp add: c[simplified] seqO_def add_ac split: sum.split)
qed

lemma fields_refined:
  assumes "holds_uevent c0 m e ev lost"
  shows "case read_fields fs ev of Inl x \<Rightarrow> read_fields_mem fs e m = Inl x
    | Inr ev' \<Rightarrow> \<exists>m' lost'. read_fields_mem fs e m = Inr m' \<and> holds_uevent c0 m' e ev' lost' \<and>
        length lost' = length lost + (length (values_of ''SUBSYSTEM='' fs) - (if ue_subsystem ev = None then 1 else 0))"
  using assms
proof (induction fs arbitrary: m ev lost)
  case Nil
  then show ?case by (auto simp: values_of_def)
next
  case (Cons f fs)
  consider "prefix ''ACTION='' f \<or> prefix ''SEQNUM='' f" | "prefix ''SUBSYSTEM='' f"
    | "\<not> prefix ''ACTION='' f" "\<not> prefix ''SEQNUM='' f" "\<not> prefix ''SUBSYSTEM='' f" by blast
  then show ?case
  proof cases
    case 1
    then have v: "values_of ''SUBSYSTEM='' (f # fs) = values_of ''SUBSYSTEM='' fs" using keys_differ[of f] by (auto simp: values_of_def)
    obtain ev' m' where s: "read_field f ev = Inr ev'" "ue_subsystem ev' = ue_subsystem ev" "read_field_mem f e m = Inr m'" "holds_uevent c0 m' e ev' lost"
      using numbers_refined[OF Cons.prems 1] by blast
    have u: "read_fields (f # fs) ev = read_fields fs ev'" "read_fields_mem (f # fs) e m = read_fields_mem fs e m'" by (simp_all add: s)
    show ?thesis using Cons.IH[OF s(4)] unfolding u v s(2) .
  next
    case 2
    then have v: "length (values_of ''SUBSYSTEM='' (f # fs)) = Suc (length (values_of ''SUBSYSTEM='' fs))" by (simp add: values_of_def)
    obtain m' lost' where s: "read_field f ev = Inr (ev\<lparr>ue_subsystem := Some (drop (length ''SUBSYSTEM='') f)\<rparr>)" "read_field_mem f e m = Inr m'"
      "holds_uevent c0 m' e (ev\<lparr>ue_subsystem := Some (drop (length ''SUBSYSTEM='') f)\<rparr>) lost'"
      "length lost' = length lost + (if ue_subsystem ev \<noteq> None then 1 else 0)"
      using subsystem_refined[OF Cons.prems 2] by blast
    let ?ev' = "ev\<lparr>ue_subsystem := Some (drop (length ''SUBSYSTEM='') f)\<rparr>"
    have u: "read_fields (f # fs) ev = read_fields fs ?ev'" "read_fields_mem (f # fs) e m = read_fields_mem fs e m'"
      by (simp_all only: read_fields.simps read_fields_mem.simps s seqO_Inr)
    show ?thesis using Cons.IH[OF s(3)] s(4) unfolding u v by (cases "read_fields fs ?ev'") auto
  next
    case 3
    then have v: "values_of ''SUBSYSTEM='' (f # fs) = values_of ''SUBSYSTEM='' fs" by (simp add: values_of_def)
    show ?thesis
    proof (cases "length (ue_param ev) < UEVENT_PARAMS_MAX")
      case True
      then obtain m' where s: "read_field f ev = Inr (ev\<lparr>ue_param := ue_param ev @ [f]\<rparr>)" "read_field_mem f e m = Inr m'"
        "holds_uevent c0 m' e (ev\<lparr>ue_param := ue_param ev @ [f]\<rparr>) lost"
        using param_refined[OF Cons.prems 3] by auto
      let ?ev' = "ev\<lparr>ue_param := ue_param ev @ [f]\<rparr>"
      have u: "read_fields (f # fs) ev = read_fields fs ?ev'" "read_fields_mem (f # fs) e m = read_fields_mem fs e m'"
        by (simp_all add: s)
      show ?thesis using Cons.IH[OF s(3)] unfolding u v by (cases "read_fields fs ?ev'") auto
    next
      case False
      then show ?thesis using param_refined[OF Cons.prems 3] by simp
    qed
  qed
qed

text \<open>Reading through the pointers, and releasing the blocks.\<close>

lemma params_read: "map (cells m) ps = map (\<lambda>t. Some (UString t)) ts \<Longrightarrow> load_params ps m = Inr ts"
proof (induction ps arbitrary: ts)
  case (Cons a ps)
  then obtain t ts' where "ts = t # ts'" by (cases ts) auto
  then show ?case using Cons by (simp add: load_ustring_def)
qed simp

lemma uevent_read:
  assumes "holds_uevent c0 m e ev lost"
  shows "uevent_at e m = Inr ev"
proof -
  obtain p s ps where h: "opt_string_at (cells m) p (ue_path ev)" "opt_string_at (cells m) s (ue_subsystem ev)"
    "map (cells m) ps = map (\<lambda>t. Some (UString t)) (ue_param ev)" "load_uevent e m = Inr (p, ue_action ev, s, ps, ue_seqnum ev)"
    using assms by (rule holds_ueventE)
  have "load_optional p m = Inr (ue_path ev)" "load_optional s m = Inr (ue_subsystem ev)"
    using h(1,2) by (auto simp: load_optional_def opt_string_at_def load_ustring_def split: option.splits)
  then show ?thesis by (simp add: uevent_at_def h(4) params_read[OF h(3)])
qed

lemma uevent_released:
  assumes "holds_uevent c0 m e ev lost"
  shows "\<exists>m'. free_uevent e m = Inr m' \<and> (\<forall>a. c0 a \<noteq> None \<longrightarrow> cells m' a = c0 a) \<and> card {a. c0 a = None \<and> cells m' a \<noteq> None} = length lost"
proof -
  obtain p s ps where h: "heap_ok m" "accounts c0 (cells m) (own_uevent e p s ps) lost" "load_uevent e m = Inr (p, ue_action ev, s, ps, ue_seqnum ev)"
    "cells m e = Some (UeventBlock p (ue_action ev) s ps (ue_seqnum ev))"
    using assms by (rule holds_ueventE)
  have "0 \<notin> set (own_uevent e p s ps)"
    using accounts_allocated[OF h(2), of 0] h(1) by (auto simp: heap_ok_def)
  then have nz: "0 \<notin> set ps" "e \<noteq> 0" by (auto simp: own_uevent_def)
  have "filter (\<lambda>a. a \<noteq> 0) ps = ps" by (rule filter_True) (use nz(1) in metis)
  then have nulls: "filter (\<lambda>a. a \<noteq> 0) ([p, s] @ ps @ [e]) = own_uevent e p s ps"
    using nz(2) by (simp add: own_uevent_def)
  have "free_uevent e m = release_all free ([p, s] @ ps @ [e]) m"
    by (simp add: free_uevent_def h(3) seqO_def release_all_append split: sum.split)
  also have "\<dots> = release_all free (own_uevent e p s ps) m"
    unfolding nulls[symmetric] by (rule c_heap.release_nulls)
  finally have run: "free_uevent e m = release_all free (own_uevent e p s ps) m" .
  show ?thesis unfolding run using accounts_release[OF h(2,1)] by blast
qed

lemma message_read_mem:
  assumes "\<forall>f \<in> set (hdr # fs). no_nul f" "CHR ''@'' \<in> set hdr" "malloc (UeventBlock 0 action_add 0 [] 0) m = (e, m1)" "heap_ok m"
  shows "\<exists>m2. read_strings_mem (message (hdr # fs) @ junk) (length (message (hdr # fs))) 0 True e m1 = read_fields_mem fs e m2 \<and>
    holds_uevent (cells m) m2 e (zero_event\<lparr>ue_path := Some (tl (dropWhile (\<lambda>c. c \<noteq> CHR ''@'') hdr))\<rparr>) []"
proof -
  obtain a q where h: "hdr = a @ CHR ''@'' # q" "CHR ''@'' \<notin> set a" using split_list_first[OF assms(2)] by blast
  have nn: "no_nul hdr" "no_nul q" using assms(1) h(1) by (simp_all add: no_nul_def)
  have c: "c_string (message (hdr # fs) @ junk) 0 = Inr hdr" using c_string_at[OF nn(1), of "[]"] by simp
  have q: "c_string ((a @ [CHR ''@'']) @ q @ NUL # message fs @ junk) (length (a @ [CHR ''@''])) = Inr q" by (rule c_string_at[OF nn(2)])
  have e: "e \<noteq> 0" "cells m e = None" "cells m1 = (cells m)(e := Some (UeventBlock 0 action_add 0 [] 0))" "heap_ok m1"
    using c_heap.alloc_fresh[OF assms(4,3)] by simp_all
  have e1: "cells m1 e = Some (UeventBlock 0 action_add 0 [] 0)" by (simp add: e(3))
  have "accounts (cells m) (cells m1) (own_uevent e 0 0 []) []"
    unfolding e(3) using accounts_new[OF accounts_start[of "cells m"] e(2)] by (simp add: own_uevent_def)
  then obtain b m3 where b: "malloc (UString q) m1 = (b, m3)" "heap_ok m3" "b \<noteq> 0" "b \<noteq> e"
    "cells m3 = (cells m1)(b := Some (UString q))" "accounts (cells m) (cells m3) (b # own_uevent e 0 0 []) []"
    using replace_string[OF e(4) e1] by blast
  have e3: "cells m3 e = Some (UeventBlock 0 action_add 0 [] 0)" using e1 b(4,5) by simp
  define m2 where "m2 = m3\<lparr>cells := (cells m3)(e := Some (UeventBlock b action_add 0 [] 0))\<rparr>"
  have acc: "accounts (cells m) (cells m2) (own_uevent e b 0 []) []"
    using accounts_store[OF b(6), of e] b(3) by (simp add: m2_def own_uevent_def del: fun_upd_apply)
  have holds: "holds_uevent (cells m) m2 e (zero_event\<lparr>ue_path := Some q\<rparr>) []"
    by (rule holds_ueventI[where p = b and s = 0 and ps = "[]"])
      (use heap_ok_update[OF b(2) e3] b(3-5) acc in \<open>simp_all add: m2_def zero_event_def opt_string_at_def\<close>)
  have r: "read_header_mem (message (hdr # fs) @ junk) 0 e m1 = Inr m2"
    using q h(2) by (simp add: read_header_mem_def h(1) Let_def b(1) load_uevent_at[OF e3] write_block_Some[OF e3] m2_def)
  have fr: "read_strings_mem ((hdr @ [NUL]) @ message fs @ junk) (length (hdr @ [NUL]) + length (message fs)) (length (hdr @ [NUL])) False e m2 = read_fields_mem fs e m2"
    by (rule fields_read_mem) (use assms(1) in simp)
  have pos: "0 < length (message (hdr # fs))" by simp
  have "read_strings_mem (message (hdr # fs) @ junk) (length (message (hdr # fs))) 0 True e m1 =
    read_strings_mem (message (hdr # fs) @ junk) (length (message (hdr # fs))) (0 + length hdr + 1) False e m2"
    by (subst read_strings_mem.simps) (simp only: c r pos if_True sum.case)
  also have "\<dots> = read_fields_mem fs e m2" using fr by (simp add: add_ac)
  finally show ?thesis using holds h by (intro exI[of _ m2]) simp
qed

section \<open>Properties\<close>

text \<open>
  C35. A message of the kernel over the heap: the process does with the blocks of the event what it
  does with its strings, failures included, and after it returned each block it allocated is
  released once, nothing else is touched, and exactly the strings of a repeated field SUBSYSTEM
  but the last are left behind.
\<close>

theorem uevent_memory_exact:
  assumes "heap_ok m" "\<forall>f \<in> set (hdr # fs). no_nul f" "CHR ''@'' \<in> set hdr"
    "r = Received (message (hdr # fs) @ junk) (length (message (hdr # fs)))"
  shows "case process_uevent_message r True f d of
      Inl x \<Rightarrow> process_uevent_message_mem r True f d m = Inl x
    | Inr (rc, d') \<Rightarrow> \<exists>m'. process_uevent_message_mem r True f d m = Inr (rc, d', m') \<and>
        (\<forall>a. cells m a \<noteq> None \<longrightarrow> cells m' a = cells m a) \<and>
        card {a. cells m a = None \<and> cells m' a \<noteq> None} = length (values_of ''SUBSYSTEM='' fs) - 1"
proof -
  let ?ev = "zero_event\<lparr>ue_path := Some (tl (dropWhile (\<lambda>c. c \<noteq> CHR ''@'') hdr))\<rparr>"
  obtain e m1 where e: "malloc (UeventBlock 0 action_add 0 [] 0) m = (e, m1)" by (metis surj_pair)
  obtain m2 where m2: "read_strings_mem (message (hdr # fs) @ junk) (length (message (hdr # fs))) 0 True e m1 = read_fields_mem fs e m2"
    "holds_uevent (cells m) m2 e ?ev []"
    using message_read_mem[OF assms(2,3) e assms(1)] by blast
  have mem: "process_uevent_message_mem r True f d m = seqO (read_fields_mem fs e m2) (\<lambda>m2.
      seqO (uevent_at e m2) (\<lambda>ev. seqO (check_uevent f ev d) (\<lambda>d'. seqO (free_uevent e m2) (\<lambda>m3. Inr (0, d', m3)))))"
    by (simp only: process_uevent_message_mem_def assms(4) recv_result.case e prod.case m2(1)) simp
  have list: "process_uevent_message r True f d = seqO (read_fields fs ?ev) (\<lambda>ev. seqO (check_uevent f ev d) (\<lambda>d'. Inr (0, d')))"
    by (simp only: process_uevent_message_def assms(4) recv_result.case message_read[OF assms(2,3)]) simp
  show ?thesis
  proof (cases "read_fields fs ?ev")
    case (Inl x)
    then have "read_fields_mem fs e m2 = Inl x" using fields_refined[OF m2(2), of fs] by simp
    then show ?thesis by (simp add: mem list Inl)
  next
    case (Inr ev)
    then obtain m3 lost where m3: "read_fields_mem fs e m2 = Inr m3" "holds_uevent (cells m) m3 e ev lost"
      "length lost = length (values_of ''SUBSYSTEM='' fs) - 1"
      using fields_refined[OF m2(2), of fs] by (auto simp: zero_event_def)
    obtain m4 where "free_uevent e m3 = Inr m4" "\<forall>a. cells m a \<noteq> None \<longrightarrow> cells m4 a = cells m a"
      "card {a. cells m a = None \<and> cells m4 a \<noteq> None} = length lost"
      using uevent_released[OF m3(2)] by blast
    then show ?thesis by (cases "check_uevent f ev d") (simp_all add: mem list Inr m3(1,3) uevent_read[OF m3(2)])
  qed
qed

text \<open>A message that says twice which subsystem it is from.\<close>

definition twice :: "string list" where
  "twice = [''ACTION=add'', ''SUBSYSTEM=net'', ''SUBSYSTEM=usb'', ''A=1'']"

theorem uevent_memory_exact_witness:
  "\<exists>m'. process_uevent_message_mem (Received (message (''add@/x'' # twice) @ []) (length (message (''add@/x'' # twice)))) True ForkParent tgmd_init empty_heap
      = Inr (0, tgmd_init, m') \<and> card {a. cells m' a \<noteq> None} = 1"
proof -
  have run: "process_uevent_message (Received (message (''add@/x'' # twice) @ []) (length (message (''add@/x'' # twice)))) True ForkParent tgmd_init = Inr (0, tgmd_init)"
    by code_simp
  have n: "\<forall>f \<in> set (''add@/x'' # twice). no_nul f" "CHR ''@'' \<in> set ''add@/x''" "length (values_of ''SUBSYSTEM='' twice) - 1 = 1"
    by (simp_all add: twice_def no_nul_def values_of_def)
  show ?thesis using uevent_memory_exact[OF heap_ok_empty n(1,2) refl, of "[]" ForkParent tgmd_init] unfolding run n(3) by (auto simp: empty_heap_def)
qed

end
