(* ===== verification/At_Memory.thy ===== *)
theory At_Memory
  imports At_Channel C_Heap
begin

text \<open>
  The memory of a response: the structures of \<open>huawei_tgm/atchannel.h\<close> as the blocks they are,
  with the functions of \<open>atchannel.c\<close> that build a response up (\<open>at_response_new\<close>,
  \<open>addIntermediate\<close>, \<open>handleFinalResponse\<close>), turn its list round (\<open>reverseIntermediates\<close>) and
  release it (\<open>at_response_free\<close>). They implement the operations on lists of lines of
  At_Response and At_Channel, and release what they allocated.
\<close>

section \<open>Blocks\<close>

text \<open>
  An \<open>ATLine\<close> with the pointers \<open>p_next\<close> and \<open>line\<close>, a string of \<open>strdup\<close>, and an
  \<open>ATResponse\<close> with \<open>success\<close> and the pointers \<open>finalResponse\<close> and \<open>p_intermediates\<close>.
\<close>

datatype at_cell = LineBlock nat nat | StringBlock string | ResponseBlock int nat nat

type_synonym at_mem = "at_cell mem"

definition load_line :: "nat \<Rightarrow> at_mem \<Rightarrow> (nat \<times> nat) outcome" where
  "load_line a m = seqO (read_block a m) (\<lambda>c. case c of LineBlock q l \<Rightarrow> Inr (q, l) | _ \<Rightarrow> Inl Undef)"

definition load_string :: "nat \<Rightarrow> at_mem \<Rightarrow> string outcome" where
  "load_string a m = seqO (read_block a m) (\<lambda>c. case c of StringBlock s \<Rightarrow> Inr s | _ \<Rightarrow> Inl Undef)"

definition load_response :: "nat \<Rightarrow> at_mem \<Rightarrow> (int \<times> nat \<times> nat) outcome" where
  "load_response a m = seqO (read_block a m) (\<lambda>c. case c of ResponseBlock s f i \<Rightarrow> Inr (s, f, i) | _ \<Rightarrow> Inl Undef)"

definition strdup :: "string \<Rightarrow> at_mem \<Rightarrow> nat \<times> at_mem" where
  "strdup s m = malloc (StringBlock s) m"

section \<open>The functions of the channel\<close>

definition at_response_new_mem :: "at_mem \<Rightarrow> nat \<times> at_mem" where
  "at_response_new_mem m = malloc (ResponseBlock 0 0 0) m"

definition addIntermediate_mem :: "nat \<Rightarrow> string \<Rightarrow> at_mem \<Rightarrow> at_mem outcome" where
  "addIntermediate_mem sp line m =
     (case malloc (LineBlock 0 0) m of (p_new, m1) \<Rightarrow>
      case strdup line m1 of (l, m2) \<Rightarrow>
      seqO (load_response sp m2) (\<lambda>(s, f, i).
      seqO (write_block p_new (LineBlock i l) m2) (\<lambda>m3. write_block sp (ResponseBlock s f p_new) m3)))"

definition set_success :: "nat \<Rightarrow> int \<Rightarrow> at_mem \<Rightarrow> at_mem outcome" where
  "set_success sp v m = seqO (load_response sp m) (\<lambda>(s, f, i). write_block sp (ResponseBlock v f i) m)"

definition handleFinalResponse_mem :: "nat \<Rightarrow> string \<Rightarrow> at_mem \<Rightarrow> at_mem outcome" where
  "handleFinalResponse_mem sp line m =
     (case strdup line m of (l, m1) \<Rightarrow> seqO (load_response sp m1) (\<lambda>(s, f, i). write_block sp (ResponseBlock s l i) m1))"

text \<open>The loop of \<open>reverseIntermediates\<close>; fuel bounds the number of its turns.\<close>

fun reverse_loop_mem :: "nat \<Rightarrow> nat \<Rightarrow> nat \<Rightarrow> at_mem \<Rightarrow> at_mem outcome" where
  "reverse_loop_mem n p pcur m =
     (if pcur = 0 then Inr m
      else case n of 0 \<Rightarrow> Inl Deep | Suc k \<Rightarrow>
        seqO (load_line pcur m) (\<lambda>(pnext, l).
        seqO (load_response p m) (\<lambda>(s, f, i).
        seqO (write_block pcur (LineBlock i l) m) (\<lambda>m1.
        seqO (write_block p (ResponseBlock s f pcur) m1) (\<lambda>m2. reverse_loop_mem k p pnext m2)))))"

definition reverseIntermediates_mem :: "nat \<Rightarrow> nat \<Rightarrow> at_mem \<Rightarrow> at_mem outcome" where
  "reverseIntermediates_mem n p m = seqO (load_response p m) (\<lambda>(s, f, pcur).
     seqO (write_block p (ResponseBlock s f 0) m) (reverse_loop_mem n p pcur))"

fun free_lines :: "nat \<Rightarrow> nat \<Rightarrow> at_mem \<Rightarrow> at_mem outcome" where
  "free_lines n p_line m =
     (if p_line = 0 then Inr m
      else case n of 0 \<Rightarrow> Inl Deep | Suc k \<Rightarrow>
        seqO (load_line p_line m) (\<lambda>(p_next, l).
        seqO (free l m) (\<lambda>m1. seqO (free p_line m1) (\<lambda>m2. free_lines k p_next m2))))"

definition at_response_free :: "nat \<Rightarrow> nat \<Rightarrow> at_mem \<Rightarrow> at_mem outcome" where
  "at_response_free n p m =
     (if p = 0 then Inr m
      else seqO (load_response p m) (\<lambda>(_, _, p_line).
           seqO (free_lines n p_line m) (\<lambda>m1.
           seqO (load_response p m1) (\<lambda>(_, f, _). seqO (free f m1) (free p)))))"

declare reverse_loop_mem.simps [simp del] free_lines.simps [simp del]

section \<open>What the blocks of a response stand for\<close>

text \<open>Reading a response back, as its user does.\<close>

fun read_lines :: "nat \<Rightarrow> nat \<Rightarrow> at_mem \<Rightarrow> string list outcome" where
  "read_lines n a m =
     (if a = 0 then Inr []
      else case n of 0 \<Rightarrow> Inl Deep | Suc k \<Rightarrow>
        seqO (load_line a m) (\<lambda>(q, l). seqO (load_string l m) (\<lambda>s. seqO (read_lines k q m) (\<lambda>ss. Inr (s # ss)))))"

declare read_lines.simps [simp del]

definition read_response :: "nat \<Rightarrow> nat \<Rightarrow> at_mem \<Rightarrow> ATResponse outcome" where
  "read_response n p m = seqO (load_response p m) (\<lambda>(s, f, i).
     seqO (if f = 0 then Inr None else seqO (load_string f m) (\<lambda>t. Inr (Some t))) (\<lambda>fin.
     seqO (read_lines n i m) (\<lambda>ss. Inr \<lparr>success = s, finalResponse = fin, p_intermediates = ss\<rparr>)))"

text \<open>The nodes of a list of lines, each with its address, that of its string, and the string.\<close>

type_synonym node = "nat \<times> nat \<times> string"

definition head :: "node list \<Rightarrow> nat" where
  "head xs = (case xs of [] \<Rightarrow> 0 | (a, _, _) # _ \<Rightarrow> a)"

fun lines_at :: "(nat \<Rightarrow> at_cell option) \<Rightarrow> node list \<Rightarrow> bool" where
  "lines_at c [] \<longleftrightarrow> True"
| "lines_at c ((a, l, s) # xs) \<longleftrightarrow> a \<noteq> 0 \<and> l \<noteq> 0 \<and> c a = Some (LineBlock (head xs) l) \<and> c l = Some (StringBlock s) \<and> lines_at c xs"

definition addrs :: "node list \<Rightarrow> nat list" where
  "addrs xs = concat (map (\<lambda>(a, l, s). [l, a]) xs)"

definition texts :: "node list \<Rightarrow> string list" where
  "texts xs = map (\<lambda>(a, l, s). s) xs"

lemma node_simps [simp]:
  "head [] = 0" "head ((a, l, s) # xs) = a" "addrs [] = []" "addrs ((a, l, s) # xs) = l # a # addrs xs"
  "addrs (xs @ ys) = addrs xs @ addrs ys" "texts [] = []" "texts ((a, l, s) # xs) = s # texts xs" "texts (xs @ ys) = texts xs @ texts ys"
  by (simp_all add: head_def addrs_def texts_def)

lemma set_addrs_rev [simp]: "set (addrs (rev xs)) = set (addrs xs)"
  by (auto simp: addrs_def)

lemma texts_rev [simp]: "texts (rev xs) = rev (texts xs)"
  by (simp add: texts_def rev_map)

lemma lines_at_frame: "lines_at c xs \<Longrightarrow> (\<And>a. a \<in> set (addrs xs) \<Longrightarrow> c' a = c a) \<Longrightarrow> lines_at c' xs"
  by (induction c xs rule: lines_at.induct) auto

lemma lines_at_upd [simp]: "a \<notin> set (addrs xs) \<Longrightarrow> lines_at (c(a := v)) xs = lines_at c xs"
  by (induction c xs rule: lines_at.induct) auto

lemma lines_at_allocated: "lines_at c xs \<Longrightarrow> a \<in> set (addrs xs) \<Longrightarrow> c a \<noteq> None \<and> a \<noteq> 0"
  by (induction c xs rule: lines_at.induct) auto

lemma head_null: "lines_at c xs \<Longrightarrow> head xs = 0 \<longleftrightarrow> xs = []"
  by (cases xs) auto

text \<open>
  A response at \<open>p\<close>: the blocks it owns, which are all different, and what they say.
\<close>

definition own :: "nat \<Rightarrow> nat \<Rightarrow> node list \<Rightarrow> nat list" where
  "own p f xs = addrs xs @ (if f = 0 then [] else [f]) @ [p]"

definition response_at :: "(nat \<Rightarrow> at_cell option) \<Rightarrow> nat \<Rightarrow> ATResponse \<Rightarrow> nat \<Rightarrow> node list \<Rightarrow> bool" where
  "response_at c p r f xs \<longleftrightarrow> p \<noteq> 0 \<and> c p = Some (ResponseBlock (success r) f (head xs)) \<and> lines_at c xs \<and>
     p_intermediates r = texts xs \<and> distinct (own p f xs) \<and>
     (case finalResponse r of None \<Rightarrow> f = 0 | Some t \<Rightarrow> f \<noteq> 0 \<and> c f = Some (StringBlock t))"

lemma response_at_allocated: "response_at c p r f xs \<Longrightarrow> a \<in> set (own p f xs) \<Longrightarrow> c a \<noteq> None \<and> a \<noteq> 0"
  using lines_at_allocated[of c xs a] by (auto simp: response_at_def own_def split: option.splits if_splits)

lemma load_response_at: "cells m p = Some (ResponseBlock s f i) \<Longrightarrow> load_response p m = Inr (s, f, i)"
  by (simp add: load_response_def)

lemma load_line_at: "cells m a = Some (LineBlock q l) \<Longrightarrow> load_line a m = Inr (q, l)"
  by (simp add: load_line_def)

lemma load_string_at: "cells m a = Some (StringBlock s) \<Longrightarrow> load_string a m = Inr s"
  by (simp add: load_string_def)

lemmas loads = load_response_at load_line_at load_string_at

lemma lines_read: "lines_at (cells m) xs \<Longrightarrow> length xs \<le> n \<Longrightarrow> read_lines n (head xs) m = Inr (texts xs)"
proof (induction xs arbitrary: n)
  case Nil
  then show ?case by (simp add: read_lines.simps)
next
  case (Cons x xs)
  obtain a l s where x: "x = (a, l, s)" by (metis surj_pair)
  obtain k where n: "n = Suc k" using Cons.prems(2) by (cases n) auto
  show ?case using Cons x n by (subst read_lines.simps) (simp add: loads)
qed

lemma response_read: "response_at (cells m) p r f xs \<Longrightarrow> length xs \<le> n \<Longrightarrow> read_response n p m = Inr r"
  by (cases r) (auto simp: read_response_def response_at_def loads lines_read split: option.splits)

section \<open>Building a response up\<close>

text \<open>A response in the heap \<open>m\<close>, which was \<open>c0\<close> before, with the blocks that were lost.\<close>

definition accounted :: "(nat \<Rightarrow> at_cell option) \<Rightarrow> at_mem \<Rightarrow> nat \<Rightarrow> ATResponse \<Rightarrow> nat \<Rightarrow> node list \<Rightarrow> nat list \<Rightarrow> bool" where
  "accounted c0 m p r f xs lost \<longleftrightarrow> heap_ok m \<and> response_at (cells m) p r f xs \<and> accounts c0 (cells m) (own p f xs) lost"

lemma accountedD:
  assumes "accounted c0 m p r f xs lost"
  shows "heap_ok m" "response_at (cells m) p r f xs" "accounts c0 (cells m) (own p f xs) lost"
    "cells m p = Some (ResponseBlock (success r) f (head xs))" "p \<in> set (own p f xs)" "p \<notin> set (addrs xs)" "f \<noteq> p"
  using assms by (auto simp: accounted_def response_at_def own_def split: if_splits)

lemma new_accounted:
  assumes "heap_ok m" "at_response_new_mem m = (p, m')"
  shows "accounted (cells m) m' p at_response_new 0 [] []"
  using assms c_heap.alloc_fresh[OF assms(1), of _ p m'] accounts_new[OF accounts_start, of "cells m" p]
  by (auto simp: accounted_def at_response_new_mem_def at_response_new_def response_at_def own_def)

lemma add_accounted:
  assumes "accounted c0 m p r f xs lost"
  shows "\<exists>m' a l. addIntermediate_mem p line m = Inr m' \<and>
    accounted c0 m' p (r\<lparr>p_intermediates := line # p_intermediates r\<rparr>) f ((a, l, line) # xs) lost"
proof -
  note h = accountedD[OF assms]
  define a l where al: "a = next_block m" "l = next_block m + 1"
  have none: "cells m a = None" "cells m l = None" "a \<noteq> 0" "l \<noteq> 0" "a \<noteq> l" using h(1) by (auto simp: heap_ok_def al)
  have new: "a \<noteq> p" "l \<noteq> p" using h(4) none by auto
  define m' where m': "m' = m\<lparr>cells := (cells m)(a := Some (LineBlock (head xs) l), l := Some (StringBlock line), p := Some (ResponseBlock (success r) f a)), next_block := next_block m + 2\<rparr>"
  have run: "addIntermediate_mem p line m = Inr m'"
    using h(4) new none(5) by (simp add: addIntermediate_mem_def malloc_def strdup_def load_response_def read_block_def write_block_def m' al fun_upd_twist)
  have ok: "heap_ok m'" using h(1) heap_ok_fresh[OF h(1,4)] by (auto simp: heap_ok_def m' al)
  note fa = accounts_fresh(1)[OF h(3) none(1)] and fl = accounts_fresh(1)[OF h(3) none(2)]
  have o: "own p f ((a, l, line) # xs) = l # a # own p f xs" by (simp add: own_def)
  have resp: "response_at (cells m') p (r\<lparr>p_intermediates := line # p_intermediates r\<rparr>) f ((a, l, line) # xs)"
    unfolding response_at_def o
    using h(2,6,7) new none fa fl by (auto simp: response_at_def own_def m' split: option.splits if_splits)
  have "accounts c0 (cells m') (l # a # own p f xs) lost"
    unfolding m' using h(3,5) none
    by (simp del: fun_upd_apply) (intro accounts_store accounts_new; simp)
  then show ?thesis using run ok resp unfolding accounted_def o[symmetric] by blast
qed

lemma success_accounted:
  assumes "accounted c0 m p r f xs lost"
  shows "\<exists>m'. set_success p v m = Inr m' \<and> accounted c0 m' p (r\<lparr>success := v\<rparr>) f xs lost"
proof -
  note h = accountedD[OF assms]
  define m' where m': "m' = m\<lparr>cells := (cells m)(p := Some (ResponseBlock v f (head xs)))\<rparr>"
  have run: "set_success p v m = Inr m'" by (simp add: set_success_def loads h(4) write_block_Some[OF h(4)] m')
  have resp: "response_at (cells m') p (r\<lparr>success := v\<rparr>) f xs"
    using h(2,6,7) by (auto simp: response_at_def m' split: option.split)
  have "heap_ok m'" "accounts c0 (cells m') (own p f xs) lost"
    unfolding m' using heap_ok_update[OF h(1,4)] accounts_store[OF h(3,5)] by simp_all
  then show ?thesis using run resp by (auto simp: accounted_def)
qed

lemma final_accounted:
  assumes "accounted c0 m p r f xs lost"
  shows "\<exists>m' g. handleFinalResponse_mem p line m = Inr m' \<and>
    accounted c0 m' p (r\<lparr>finalResponse := Some line\<rparr>) g xs (if f = 0 then lost else f # lost)"
proof -
  note h = accountedD[OF assms]
  define g where g: "g = next_block m"
  have none: "cells m g = None" "g \<noteq> 0" using h(1) by (auto simp: heap_ok_def g)
  have new: "g \<noteq> p" using h(4) none by auto
  define m' where m': "m' = m\<lparr>cells := (cells m)(g := Some (StringBlock line), p := Some (ResponseBlock (success r) g (head xs))), next_block := next_block m + 1\<rparr>"
  have run: "handleFinalResponse_mem p line m = Inr m'"
    using h(4) new by (simp add: handleFinalResponse_mem_def malloc_def strdup_def load_response_def read_block_def write_block_def m' g)
  have ok: "heap_ok m'" using h(1) heap_ok_fresh[OF h(1,4)] by (auto simp: heap_ok_def m' g)
  have px: "g \<notin> set (addrs xs)" "g \<noteq> f" "f \<noteq> 0 \<Longrightarrow> f \<notin> set (addrs xs)" "distinct (addrs xs)"
    using h(2) accounts_fresh(1)[OF h(3) none(1)] none by (auto simp: response_at_def own_def split: if_splits)
  have resp: "response_at (cells m') p (r\<lparr>finalResponse := Some line\<rparr>) g xs"
    using h(2,6,7) px none new by (auto simp: response_at_def own_def m' split: option.splits if_splits)
  have "accounts c0 (cells m') (g # own p f xs) lost"
    unfolding m' using h(3,5) none(1) by (simp del: fun_upd_apply) (intro accounts_store accounts_new; simp)
  then have "accounts c0 (cells m') ((if f = 0 then [] else [f]) @ own p g xs) lost"
    by (rule accounts_perm) (use px h(6,7) none new in \<open>auto simp: own_def\<close>)
  then have "accounts c0 (cells m') (own p g xs) (if f = 0 then lost else f # lost)"
    by (auto intro: accounts_lose split: if_splits)
  then show ?thesis using run ok resp unfolding accounted_def by blast
qed

section \<open>Turning the list round, and releasing it\<close>

lemma reverse_mem:
  assumes "heap_ok m" "cells m p = Some (ResponseBlock s f (head ys))" "lines_at (cells m) ys" "lines_at (cells m) zs"
    "distinct (addrs zs @ addrs ys @ [p])" "length zs \<le> n"
  shows "\<exists>m'. reverse_loop_mem n p (head zs) m = Inr m' \<and> heap_ok m' \<and> cells m' p = Some (ResponseBlock s f (head (rev zs @ ys))) \<and>
    lines_at (cells m') (rev zs @ ys) \<and> (\<forall>a. a \<notin> set (addrs zs) \<and> a \<noteq> p \<longrightarrow> cells m' a = cells m a)"
  using assms
proof (induction zs arbitrary: n m ys)
  case Nil
  then show ?case by (simp add: reverse_loop_mem.simps)
next
  case (Cons z zs)
  obtain a l t where z: "z = (a, l, t)" by (metis surj_pair)
  obtain k where n: "n = Suc k" using Cons.prems(6) by (cases n) auto
  have c: "cells m a = Some (LineBlock (head zs) l)" "cells m l = Some (StringBlock t)" "a \<noteq> 0" "l \<noteq> 0" "lines_at (cells m) zs"
    using Cons.prems(4) by (simp_all add: z)
  have d: "a \<noteq> p" "l \<noteq> p" "a \<noteq> l" "a \<notin> set (addrs zs)" "a \<notin> set (addrs ys)" "p \<notin> set (addrs zs)" "p \<notin> set (addrs ys)"
    "l \<notin> set (addrs ys)"
    using Cons.prems(5) by (auto simp: z)
  define m1 where m1: "m1 = m\<lparr>cells := (cells m)(a := Some (LineBlock (head ys) l))\<rparr>"
  define m2 where m2: "m2 = m1\<lparr>cells := (cells m1)(p := Some (ResponseBlock s f a))\<rparr>"
  have p1: "cells m1 p = Some (ResponseBlock s f (head ys))" using Cons.prems(2) d by (simp add: m1)
  have ok: "heap_ok m1" "heap_ok m2" unfolding m2 m1
    using heap_ok_update[OF Cons.prems(1) c(1)] heap_ok_update[of m1 p] p1 by (simp_all add: m1)
  have run: "reverse_loop_mem n p (head (z # zs)) m = reverse_loop_mem k p (head zs) m2"
    using Cons.prems(2) c(1,3) by (subst reverse_loop_mem.simps) (simp add: n z loads write_block_Some[OF c(1)] write_block_Some[OF p1] m1[symmetric] m2)
  have "\<exists>m'. reverse_loop_mem k p (head zs) m2 = Inr m' \<and> heap_ok m' \<and> cells m' p = Some (ResponseBlock s f (head (rev zs @ z # ys))) \<and>
    lines_at (cells m') (rev zs @ z # ys) \<and> (\<forall>b. b \<notin> set (addrs zs) \<and> b \<noteq> p \<longrightarrow> cells m' b = cells m2 b)"
  proof (rule Cons.IH[OF ok(2)])
    show "cells m2 p = Some (ResponseBlock s f (head (z # ys)))" by (simp add: m2 z)
    show "lines_at (cells m2) (z # ys)" using Cons.prems(3) c d by (simp add: m2 m1 z)
    show "lines_at (cells m2) zs" using c d by (simp add: m2 m1)
    show "distinct (addrs zs @ addrs (z # ys) @ [p])" using Cons.prems(5) by (auto simp: z)
    show "length zs \<le> k" using Cons.prems(6) by (simp add: n)
  qed
  then show ?case unfolding run by (auto simp: z m2 m1)
qed

lemma distinct_addrs_rev: "distinct (addrs (rev xs)) = distinct (addrs xs)"
proof (induction xs)
  case (Cons x xs)
  obtain a l t where "x = (a, l, t)" by (metis surj_pair)
  then show ?case using Cons by auto
qed simp

lemma reverse_accounted:
  assumes "accounted c0 m p r f xs lost" "length xs \<le> n"
  shows "\<exists>m'. reverseIntermediates_mem n p m = Inr m' \<and> accounted c0 m' p (reverseIntermediates r) f (rev xs) lost"
proof -
  note h = accountedD[OF assms(1)]
  have d: "distinct (addrs xs @ [p])" "f \<noteq> 0 \<Longrightarrow> f \<notin> set (addrs xs)"
    using h(2) by (auto simp: response_at_def own_def split: if_splits)
  define m1 where m1: "m1 = m\<lparr>cells := (cells m)(p := Some (ResponseBlock (success r) f 0))\<rparr>"
  have "\<exists>m'. reverse_loop_mem n p (head xs) m1 = Inr m' \<and> heap_ok m' \<and> cells m' p = Some (ResponseBlock (success r) f (head (rev xs @ []))) \<and>
    lines_at (cells m') (rev xs @ []) \<and> (\<forall>a. a \<notin> set (addrs xs) \<and> a \<noteq> p \<longrightarrow> cells m' a = cells m1 a)"
  proof (rule reverse_mem)
    show "heap_ok m1" unfolding m1 by (rule heap_ok_update[OF h(1,4)])
  qed (use h(2,6) d assms(2) in \<open>simp_all add: m1 response_at_def\<close>)
  then obtain m' where m': "reverse_loop_mem n p (head xs) m1 = Inr m'" "heap_ok m'" "cells m' p = Some (ResponseBlock (success r) f (head (rev xs)))"
    "lines_at (cells m') (rev xs)" "\<forall>a. a \<notin> set (addrs xs) \<and> a \<noteq> p \<longrightarrow> cells m' a = cells m a"
    by (auto simp: m1)
  have run: "reverseIntermediates_mem n p m = Inr m'"
    by (simp add: reverseIntermediates_mem_def loads h(4) write_block_Some[OF h(4)] m1[symmetric] m'(1))
  have o: "set (own p f (rev xs)) = set (own p f xs)" "distinct (own p f (rev xs)) = distinct (own p f xs)"
    by (auto simp: own_def distinct_addrs_rev)
  have resp: "response_at (cells m') p (reverseIntermediates r) f (rev xs)"
    using h(2,7) m'(3,4,5) d(2) by (auto simp: response_at_def o split: option.splits)
  have "accounts c0 (cells m') (own p f (rev xs)) lost"
  proof (rule accounts_change[OF h(3) o(1)])
    show "distinct (own p f (rev xs))" using accounts_distinct[OF h(3)] o(2) by simp
    show "cells m' a \<noteq> None" if "a \<in> set (own p f xs)" for a
      using response_at_allocated[OF resp, of a] that o(1) by simp
    show "cells m' a = cells m a" if "a \<notin> set (own p f xs)" for a using m'(5) that by (simp add: own_def)
  qed
  then show ?thesis using run m'(2) resp unfolding accounted_def by blast
qed

text \<open>The release of a structure is that of its blocks, each of them once.\<close>

lemma free_lines_releases:
  assumes "lines_at (cells m) xs" "distinct (addrs xs)" "length xs \<le> n"
  shows "free_lines n (head xs) m = release_all free (addrs xs) m"
  using assms
proof (induction xs arbitrary: n m)
  case Nil
  then show ?case by (simp add: free_lines.simps)
next
  case (Cons x xs)
  obtain a l t where x: "x = (a, l, t)" by (metis surj_pair)
  obtain k where n: "n = Suc k" using Cons.prems(3) by (cases n) auto
  have c: "cells m a = Some (LineBlock (head xs) l)" "cells m l = Some (StringBlock t)" "a \<noteq> 0" "l \<noteq> 0" "a \<noteq> l" "lines_at (cells m) xs"
    "a \<notin> set (addrs xs)" "l \<notin> set (addrs xs)"
    using Cons.prems(1,2) by (auto simp: x)
  define m2 where m2: "m2 = m\<lparr>cells := (cells m)(l := None, a := None)\<rparr>"
  have f: "free l m = Inr (m\<lparr>cells := (cells m)(l := None)\<rparr>)" "free a (m\<lparr>cells := (cells m)(l := None)\<rparr>) = Inr m2"
    using c by (simp_all add: free_def m2)
  have "lines_at (cells m2) xs" by (rule lines_at_frame[OF c(6)]) (use c(7,8) in \<open>auto simp: m2\<close>)
  then have "free_lines k (head xs) m2 = release_all free (addrs xs) m2"
    by (rule Cons.IH) (use Cons.prems(2,3) in \<open>simp_all add: n x\<close>)
  then show ?case
    using c(3) by (subst free_lines.simps) (simp add: n x loads c(1) f)
qed

lemma free_releases:
  assumes "accounted c0 m p r f xs lost" "length xs \<le> n"
  shows "at_response_free n p m = release_all free (own p f xs) m"
proof -
  note h = accountedD[OF assms(1)]
  have pc: "p \<noteq> 0" "lines_at (cells m) xs" using h(2) by (simp_all add: response_at_def)
  have d: "distinct (addrs xs)" using accounts_distinct[OF h(3)] by (simp add: own_def)
  obtain m1 where m1: "release_all free (addrs xs) m = Inr m1" "cells m1 = (\<lambda>x. if x \<in> set (addrs xs) then None else cells m x)"
    using c_heap.release_blocks[OF h(1) d] lines_at_allocated[OF pc(2)] by blast
  then show ?thesis
    using pc(1) h(4,6) free_lines_releases[OF pc(2) d assms(2)]
    by (simp add: at_response_free_def loads own_def release_all_append free_def seqO_def split: sum.split)
qed

section \<open>The reader thread over the memory\<close>

text \<open>
  \<open>processLine\<close> with \<open>sp_response\<close> as the pointer \<open>sp\<close>; of the channel it is given, the field
  \<open>sp_response\<close> plays no part.
\<close>

definition processLine_mem :: "nat \<Rightarrow> string \<Rightarrow> 'z chan_scheme \<Rightarrow> at_mem \<Rightarrow> ('z chan_scheme \<times> at_mem) outcome" where
  "processLine_mem sp line ch m =
     (if sp = 0 then Inr (handleUnsolicited line ch, m)
      else if isFinalResponseSuccess line then
        seqO (set_success sp 1 m) (\<lambda>m1. seqO (handleFinalResponse_mem sp line m1) (\<lambda>m2. Inr (ch, m2)))
      else if isFinalResponseError line then
        seqO (set_success sp 0 m) (\<lambda>m1. seqO (handleFinalResponse_mem sp line m1) (\<lambda>m2. Inr (ch, m2)))
      else (case (s_smsPDU ch, line = ''> '') of
          (Some pdu, True) \<Rightarrow> Inr ((snd (writeCtrlZ pdu ch))\<lparr>s_smsPDU := None\<rparr>, m)
        | _ \<Rightarrow> seqO (load_response sp m) (\<lambda>(_, _, i). case s_type ch of
            NO_RESULT \<Rightarrow> Inr (handleUnsolicited line ch, m)
          | NUMERIC \<Rightarrow>
              if i = 0 \<and> (case line of [] \<Rightarrow> False | c # _ \<Rightarrow> isdigit c)
              then seqO (addIntermediate_mem sp line m) (\<lambda>m1. Inr (ch, m1)) else Inr (handleUnsolicited line ch, m)
          | SINGLELINE \<Rightarrow>
              if i \<noteq> 0 then Inr (handleUnsolicited line ch, m)
              else seqO (startsWith_prefix line ch) (\<lambda>b.
                if b then seqO (addIntermediate_mem sp line m) (\<lambda>m1. Inr (ch, m1)) else Inr (handleUnsolicited line ch, m))
          | MULTILINE \<Rightarrow>
              seqO (startsWith_prefix line ch) (\<lambda>b.
                if b then seqO (addIntermediate_mem sp line m) (\<lambda>m1. Inr (ch, m1)) else Inr (handleUnsolicited line ch, m)))))"

text \<open>A run of lines, in both forms.\<close>

fun process_lines :: "string list \<Rightarrow> 'z chan_scheme \<Rightarrow> 'z chan_scheme outcome" where
  "process_lines [] ch = Inr ch"
| "process_lines (l # ls) ch = seqO (processLine l ch) (process_lines ls)"

fun process_lines_mem :: "nat \<Rightarrow> string list \<Rightarrow> 'z chan_scheme \<Rightarrow> at_mem \<Rightarrow> ('z chan_scheme \<times> at_mem) outcome" where
  "process_lines_mem sp [] ch m = Inr (ch, m)"
| "process_lines_mem sp (l # ls) ch m = seqO (processLine_mem sp l ch m) (\<lambda>(ch', m'). process_lines_mem sp ls ch' m')"

lemma without_response:
  "handleUnsolicited l (ch\<lparr>sp_response := q\<rparr>) = (handleUnsolicited l ch)\<lparr>sp_response := q\<rparr>"
  "snd (writeCtrlZ s (ch\<lparr>sp_response := q\<rparr>)) = (snd (writeCtrlZ s ch))\<lparr>sp_response := q\<rparr>"
  "startsWith_prefix l (ch\<lparr>sp_response := q\<rparr>) = startsWith_prefix l ch"
  by (auto simp: handleUnsolicited_def writeCtrlZ_def put_def startsWith_prefix_def split: prod.splits)

lemma prompt_case: "(case (x, b) of (Some y, True) \<Rightarrow> g y | _ \<Rightarrow> h) = (if x \<noteq> None \<and> b then g (the x) else h)"
  by (auto split: option.split bool.split)

lemma processLine_mem_cases:
  assumes "sp \<noteq> 0" "\<not> isFinalResponse line" "load_response sp m = Inr (s, f, i)" "prefix_given (s_type ch) (s_responsePrefix ch)"
  shows "processLine_mem sp line ch m =
    (if s_smsPDU ch \<noteq> None \<and> line = ''> '' then Inr ((snd (writeCtrlZ (the (s_smsPDU ch)) ch))\<lparr>s_smsPDU := None\<rparr>, m)
     else if matches (s_type ch) (s_responsePrefix ch) line \<and> (s_type ch = MULTILINE \<or> i = 0)
     then seqO (addIntermediate_mem sp line m) (\<lambda>m1. Inr (ch, m1)) else Inr (handleUnsolicited line ch, m))"
  using assms unfolding processLine_mem_def prompt_case
  by (auto simp: isFinalResponse_def matches_def startsWith_prefix_def strStartsWith_iff prefix_given_def
      split: option.splits ATCommandType.splits list.splits)

lemma processLine_refined:
  assumes acc: "accounted c0 m sp r f xs lost" and sp: "sp_response ch = Some r"
    and pfx: "prefix_given (s_type ch) (s_responsePrefix ch)"
  shows "\<exists>ch' m' r' f' xs' lost'. processLine line ch = Inr ch' \<and> sp_response ch' = Some r' \<and>
    s_type ch' = s_type ch \<and> s_responsePrefix ch' = s_responsePrefix ch \<and>
    processLine_mem sp line (ch\<lparr>sp_response := q\<rparr>) m = Inr (ch'\<lparr>sp_response := q\<rparr>, m') \<and>
    accounted c0 m' sp r' f' xs' lost' \<and> length xs' \<le> length xs + 1 \<and>
    (f' \<noteq> 0 \<longleftrightarrow> f \<noteq> 0 \<or> isFinalResponse line) \<and>
    length lost' = length lost + (if f \<noteq> 0 \<and> isFinalResponse line then 1 else 0)"
proof -
  have r: "response_at (cells m) sp r f xs" using acc by (simp add: accounted_def)
  have spc: "sp \<noteq> 0" "load_response sp m = Inr (success r, f, head xs)" "head xs = 0 \<longleftrightarrow> p_intermediates r = []"
    using r head_null[of "cells m" xs] by (auto simp: response_at_def loads texts_def)
  show ?thesis
  proof (cases "isFinalResponse line")
    case True
    define v :: int where "v = (if isFinalResponseSuccess line then 1 else 0)"
    obtain m1 where m1: "set_success sp v m = Inr m1" "accounted c0 m1 sp (r\<lparr>success := v\<rparr>) f xs lost"
      using success_accounted[OF acc] by blast
    obtain m2 g where m2: "handleFinalResponse_mem sp line m1 = Inr m2"
      "accounted c0 m2 sp (r\<lparr>success := v, finalResponse := Some line\<rparr>) g xs (if f = 0 then lost else f # lost)"
      using final_accounted[OF m1(2)] by blast
    have g: "g \<noteq> 0" using m2(2) by (simp add: accounted_def response_at_def)
    have "processLine_mem sp line (ch\<lparr>sp_response := q\<rparr>) m = Inr (ch\<lparr>sp_response := q\<rparr>, m2)"
      using True m1(1) m2(1) spc(1) by (auto simp: processLine_mem_def isFinalResponse_def v_def split: if_splits)
    then show ?thesis
      using True m2(2) g sp pfx
      by (intro exI[of _ "ch\<lparr>sp_response := Some (r\<lparr>success := v, finalResponse := Some line\<rparr>)\<rparr>"] exI[of _ m2] exI[of _ "r\<lparr>success := v, finalResponse := Some line\<rparr>"]
          exI[of _ g] exI[of _ xs] exI[of _ "if f = 0 then lost else f # lost"]) (simp add: processLine_pending v_def)
  next
    case False
    let ?take = "matches (s_type ch) (s_responsePrefix ch) line \<and> (s_type ch = MULTILINE \<or> p_intermediates r = [])"
    obtain m1 a l where m1: "addIntermediate_mem sp line m = Inr m1"
      "accounted c0 m1 sp (r\<lparr>p_intermediates := line # p_intermediates r\<rparr>) f ((a, l, line) # xs) lost"
      using add_accounted[OF acc] by blast
    show ?thesis
    proof (cases "\<not> (s_smsPDU ch \<noteq> None \<and> line = ''> '') \<and> ?take")
      case True
      have "processLine_mem sp line (ch\<lparr>sp_response := q\<rparr>) m = Inr (ch\<lparr>sp_response := q\<rparr>, m1)"
        using True False spc m1(1) pfx by (subst processLine_mem_cases[OF spc(1) False spc(2)]) auto
      then show ?thesis
        using True False m1(2) sp pfx
        by (intro exI[of _ "ch\<lparr>sp_response := Some (r\<lparr>p_intermediates := line # p_intermediates r\<rparr>)\<rparr>"] exI[of _ m1] exI[of _ "r\<lparr>p_intermediates := line # p_intermediates r\<rparr>"]
            exI[of _ f] exI[of _ "(a, l, line) # xs"] exI[of _ lost]) (auto simp: processLine_pending)
    next
      case other: False
      define ch' where "ch' = (if s_smsPDU ch \<noteq> None \<and> line = ''> '' then (snd (writeCtrlZ (the (s_smsPDU ch)) ch))\<lparr>s_smsPDU := None\<rparr> else handleUnsolicited line ch)"
      have "processLine line ch = Inr ch'"
        using other False sp pfx by (auto simp: processLine_pending ch'_def)
      moreover have "processLine_mem sp line (ch\<lparr>sp_response := q\<rparr>) m = Inr (ch'\<lparr>sp_response := q\<rparr>, m)"
        using other spc(3) pfx by (subst processLine_mem_cases[OF spc(1) False spc(2)]) (auto simp: ch'_def without_response)
      moreover have "sp_response ch' = Some r" "s_type ch' = s_type ch" "s_responsePrefix ch' = s_responsePrefix ch"
        using sp by (simp_all add: ch'_def)
      ultimately show ?thesis using acc False
        by (intro exI[of _ ch'] exI[of _ m] exI[of _ r] exI[of _ f] exI[of _ xs] exI[of _ lost]) simp
    qed
  qed
qed

lemma process_lines_refined:
  assumes "accounted c0 m sp r f xs lost" "sp_response ch = Some r" "prefix_given (s_type ch) (s_responsePrefix ch)"
  shows "\<exists>ch' m' r' f' xs' lost'. process_lines ls ch = Inr ch' \<and> sp_response ch' = Some r' \<and>
    process_lines_mem sp ls (ch\<lparr>sp_response := q\<rparr>) m = Inr (ch'\<lparr>sp_response := q\<rparr>, m') \<and>
    accounted c0 m' sp r' f' xs' lost' \<and> length xs' \<le> length xs + length ls \<and>
    length lost' = length lost + (length (filter isFinalResponse ls) - (if f = 0 then 1 else 0))"
  using assms
proof (induction ls arbitrary: ch m r f xs lost)
  case Nil
  then show ?case by (intro exI[of _ ch] exI[of _ m] exI[of _ r] exI[of _ f] exI[of _ xs] exI[of _ lost]) simp
next
  case (Cons l ls)
  obtain ch1 m1 r1 f1 xs1 lost1 where s1: "processLine l ch = Inr ch1" "sp_response ch1 = Some r1"
    "s_type ch1 = s_type ch" "s_responsePrefix ch1 = s_responsePrefix ch"
    "processLine_mem sp l (ch\<lparr>sp_response := q\<rparr>) m = Inr (ch1\<lparr>sp_response := q\<rparr>, m1)"
    "accounted c0 m1 sp r1 f1 xs1 lost1" "length xs1 \<le> length xs + 1" "f1 \<noteq> 0 \<longleftrightarrow> f \<noteq> 0 \<or> isFinalResponse l"
    "length lost1 = length lost + (if f \<noteq> 0 \<and> isFinalResponse l then 1 else 0)"
    using processLine_refined[OF Cons.prems, of l q] by (elim exE conjE)
  have "prefix_given (s_type ch1) (s_responsePrefix ch1)" using Cons.prems(3) s1(3,4) by simp
  then obtain ch2 m2 r2 f2 xs2 lost2 where s2: "process_lines ls ch1 = Inr ch2" "sp_response ch2 = Some r2"
    "process_lines_mem sp ls (ch1\<lparr>sp_response := q\<rparr>) m1 = Inr (ch2\<lparr>sp_response := q\<rparr>, m2)"
    "accounted c0 m2 sp r2 f2 xs2 lost2" "length xs2 \<le> length xs1 + length ls"
    "length lost2 = length lost1 + (length (filter isFinalResponse ls) - (if f1 = 0 then 1 else 0))"
    using Cons.IH[OF s1(6,2)] by blast
  have "length lost2 = length lost + (length (filter isFinalResponse (l # ls)) - (if f = 0 then 1 else 0))"
    using s1(8,9) s2(6) by auto
  then show ?case
    using s1 s2 by (intro exI[of _ ch2] exI[of _ m2] exI[of _ r2] exI[of _ f2] exI[of _ xs2] exI[of _ lost2]) simp
qed

section \<open>Properties\<close>

text \<open>
  C14. The memory of a response, over any run of lines the reader thread handles for a pending
  command: on the blocks of C, \<open>processLine\<close> does what it does on the lists of lines, the
  reversed response reads back as the reversed list, and \<open>at_response_free\<close> then releases each
  block once, touches nothing that was allocated before, and leaves exactly the strings of the
  final responses that a later final response replaced.
\<close>

theorem response_memory_exact:
  assumes "heap_ok m" "sp_response ch = Some at_response_new" "prefix_given (s_type ch) (s_responsePrefix ch)" "length ls \<le> n"
  shows "\<exists>p m1 ch' r m2 m3 m4. at_response_new_mem m = (p, m1) \<and>
    process_lines ls ch = Inr ch' \<and> sp_response ch' = Some r \<and>
    process_lines_mem p ls (ch\<lparr>sp_response := q\<rparr>) m1 = Inr (ch'\<lparr>sp_response := q\<rparr>, m2) \<and>
    reverseIntermediates_mem n p m2 = Inr m3 \<and> read_response n p m3 = Inr (reverseIntermediates r) \<and>
    at_response_free n p m3 = Inr m4 \<and> (\<forall>a. cells m a \<noteq> None \<longrightarrow> cells m4 a = cells m a) \<and>
    card {a. cells m a = None \<and> cells m4 a \<noteq> None} = length (filter isFinalResponse ls) - 1"
proof -
  obtain p m1 where new: "at_response_new_mem m = (p, m1)" by (metis surj_pair)
  obtain ch' m2 r f xs lost where lines: "process_lines ls ch = Inr ch'" "sp_response ch' = Some r"
    "process_lines_mem p ls (ch\<lparr>sp_response := q\<rparr>) m1 = Inr (ch'\<lparr>sp_response := q\<rparr>, m2)"
    "accounted (cells m) m2 p r f xs lost" "length xs \<le> length ls" "length lost = length (filter isFinalResponse ls) - 1"
    using process_lines_refined[OF new_accounted[OF assms(1) new] assms(2,3), of ls q] by auto
  have n: "length xs \<le> n" "length (rev xs) \<le> n" using lines(5) assms(4) by simp_all
  obtain m3 where rev: "reverseIntermediates_mem n p m2 = Inr m3" "accounted (cells m) m3 p (reverseIntermediates r) f (rev xs) lost"
    using reverse_accounted[OF lines(4) n(1)] by blast
  note acc = accountedD[OF rev(2)]
  obtain m4 where fr: "at_response_free n p m3 = Inr m4" "\<forall>a. cells m a \<noteq> None \<longrightarrow> cells m4 a = cells m a"
    "card {a. cells m a = None \<and> cells m4 a \<noteq> None} = length lost"
    using accounts_release[OF acc(3,1)] unfolding free_releases[OF rev(2) n(2), symmetric] by blast
  have "read_response n p m3 = Inr (reverseIntermediates r)" by (rule response_read[OF acc(2) n(2)])
  then show ?thesis using new lines(1-3) rev(1) fr[unfolded lines(6)] by blast
qed

text \<open>
  A multi-line command that is answered by two lines, \<open>OK\<close> and, before the waiting thread runs,
  \<open>NO CARRIER\<close>: the block of \<open>OK\<close> is lost.
\<close>

definition asked :: chan where
  "asked = (demo_chan [])\<lparr>sp_response := Some at_response_new, s_type := MULTILINE, s_responsePrefix := Some ''+CGDCONT:''\<rparr>"

theorem response_memory_exact_witness:
  "\<exists>p m1 m2 m3 m4 r. at_response_new_mem empty_heap = (p, m1) \<and>
    process_lines_mem p [''+CGDCONT: 1'', ''+CGDCONT: 2'', ''OK'', ''NO CARRIER''] (asked\<lparr>sp_response := None\<rparr>) m1 = Inr (asked\<lparr>sp_response := None\<rparr>, m2) \<and>
    reverseIntermediates_mem 4 p m2 = Inr m3 \<and> read_response 4 p m3 = Inr r \<and> p_intermediates r = [''+CGDCONT: 1'', ''+CGDCONT: 2''] \<and>
    at_response_free 4 p m3 = Inr m4 \<and> card {a. cells m4 a \<noteq> None} = 1"
proof -
  let ?ls = "[''+CGDCONT: 1'', ''+CGDCONT: 2'', ''OK'', ''NO CARRIER'']"
  have p: "process_lines ?ls asked = Inr (asked\<lparr>sp_response := Some \<lparr>success = 0, finalResponse = Some ''NO CARRIER'', p_intermediates = [''+CGDCONT: 2'', ''+CGDCONT: 1'']\<rparr>\<rparr>)"
    by (simp add: asked_def demo_chan_def at_response_new_def processLine_def line_class_defs handleFinalResponse_def addIntermediate_def startsWith_prefix_def)
  have f: "length (filter isFinalResponse ?ls) - 1 = 1" by (simp add: line_class_defs)
  have a: "sp_response asked = Some at_response_new" "prefix_given (s_type asked) (s_responsePrefix asked)" "length ?ls \<le> 4"
    by (simp_all add: asked_def prefix_given_def)
  show ?thesis
    using response_memory_exact[OF heap_ok_empty a, of None] unfolding f p by (auto simp: empty_heap_def)
qed

end
