(* ===== verification/Spec2Isabelle.thy ===== *)
theory Spec2Isabelle
  imports Daemon_Safety Tgmd_Memory At_Memory
begin

text \<open>
  A verification of the telephony manager of this repository: the daemon process \<open>tgmd\<close>, the
  daemon library \<open>libtgm\<close> and the driver for Huawei modems \<open>huawei_tgm\<close>.

  \<^bold>\<open>The program.\<close> \<open>tgmd/tgmd.c\<close> is the process: its \<open>main\<close> loads the driver, starts the event
  loop of \<open>libtgm\<close>, registers the driver with it, and then reads the kernel's uevents to run
  \<open>usb_modeswitch\<close> when a modem appears. \<open>libtgm/tgm_event.cpp\<close> is a loop over \<open>select\<close> with
  timers and watched descriptors. \<open>libtgm/tgm.cpp\<close> runs on it: it accepts one client on a
  socket, unmarshals its requests, calls the driver through \<open>TGM_RadioFunctions\<close>, and marshals
  the completions (\<open>TGM_onRequestComplete\<close>) and unsolicited responses of the driver back.
  \<open>huawei_tgm/huawei-tgm.c\<close> is the driver: it keeps the radio state, turns requests into AT
  commands, and has a main thread that opens the device and supervises pppd. It talks to the
  modem through \<open>huawei_tgm/atchannel.c\<close>, whose reader thread collects the lines of the modem
  into the response a command waits for, using the tokenizer \<open>huawei_tgm/at_tok.c\<close> and the
  prefix test of \<open>huawei_tgm/misc.c\<close>.

  \<^bold>\<open>Conventions.\<close> A C function is a function on the record of the static variables it touches; a
  call that does not return normally is \<open>Inl\<close> of a \<open>stop\<close> (\<open>Tgm_Prelude\<close>): \<open>Blocked\<close> waits for
  ever for the environment, \<open>Undef\<close> is undefined behaviour, \<open>Exited\<close> is \<open>exit\<close>, and \<open>Deep\<close> is
  exhausted fuel. \<open>allO P r\<close> says that \<open>P\<close> holds if \<open>r\<close> returns, \<open>okO P r\<close> also that \<open>r\<close> does not
  end in \<open>Deep\<close>, \<open>goodO P r\<close> that it ends neither in \<open>Deep\<close> nor in \<open>Undef\<close>, and \<open>outO E P r\<close> that
  \<open>r\<close> returns with \<open>P\<close> or ends in a stop of \<open>E\<close>. A \<open>char *\<close> that is only read is the string behind
  it, one that may be NULL an option; integers of C are \<open>int\<close>, with the conversion of \<open>strtol\<close>
  results to \<open>int\<close> written out.

  \<^bold>\<open>The theories.\<close>

  \<^item> \<open>Tgm_Prelude\<close>, \<open>C_Heap\<close>: outcomes and their rules, characters, lists; the heap of \<open>malloc\<close>
    and \<open>free\<close> with its interface \<open>allocator\<close> and the accounting of blocks.
  \<^item> \<open>Misc\<close>: \<open>strStartsWith\<close>. \<open>At_Tok\<close>: \<open>at_tok.c\<close>; the cursor \<open>char **\<close> is the rest of the line;
    \<open>token_source\<close> is the interface of what consumes a line token by token.
  \<^item> \<open>At_Response\<close>: \<open>ATResponse\<close>, \<open>isFinalResponse\<close> and its siblings, \<open>reverseIntermediates\<close>,
    \<open>at_get_cme_error\<close>. \<open>At_Memory\<close>: the same structures as blocks, with \<open>at_response_new\<close>,
    \<open>addIntermediate\<close>, \<open>handleFinalResponse\<close>, \<open>reverseIntermediates\<close>, \<open>processLine\<close> and
    \<open>at_response_free\<close> on the heap.
  \<^item> \<open>At_Reader\<close>: \<open>findNextEOL\<close> and \<open>readline\<close> on the array \<open>s_ATBuffer\<close> with its cursor.
    \<open>At_Channel\<close>: the record \<open>chan\<close> of the static variables, \<open>writeline\<close>, \<open>writeCtrlZ\<close>,
    \<open>processLine\<close>, \<open>at_send_command_full\<close> and the senders built on it, \<open>at_open\<close>, \<open>at_close\<close>,
    \<open>at_handshake\<close>. \<open>At_Loop\<close>: \<open>readerLoop\<close>, reader and channel together.
  \<^item> \<open>Tgm_Interface\<close>: the constants and types of \<open>include/datanetwork/tgm.h\<close>.
  \<^item> \<open>Huawei_State\<close>: the record \<open>modem\<close>, which extends \<open>chan\<close>; \<open>setRadioState\<close>, \<open>isRadioOn\<close>,
    \<open>getSIMStatus\<close>, \<open>pollSIMState\<close>, \<open>initializeCallback\<close>.
    \<open>Huawei_Requests\<close>: \<open>onRequest\<close> and every request handler. \<open>Huawei_Main\<close>: \<open>TGM_Init\<close>, the
    main thread cut at the points where it sleeps or waits, and the driver as the step relation
    \<open>driver_step\<close> of its threads.
  \<^item> \<open>Tgm_Event\<close>: \<open>tgm_event.cpp\<close> over a heap of events with NULL and unallocated addresses.
    \<open>Tgm_Loop\<close>: the invariant of the loop, a whole round, and the step relation \<open>loop_step\<close>.
  \<^item> \<open>Tgm_Parcel\<close>: the \<open>dispatch\<close> and \<open>response\<close> functions of \<open>tgm.cpp\<close>. \<open>Tgm_Core\<close>: the rest of
    \<open>tgm.cpp\<close>; its record \<open>core\<close> extends the state of the event loop. \<open>Tgm_Responses\<close>: what the
    client reads. \<open>Tgm_Daemon\<close>: the invariant of the daemon. \<open>Tgm_Callbacks\<close>: every callback
    keeps it. \<open>Tgm_Reach\<close>: the states the daemon reaches.
  \<^item> \<open>Tgmd\<close>: \<open>tgmd.c\<close>, the parser of uevents over the array it reads, \<open>check_uevent\<close> and \<open>main\<close>.
    \<open>Tgmd_Memory\<close>: the blocks of \<open>struct uevent\<close>, \<open>process_uevent_message\<close> and \<open>free_uevent\<close>.
  \<^item> \<open>Driver_Daemon\<close>: the data the driver completes requests with have the types that the daemon's
    response functions take; the guard of \<open>onRequest\<close>. \<open>Driver_Calls\<close>: a run of the driver's calls
    of the library (\<open>perform_all\<close>, in any order \<open>calls_between\<close> admits) on the daemon.
    \<open>Client_Request\<close>: a request from the record of the client to the packet with its answer.
    \<open>Daemon_Safety\<close>: the whole daemon with this driver.
\<close>

text \<open>
  \<^bold>\<open>What is shown.\<close>

  \<^item> The line reader refines a reader over the unread characters (\<open>readline_refines\<close>), and on a
    clean stream the reader thread delivers its lines in order; it runs \<open>processLine\<close> on what it
    reads in that order (\<open>readerLoop_is_schedule\<close>, over \<open>events_of\<close>, the reading half of the
    loop), which is how the senders of \<open>At_Channel\<close> see it. Input with the SMS prompt \<open>>\<close> is
    outside \<open>readline_refines\<close> and the lines in order: there \<open>readline\<close> may leave its array
    (\<open>prompt_leaves_buffer\<close>). A command returns exactly the lines of its own exchange
    (\<open>exchange_exact\<close>), no sender dereferences NULL, and each leaves the channel idle. The
    response in memory is the response on lists, and \<open>at_response_free\<close> returns its blocks
    (\<open>response_memory_exact\<close>).
  \<^item> The driver: an invariant of all its reachable states, how often and with which data every
    request is completed, when it is refused, that changes of the radio state are announced, that
    the mutual recursion of \<open>setRadioState\<close> and the SIM poll is bounded, and that pppd is given up
    after a bounded number of checks, of whose result the client is told but for one race.
  \<^item> The event loop: timers are a sorted ring, \<open>tgm_timer_add\<close> on the pointers is sorted
    insertion, a round fires exactly the expired timers and then the ready descriptors, and all of
    it is an invariant of the reachable states, whatever the callbacks do within their interface.
  \<^item> The daemon: with clients whose string counts fit the stack, no reachable state leads to
    undefined behaviour of \<open>libtgm\<close> (a step of the Huawei driver that is itself undefined, such as
    those of \<open>cme_zero_crashes\<close> and \<open>operator_answer_overruns\<close>, counts as the end of the process
    there; the calls of other threads fall between two rounds of the loop, and \<open>wake_timer_race\<close>
    shows what happens otherwise); one client at a time is served, the wake lock is released by exactly one timer,
    responses are framed and marshalled so that they can be read back, and a request of the client
    gives one packet, or none if it is one of \<open>unanswered\<close>.
  \<^item> The process: messages are parsed as the strings they hold, the crashes are characterised,
    \<open>usb_modeswitch\<close> is started exactly when the uevents call for it and \<open>fork\<close> succeeds, and the
    start ends listening or in one of its errors, whichever of \<open>main\<close> and the loop's thread is
    faster.
  \<^item> Errors that the code has are theorems too, each with the input that shows it.

  \<^bold>\<open>Interfaces.\<close> \<open>allocator\<close> (interpreted as \<open>c_heap\<close>); \<open>token_source\<close> (\<open>at\<close>, the tokenizer);
  \<open>at_sender\<close> and \<open>at_query\<close> (the five senders); \<open>chan_client\<close> and \<open>driver_invariant\<close>, what a
  client of the channel keeps (\<open>down\<close>, \<open>announce\<close>, \<open>keep_request\<close>, \<open>fails\<close>); \<open>request_keeper\<close>,
  the same for requests; \<open>event_lists\<close> (\<open>rings\<close>, the linked lists); \<open>event_client\<close>, what the
  event loop asks of its callbacks (\<open>daemon\<close>, the callbacks of \<open>tgm.cpp\<close>).

  \<^bold>\<open>Bounds.\<close> Every loop of the code over data that is there is structural recursion. Where a
  function takes a number of steps, that number is shown to be enough: two levels for
  \<open>setRadioState\<close>; for the walk over the timers any number above the number of timers, and in the
  daemon the next free address is one; for the walks over the lines of a response the number of
  its lines. The buffer of the reader has its size from the code, and the lemmas of \<open>At_Reader\<close>
  hold for every size.

  \<^bold>\<open>The environment.\<close> What \<open>read\<close>, \<open>write\<close>, \<open>accept\<close>, the record stream and the clock give is a
  script in the state, over which the theorems quantify; \<open>select\<close>, \<open>fork\<close>, \<open>open\<close> and the state
  file of the ppp interface are arguments of a step. \<open>Parcel\<close>, the conversion between UTF-8 and
  UTF-16 and the size of a pointer are the record \<open>ext\<close>; what is used of them is \<open>parcel_laws\<close>,
  which \<open>item_ext\<close> satisfies.

  \<^bold>\<open>Not modelled.\<close> A request or timed callback of the driver is one atomic step of its thread,
  with the reader's events inside it where it waits; the command mutex of the channel is what
  makes these steps atomic, \<open>listMutex\<close> and \<open>s_writeMutex\<close> are held or not, and the other locks
  are left out. The thread of the event loop and the caller of \<open>TGM_startEventLoop\<close> go on
  separately after the signal: \<open>eventLoop\<close> is a step of its own (\<open>watch\<close> in \<open>daemon_reach\<close>).
  \<open>malloc\<close> does not fail and gives fresh addresses. Logging, \<open>AT_DUMP\<close>, the power ioctl,
  \<open>dump_uevent\<close>, the mount command of \<open>tgmd\<close>, \<open>fcntl\<close>, the creation of threads and the debug
  socket, which is compiled out, are left out: they have no effect on the modelled state. The
  termios branch for \<open>/dev/ttyS\<close> is never taken; \<open>onCancel\<close>, \<open>onUnsolicited\<close> and \<open>getVersion\<close> of
  the driver do nothing with its state. \<open>tgm_commands.h\<close> and \<open>tgm_unsol_commands.h\<close> are included
  nowhere, the rest of \<open>tgm.h\<close> and \<open>tgmd.h\<close> are comments and declarations, and the Java client and
  the build files are no part of the C program. \<close>

end
